(* ===== verification/Prelude.thy ===== *)
theory Prelude
  imports Main "HOL-Library.Word" "HOL-Library.Stream" "HOL-Library.Char_ord"
    "HOL-Library.List_Lexorder"
begin

text \<open>
  The vocabulary shared by every theory of the development: machine words, the faults a C++
  routine can end with, state passing with faults, C strings, and the parts of the standard
  library that the sources call on text (\<open>std::to_string\<close>, \<open>std::stoi\<close>).
\<close>

unbundle bit_operations_syntax

named_theorems op_simps \<open>computation rules of state-passing operations\<close>

type_synonym u8 = "8 word"
type_synonym u32 = "32 word"
type_synonym u64 = "64 word"

section \<open>Faults and state-passing operations\<close>

text \<open>
  Every way a routine can fail to return normally: the exception classes thrown by the sources
  and by the standard library calls they make, a failed \<open>assert\<close>, a call of \<open>exit\<close> or of \<open>std::terminate\<close>, a call to
  another process that ended with a fault of its own and never answered (\<open>ServerDied\<close>), an access to or
  a release of memory that is not allocated (\<open>BadMemory\<close>), and \<open>OutOfFuel\<close> for a loop that has not ended within the rounds it was given.
\<close>

datatype fault =
    RuntimeError string
  | UtilsException string
  | InvalidArgument
  | OutOfRange
  | AssertFailed
  | LogicError
  | SystemError
  | ExitProcess int
  | Terminate
  | ServerDied fault
  | BadMemory
  | OutOfFuel

type_synonym ('s, 'a) op = "'s \<Rightarrow> (fault + 'a) \<times> 's"

definition retM :: "'a \<Rightarrow> ('s, 'a) op" where
  "retM x s = (Inr x, s)"

definition throwM :: "fault \<Rightarrow> ('s, 'a) op" where
  "throwM e s = (Inl e, s)"

definition bindM :: "('s, 'a) op \<Rightarrow> ('a \<Rightarrow> ('s, 'b) op) \<Rightarrow> ('s, 'b) op" where
  "bindM m f s = (case m s of (Inl e, t) \<Rightarrow> (Inl e, t) | (Inr x, t) \<Rightarrow> f x t)"

definition thenM :: "('s, unit) op \<Rightarrow> ('s, 'b) op \<Rightarrow> ('s, 'b) op" where
  "thenM m n = bindM m (\<lambda>_. n)"

definition getM :: "('s \<Rightarrow> 'a) \<Rightarrow> ('s, 'a) op" where
  "getM f s = (Inr (f s), s)"

definition modifyM :: "('s \<Rightarrow> 's) \<Rightarrow> ('s, unit) op" where
  "modifyM f s = (Inr (), f s)"

definition liftM :: "fault + 'a \<Rightarrow> ('s, 'a) op" where
  "liftM r s = (r, s)"

text \<open>Running an operation on a part of a larger state, given by a reader and a writer.\<close>

definition onM :: "('t \<Rightarrow> 's) \<Rightarrow> ('s \<Rightarrow> 't \<Rightarrow> 't) \<Rightarrow> ('s, 'a) op \<Rightarrow> ('t, 'a) op" where
  "onM rd wr m t = (case m (rd t) of (r, s) \<Rightarrow> (r, wr s t))"

lemma op_run [op_simps]:
  "retM x s = (Inr x, s)"
  "throwM e s = (Inl e, s)"
  "getM f s = (Inr (f s), s)"
  "modifyM g s = (Inr (), g s)"
  "liftM r s = (r, s)"
  by (simp_all add: retM_def throwM_def getM_def modifyM_def liftM_def)

lemma bindM_Inr [op_simps]: "m s = (Inr x, t) \<Longrightarrow> bindM m f s = f x t"
  by (simp add: bindM_def)

lemma bindM_Inl [op_simps]: "m s = (Inl e, t) \<Longrightarrow> bindM m f s = (Inl e, t)"
  by (simp add: bindM_def)

lemma thenM_Inr [op_simps]: "m s = (Inr u, t) \<Longrightarrow> thenM m n s = n t"
  by (simp add: thenM_def bindM_def)

lemma thenM_Inl [op_simps]: "m s = (Inl e, t) \<Longrightarrow> thenM m n s = (Inl e, t)"
  by (simp add: thenM_def bindM_def)

lemma onM_run [op_simps]: "m (rd t) = (r, s) \<Longrightarrow> onM rd wr m t = (r, wr s t)"
  by (simp add: onM_def)

lemma bindM_result_Inr:
  "bindM m f s = (Inr y, t) \<longleftrightarrow> (\<exists>x u. m s = (Inr x, u) \<and> f x u = (Inr y, t))"
  by (auto simp: bindM_def split: prod.splits sum.splits)

lemma bindM_result_Inl:
  "bindM m f s = (Inl e, t) \<longleftrightarrow>
     m s = (Inl e, t) \<or> (\<exists>x u. m s = (Inr x, u) \<and> f x u = (Inl e, t))"
  by (auto simp: bindM_def split: prod.splits sum.splits)

lemma thenM_result_Inr:
  "thenM m n s = (Inr y, t) \<longleftrightarrow> (\<exists>u. m s = (Inr (), u) \<and> n u = (Inr y, t))"
  by (simp add: thenM_def bindM_result_Inr)

lemma thenM_result_Inl:
  "thenM m n s = (Inl e, t) \<longleftrightarrow>
     m s = (Inl e, t) \<or> (\<exists>u. m s = (Inr (), u) \<and> n u = (Inl e, t))"
  by (simp add: thenM_def bindM_result_Inl)

lemma onM_result:
  "onM rd wr m t = (r, t') \<longleftrightarrow> (\<exists>s. m (rd t) = (r, s) \<and> t' = wr s t)"
  by (auto simp: onM_def split: prod.splits)

lemmas op_results = bindM_result_Inr bindM_result_Inl thenM_result_Inr thenM_result_Inl onM_result

section \<open>C strings\<close>

text \<open>
  A \<open>std::string\<close> is a list of bytes (\<open>char\<close>). Reading one through \<open>c_str()\<close> with a
  C library routine stops at the first NUL.
\<close>

definition c_str :: "string \<Rightarrow> string" where
  "c_str s = takeWhile (\<lambda>c. c \<noteq> CHR 0x00) s"

lemma c_str_id: "CHR 0x00 \<notin> set s \<Longrightarrow> c_str s = s"
  by (auto simp: c_str_def takeWhile_eq_all_conv)

lemma c_str_no_nul [simp]: "CHR 0x00 \<notin> set (c_str s)"
  by (auto simp: c_str_def dest: set_takeWhileD)

lemma c_str_idem [simp]: "c_str (c_str s) = c_str s"
  by (simp add: c_str_id)

section \<open>Splitting text at a character\<close>

lemma takeWhile_char [simp]:
  "c \<notin> set xs \<Longrightarrow> takeWhile (\<lambda>x. x \<noteq> c) (xs @ c # ys) = xs"
  by (induction xs) auto

lemma dropWhile_char [simp]:
  "c \<notin> set xs \<Longrightarrow> dropWhile (\<lambda>x. x \<noteq> c) (xs @ c # ys) = c # ys"
  by (induction xs) auto

lemma takeWhile_no_char [simp]: "c \<notin> set xs \<Longrightarrow> takeWhile (\<lambda>x. x \<noteq> c) xs = xs"
  by (induction xs) auto

lemma dropWhile_no_char [simp]: "c \<notin> set xs \<Longrightarrow> dropWhile (\<lambda>x. x \<noteq> c) xs = []"
  by (induction xs) auto

lemma dropWhile_found:
  "dropWhile (\<lambda>x. x \<noteq> c) xs = y # ys \<Longrightarrow>
     y = c \<and> c \<in> set xs \<and> xs = takeWhile (\<lambda>x. x \<noteq> c) xs @ c # ys"
  by (induction xs) (auto split: if_splits)

lemma dropWhile_not_found: "dropWhile (\<lambda>x. x \<noteq> c) xs = [] \<Longrightarrow> c \<notin> set xs"
  by (induction xs) (auto split: if_splits)

lemma takeWhile_char_notin [simp]: "c \<notin> set (takeWhile (\<lambda>x. x \<noteq> c) xs)"
  by (auto dest: set_takeWhileD)

section \<open>Decimal numbers\<close>

definition char_code :: "char \<Rightarrow> nat" where
  "char_code c = of_char c"

definition digit_char :: "nat \<Rightarrow> char" where
  "digit_char d = char_of (48 + d)"

definition is_digit :: "char \<Rightarrow> bool" where
  "is_digit c \<longleftrightarrow> 48 \<le> char_code c \<and> char_code c \<le> 57"

text \<open>\<open>std::isspace\<close> in the C locale.\<close>

definition is_space :: "char \<Rightarrow> bool" where
  "is_space c \<longleftrightarrow> char_code c = 32 \<or> (9 \<le> char_code c \<and> char_code c \<le> 13)"

lemma char_code_digit [simp]: "d < 10 \<Longrightarrow> char_code (digit_char d) = 48 + d"
  by (simp add: char_code_def digit_char_def)

lemma is_digit_digit_char [simp]: "d < 10 \<Longrightarrow> is_digit (digit_char d)"
  by (simp add: is_digit_def)

lemma digit_not_space [simp]: "is_digit c \<Longrightarrow> \<not> is_space c"
  by (auto simp: is_digit_def is_space_def)

text \<open>\<open>std::to_string\<close> on a non-negative number, and on an \<open>int\<close>.\<close>

fun nat_dec :: "nat \<Rightarrow> string" where
  "nat_dec n = (if n < 10 then [digit_char n] else nat_dec (n div 10) @ [digit_char (n mod 10)])"

declare nat_dec.simps [simp del]

definition int_dec :: "int \<Rightarrow> string" where
  "int_dec i = (if i < 0 then CHR ''-'' # nat_dec (nat (- i)) else nat_dec (nat i))"

definition dec_val :: "string \<Rightarrow> nat" where
  "dec_val s = foldl (\<lambda>a c. 10 * a + (char_code c - 48)) 0 s"

lemma dec_val_snoc [simp]: "dec_val (s @ [c]) = 10 * dec_val s + (char_code c - 48)"
  by (simp add: dec_val_def)

lemma dec_val_Nil [simp]: "dec_val [] = 0"
  by (simp add: dec_val_def)

lemma nat_dec_digits: "\<forall>c \<in> set (nat_dec n). is_digit c"
  by (induction n rule: nat_dec.induct) (subst nat_dec.simps, auto)

lemma nat_dec_nonempty [simp]: "nat_dec n \<noteq> []"
  by (subst nat_dec.simps) simp

lemma dec_val_nat_dec [simp]: "dec_val (nat_dec n) = n"
proof (induction n rule: nat_dec.induct)
  case (1 n)
  show ?case
  proof (cases "n < 10")
    case True
    have "dec_val ([] @ [digit_char n]) = n"
      using True by (simp only: dec_val_snoc) simp
    with True show ?thesis by (subst nat_dec.simps) simp
  next
    case False
    with 1 show ?thesis by (subst nat_dec.simps) simp
  qed
qed

lemma nat_dec_inject [simp]: "nat_dec m = nat_dec n \<longleftrightarrow> m = n"
  by (metis dec_val_nat_dec)

lemma nat_dec_chars: "c \<in> set (nat_dec n) \<Longrightarrow> is_digit c"
  using nat_dec_digits by blast

text \<open>
  \<open>std::stoi\<close>: leading white space and one sign are accepted, characters after the digits are
  ignored; no digits is \<open>std::invalid_argument\<close> and a value outside \<open>int\<close> is
  \<open>std::out_of_range\<close>.
\<close>

definition int_min :: int where
  "int_min = - (2 ^ 31)"

definition int_max :: int where
  "int_max = 2 ^ 31 - 1"

definition stoi :: "string \<Rightarrow> fault + int" where
  "stoi s =
     (let t = dropWhile is_space s;
          neg = (t \<noteq> [] \<and> hd t = CHR ''-'');
          u = (if t \<noteq> [] \<and> (hd t = CHR ''-'' \<or> hd t = CHR ''+'') then tl t else t);
          ds = takeWhile is_digit u;
          v = (if neg then - int (dec_val ds) else int (dec_val ds))
      in if ds = [] then Inl InvalidArgument
         else if v < int_min \<or> int_max < v then Inl OutOfRange
         else Inr v)"

lemma stoi_range: "stoi s = Inr v \<Longrightarrow> int_min \<le> v \<and> v \<le> int_max"
  by (auto simp: stoi_def Let_def split: if_splits)

lemma stoi_nat_dec:
  assumes "int n \<le> int_max"
  shows "stoi (nat_dec n) = Inr (int n)"
proof -
  obtain c cs where c: "nat_dec n = c # cs" by (metis list.exhaust nat_dec_nonempty)
  then have "is_digit c" using nat_dec_chars [of c n] by simp
  then have "c \<noteq> CHR ''-''" "c \<noteq> CHR ''+''" "\<not> is_space c"
    by (auto simp: is_digit_def is_space_def char_code_def)
  moreover have "takeWhile is_digit (nat_dec n) = nat_dec n"
    using nat_dec_digits by (simp add: takeWhile_eq_all_conv)
  ultimately show ?thesis
    using assms dec_val_nat_dec [of n] c by (auto simp: stoi_def Let_def int_min_def)
qed

text \<open>The \<open>operator<\<close> of \<open>std::string\<close> is the lexicographic order on bytes.\<close>

lemma less_char_code: "(c < d) = (char_code c < char_code d)"
  by (simp add: less_char_def char_code_def)

end
