(* ===== verification/CoreUtils.thy ===== *)
theory CoreUtils
  imports Prelude
begin

text \<open>
  \<open>server/ycsbc-l4/core/utils.h\<close>: the FNV-1a hash that scrambles key numbers, the parsing helpers
  \<open>StrToBool\<close> and \<open>Trim\<close>, and the random print character.
\<close>

section \<open>FNV-1a on 64-bit numbers\<close>

definition kFNVOffsetBasis64 :: u64 where
  "kFNVOffsetBasis64 = 0xCBF29CE484222325"

definition kFNVPrime64 :: u64 where
  "kFNVPrime64 = 1099511628211"

text \<open>The loop of \<open>FNVHash64\<close>, with the number of rounds left.\<close>

fun fnv_rounds :: "nat \<Rightarrow> u64 \<Rightarrow> u64 \<Rightarrow> u64" where
  "fnv_rounds 0 hash val = hash"
| "fnv_rounds (Suc k) hash val =
     (let octet = val AND 0x00ff;
          val = drop_bit 8 val;
          hash = hash XOR octet;
          hash = hash * kFNVPrime64
      in fnv_rounds k hash val)"

definition FNVHash64 :: "u64 \<Rightarrow> u64" where
  "FNVHash64 val = fnv_rounds 8 kFNVOffsetBasis64 val"

definition Hash :: "u64 \<Rightarrow> u64" where
  "Hash val = FNVHash64 val"

text \<open>The reference description: absorb the eight octets of the value, lowest first.\<close>

definition octet :: "u64 \<Rightarrow> nat \<Rightarrow> u64" where
  "octet v i = drop_bit (8 * i) v AND 0xff"

definition fnv_absorb :: "u64 \<Rightarrow> u64 \<Rightarrow> u64" where
  "fnv_absorb h b = (h XOR b) * kFNVPrime64"

lemma octet_Suc: "octet v (Suc i) = octet (drop_bit 8 v) i"
  by (simp add: octet_def drop_bit_drop_bit add.commute)

lemma fnv_rounds_foldl:
  "fnv_rounds k h v = foldl fnv_absorb h (map (octet v) [0..<k])"
proof (induction k arbitrary: h v)
  case 0
  show ?case by simp
next
  case (Suc k)
  have "map (octet v) [0..<Suc k] = octet v 0 # map (octet (drop_bit 8 v)) [0..<k]"
    by (simp only: upt_conv_Cons [of 0 "Suc k"] map_Suc_upt [symmetric] list.map map_map o_def
        octet_Suc zero_less_Suc)
  moreover have "fnv_rounds (Suc k) h v = fnv_rounds k (fnv_absorb h (octet v 0)) (drop_bit 8 v)"
    by (simp add: Let_def fnv_absorb_def octet_def)
  ultimately show ?case
    by (simp only: Suc.IH foldl_Cons)
qed

lemma FNVHash64_foldl:
  "FNVHash64 v = foldl fnv_absorb kFNVOffsetBasis64 (map (octet v) [0..<8])"
  by (simp add: FNVHash64_def fnv_rounds_foldl)

text \<open>
  The prime is odd, so one round loses no information: for a given octet it is a bijection on
  hashes, for a given hash it is injective in the octet.
\<close>

lemma kFNVPrime64_inverse: "kFNVPrime64 * 0xce965057aff6957b = 1"
  by (simp add: kFNVPrime64_def)

lemma times_prime_inject [simp]: "a * kFNVPrime64 = b * kFNVPrime64 \<longleftrightarrow> a = b"
proof
  assume "a * kFNVPrime64 = b * kFNVPrime64"
  then have "a * kFNVPrime64 * 0xce965057aff6957b = b * kFNVPrime64 * 0xce965057aff6957b"
    by (rule arg_cong)
  then show "a = b" by (simp only: mult.assoc kFNVPrime64_inverse mult_1_right)
qed simp

lemma xor_cancel_left: "(x::u64) XOR a = x XOR b \<longleftrightarrow> a = b"
  by (auto simp: bit_eq_iff bit_xor_iff)

lemma xor_cancel_right: "(a::u64) XOR x = b XOR x \<longleftrightarrow> a = b"
  by (simp only: xor.commute [of _ x] xor_cancel_left)

lemma fnv_absorb_inject_hash: "fnv_absorb h b = fnv_absorb h' b \<longleftrightarrow> h = h'"
  by (simp add: fnv_absorb_def xor_cancel_right)

lemma fnv_absorb_inject_octet: "fnv_absorb h b = fnv_absorb h b' \<longleftrightarrow> b = b'"
  by (simp add: fnv_absorb_def xor_cancel_left)

lemma foldl_absorb_inject: "foldl fnv_absorb h bs = foldl fnv_absorb h' bs \<longleftrightarrow> h = h'"
  by (induction bs arbitrary: h h') (simp_all add: fnv_absorb_inject_hash)

text \<open>The octets determine the value.\<close>

lemma bit_octet: "bit (octet v i) n \<longleftrightarrow> n < 8 \<and> bit v (8 * i + n)"
proof -
  have "bit (0xff :: u64) n \<longleftrightarrow> n < 8"
  proof -
    have "(0xff :: u64) = mask 8" by (simp add: mask_eq_exp_minus_1)
    then show ?thesis by (simp only: bit_mask_iff possible_bit_word) auto
  qed
  then show ?thesis by (auto simp: octet_def bit_and_iff bit_drop_bit_eq)
qed

lemma octets_eqI:
  assumes "\<And>i. i < 8 \<Longrightarrow> octet a i = octet b i"
  shows "a = b"
proof (rule bit_word_eqI)
  fix n assume "n < LENGTH(64)"
  then have "n div 8 < 8" by simp
  then have "octet a (n div 8) = octet b (n div 8)" by (rule assms)
  then have "bit (octet a (n div 8)) (n mod 8) = bit (octet b (n div 8)) (n mod 8)" by simp
  then show "bit a n = bit b n" by (simp add: bit_octet)
qed

text \<open>
  Numbers that differ in one octet only hash differently: absorb the common prefix, the octet
  that differs, and the common rest.
\<close>

lemma FNVHash64_one_octet:
  assumes "i < 8" and same: "\<And>j. j < 8 \<Longrightarrow> j \<noteq> i \<Longrightarrow> octet a j = octet b j"
    and "FNVHash64 a = FNVHash64 b"
  shows "a = b"
proof -
  have split: "[0..<8] = [0..<i] @ i # [Suc i..<8]"
    using \<open>i < 8\<close> by (metis upt_add_eq_append upt_conv_Cons le0 less_imp_le le_add_diff_inverse)
  have pre: "map (octet a) [0..<i] = map (octet b) [0..<i]"
    using \<open>i < 8\<close> by (auto intro!: same)
  have post: "map (octet a) [Suc i..<8] = map (octet b) [Suc i..<8]"
    by (auto intro!: same)
  from assms(3) have "octet a i = octet b i"
    unfolding FNVHash64_foldl split map_append foldl_append list.map foldl_Cons pre post
    by (simp add: foldl_absorb_inject fnv_absorb_inject_octet)
  with same show ?thesis by (metis octets_eqI)
qed

section \<open>Parsing helpers\<close>

text \<open>\<open>std::tolower\<close> in the C locale.\<close>

definition to_lower :: "char \<Rightarrow> char" where
  "to_lower c = (if 65 \<le> char_code c \<and> char_code c \<le> 90 then char_of (char_code c + 32) else c)"

definition StrToBool :: "string \<Rightarrow> fault + bool" where
  "StrToBool str0 =
     (let str = map to_lower str0
      in if str = ''true'' \<or> str = ''1'' then Inr True
         else if str = ''false'' \<or> str = ''0'' then Inr False
         else Inl (UtilsException (''Invalid bool string: '' @ str)))"

text \<open>
  \<open>Trim\<close> looks for the first non-space from the front, then for the last one from the back, but
  never past the front position.
\<close>

definition Trim :: "string \<Rightarrow> string" where
  "Trim str = (let front = dropWhile is_space str in rev (dropWhile is_space (rev front)))"

text \<open>\<open>RandomPrintChar\<close>, given the value \<open>rand()\<close> returned.\<close>

definition RandomPrintChar :: "nat \<Rightarrow> char" where
  "RandomPrintChar r = char_of (r mod 94 + 33)"

lemma RandomPrintChar_printable: "33 \<le> char_code (RandomPrintChar r) \<and> char_code (RandomPrintChar r) \<le> 126"
proof -
  have "r mod 94 < 94" by simp
  then have "r mod 94 + 33 < 256" "r mod 94 + 33 \<le> 126" by linarith+
  then show ?thesis by (simp add: RandomPrintChar_def char_code_def)
qed

lemma Trim_decomp:
  obtains ws ws' where "s = ws @ Trim s @ ws'" "\<forall>c \<in> set ws. is_space c" "\<forall>c \<in> set ws'. is_space c"
proof
  let ?front = "dropWhile is_space s"
  have "?front = rev (dropWhile is_space (rev ?front)) @ rev (takeWhile is_space (rev ?front))"
    by (metis rev_append rev_rev_ident takeWhile_dropWhile_id)
  then show "s = takeWhile is_space s @ Trim s @ rev (takeWhile is_space (rev ?front))"
    by (simp add: Trim_def)
  show "\<forall>c \<in> set (takeWhile is_space s). is_space c"
    by (auto dest: set_takeWhileD)
  show "\<forall>c \<in> set (rev (takeWhile is_space (rev ?front))). is_space c"
    by (auto dest: set_takeWhileD)
qed

definition trimmed :: "string \<Rightarrow> bool" where
  "trimmed s \<longleftrightarrow> s = [] \<or> (\<not> is_space (hd s) \<and> \<not> is_space (last s))"

lemma Trim_id: "trimmed s \<Longrightarrow> Trim s = s"
proof (cases "s = []")
  case False
  assume "trimmed s"
  with False have "\<not> is_space (hd s)" "\<not> is_space (hd (rev s))"
    by (auto simp: trimmed_def hd_rev)
  with False have "dropWhile is_space s = s" "dropWhile is_space (rev s) = rev s"
    by (metis dropWhile_eq_self_iff rev_is_Nil_conv)+
  then show ?thesis by (simp add: Trim_def)
qed (simp add: Trim_def)

lemma trimmed_Trim: "trimmed (Trim s)"
proof (cases "Trim s = []")
  case False
  let ?front = "dropWhile is_space s"
  let ?tail = "dropWhile is_space (rev ?front)"
  from False have rest: "?tail \<noteq> []" by (simp add: Trim_def)
  then have "\<not> is_space (hd ?tail)" by (rule hd_dropWhile)
  then have last: "\<not> is_space (last (Trim s))"
    using rest by (simp add: Trim_def last_rev)
  have "?front \<noteq> []" using rest by (metis dropWhile.simps(1) rev.simps(1))
  then have "\<not> is_space (hd ?front)" by (rule hd_dropWhile)
  moreover have "hd (Trim s) = hd ?front"
  proof -
    have "?front = Trim s @ rev (takeWhile is_space (rev ?front))"
      by (metis Trim_def rev_append rev_rev_ident takeWhile_dropWhile_id)
    with False show ?thesis by (metis hd_append2)
  qed
  ultimately show ?thesis using last by (simp add: trimmed_def)
qed (simp add: trimmed_def)

lemma Trim_pad:
  assumes "trimmed s" and "\<forall>c \<in> set ws. is_space c" and "\<forall>c \<in> set ws'. is_space c"
  shows "Trim (ws @ s @ ws') = s"
proof (cases "s = []")
  case True
  have "dropWhile is_space (ws @ ws') = []"
    using assms(2,3) by (simp only: dropWhile_eq_Nil_conv set_append ball_Un)
  then have "Trim (ws @ ws') = []"
    by (simp only: Trim_def Let_def rev.simps dropWhile.simps)
  with True show ?thesis by simp
next
  case False
  have "dropWhile is_space (ws @ s @ ws') = s @ ws'"
    using assms(1,2) False by (cases s) (auto simp: trimmed_def dropWhile_append2)
  moreover have "dropWhile is_space (rev ws' @ rev s) = rev s"
  proof -
    have "dropWhile is_space (rev ws' @ rev s) = dropWhile is_space (rev s)"
      using assms(3) by (intro dropWhile_append2) auto
    also have "\<dots> = rev s"
      using assms(1) False by (simp add: trimmed_def dropWhile_eq_self_iff hd_rev)
    finally show ?thesis .
  qed
  ultimately show ?thesis by (simp add: Trim_def)
qed

section \<open>What the hash keeps apart\<close>

text \<open>
  Hashing a key number loses nothing inside a block: two numbers that differ in a single octet,
  for instance any two of 256 consecutive numbers of an aligned block, have different hashes.
\<close>

theorem Hash_one_octet:
  assumes "i < 8" and "\<forall>j < 8. j \<noteq> i \<longrightarrow> octet a j = octet b j" and "a \<noteq> b"
  shows "Hash a \<noteq> Hash b"
  using FNVHash64_one_octet [of i a b] assms by (auto simp: Hash_def)

theorem Hash_one_octet_witness: "Hash 0x1234 \<noteq> Hash 0x12ff"
proof (rule Hash_one_octet [of 0])
  have "octet 0x1234 j = octet 0x12ff j" if "j \<noteq> 0" for j
  proof -
    obtain k where "j = Suc k" using \<open>j \<noteq> 0\<close> by (cases j) auto
    then show ?thesis by (simp add: octet_Suc)
  qed
  then show "\<forall>j < 8. j \<noteq> 0 \<longrightarrow> octet 0x1234 j = octet 0x12ff j" by blast
qed simp_all

end
