(* ===== verification/Properties.thy ===== *)
theory Properties
  imports CoreUtils
begin

text \<open>
  \<open>server/ycsbc-l4/core/properties.h\<close>: the string-to-string map of benchmark properties and its
  loader for property files. The map is a partial function; \<open>std::map::at\<close> on a missing key is
  \<open>std::out_of_range\<close>.
\<close>

type_synonym props = "string \<rightharpoonup> string"

definition GetProperty :: "props \<Rightarrow> string \<Rightarrow> string \<Rightarrow> string" where
  "GetProperty p key default_value = (case p key of None \<Rightarrow> default_value | Some v \<Rightarrow> v)"

definition prop_at :: "props \<Rightarrow> string \<Rightarrow> fault + string" where
  "prop_at p key = (case p key of None \<Rightarrow> Inl OutOfRange | Some v \<Rightarrow> Inr v)"

definition SetProperty :: "props \<Rightarrow> string \<Rightarrow> string \<Rightarrow> props" where
  "SetProperty p key v = p(key \<mapsto> v)"

text \<open>
  \<open>std::getline\<close>: the characters up to the next newline, the input after it, and whether the
  end of the file was met first.
\<close>

definition getline :: "string \<Rightarrow> string \<times> string \<times> bool" where
  "getline input =
     (let line = takeWhile (\<lambda>c. c \<noteq> CHR 0x0A) input
      in case dropWhile (\<lambda>c. c \<noteq> CHR 0x0A) input of
           [] \<Rightarrow> (line, [], True)
         | _ # rest \<Rightarrow> (line, rest, False))"

text \<open>
  One round of the loop of \<open>Load\<close>. Reading \<open>line[0]\<close> of an empty string gives the terminating
  NUL, which is not \<open>#\<close>.
\<close>

definition load_line :: "string \<Rightarrow> props \<Rightarrow> props" where
  "load_line line p =
     (if line \<noteq> [] \<and> hd line = CHR ''#'' then p
      else let key = takeWhile (\<lambda>c. c \<noteq> CHR ''='') line
           in case dropWhile (\<lambda>c. c \<noteq> CHR ''='') line of
                [] \<Rightarrow> p
              | _ # val \<Rightarrow> SetProperty p (Trim key) (Trim val))"

lemma getline_shorter: "getline input = (line, rest, False) \<Longrightarrow> length rest < length input"
proof -
  assume "getline input = (line, rest, False)"
  then obtain c where "dropWhile (\<lambda>c. c \<noteq> CHR 0x0A) input = c # rest"
    by (auto simp: getline_def Let_def split: list.splits)
  then have "length (c # rest) \<le> length input" by (metis length_dropWhile_le)
  then show ?thesis by simp
qed

function load_loop :: "string \<Rightarrow> props \<Rightarrow> props" where
  "load_loop input p =
     (case getline input of (line, rest, eof) \<Rightarrow>
        if eof then load_line line p else load_loop rest (load_line line p))"
  by pat_completeness auto
termination
  by (relation "measure (length \<circ> fst)") (auto dest: getline_shorter [OF sym])

declare load_loop.simps [simp del]

text \<open>\<open>Load\<close> on an open file with this content, or on a stream that is not open.\<close>

definition Load :: "string option \<Rightarrow> props \<Rightarrow> fault + props" where
  "Load input p =
     (case input of
        None \<Rightarrow> Inl (UtilsException ''File not open!'')
      | Some content \<Rightarrow> Inr (load_loop content p))"

section \<open>What loading a file does to the map\<close>

text \<open>The lines of a file, and the assignment a line makes.\<close>

fun split_lines :: "string \<Rightarrow> string list" where
  "split_lines [] = [[]]"
| "split_lines (c # cs) =
     (if c = CHR 0x0A then [] # split_lines cs
      else case split_lines cs of [] \<Rightarrow> [[c]] | l # ls \<Rightarrow> (c # l) # ls)"

definition assignment :: "string \<Rightarrow> (string \<times> string) option" where
  "assignment line =
     (if line \<noteq> [] \<and> hd line = CHR ''#'' \<or> CHR ''='' \<notin> set line then None
      else Some (Trim (takeWhile (\<lambda>c. c \<noteq> CHR ''='') line),
                 Trim (tl (dropWhile (\<lambda>c. c \<noteq> CHR ''='') line))))"

definition assignments :: "string \<Rightarrow> (string \<times> string) list" where
  "assignments content = List.map_filter assignment (split_lines content)"

lemma load_line_assignment:
  "load_line line p = (case assignment line of None \<Rightarrow> p | Some (k, v) \<Rightarrow> p(k \<mapsto> v))"
proof (cases "dropWhile (\<lambda>c. c \<noteq> CHR ''='') line")
  case Nil
  from dropWhile_not_found [OF Nil] show ?thesis
    by (simp add: load_line_def assignment_def Let_def)
next
  case (Cons c rest)
  from Cons have "line \<noteq> []" by auto
  with Cons dropWhile_found [OF Cons] show ?thesis
    by (simp add: load_line_def assignment_def SetProperty_def Let_def)
qed

lemma split_lines_nonempty [simp]: "split_lines s \<noteq> []"
  by (induction s) (auto split: list.splits)

lemma split_lines_no_newline: "CHR 0x0A \<notin> set s \<Longrightarrow> split_lines s = [s]"
  by (induction s) auto

lemma split_lines_append:
  "CHR 0x0A \<notin> set l \<Longrightarrow> split_lines (l @ CHR 0x0A # rest) = l # split_lines rest"
  by (induction l) auto

lemma split_lines_getline:
  "split_lines input =
     (case getline input of (line, rest, eof) \<Rightarrow> if eof then [line] else line # split_lines rest)"
proof (cases "dropWhile (\<lambda>c. c \<noteq> CHR 0x0A) input")
  case Nil
  from dropWhile_not_found [OF Nil] show ?thesis
    by (simp add: getline_def split_lines_no_newline)
next
  case (Cons c rest)
  let ?l = "takeWhile (\<lambda>c. c \<noteq> CHR 0x0A) input"
  from dropWhile_found [OF Cons] have "input = ?l @ CHR 0x0A # rest" by blast
  then have "split_lines input = ?l # split_lines rest"
    by (metis split_lines_append takeWhile_char_notin)
  with Cons show ?thesis by (simp add: getline_def Let_def)
qed

lemma load_loop_fold: "load_loop input p = fold load_line (split_lines input) p"
proof (induction input p rule: load_loop.induct)
  case (1 input p)
  obtain line rest eof where g: "getline input = (line, rest, eof)"
    by (metis prod_cases3)
  show ?case
  proof (cases eof)
    case True
    with g show ?thesis by (subst load_loop.simps, subst split_lines_getline) simp
  next
    case False
    with g "1.IH" [OF g [symmetric] refl False] show ?thesis
      by (subst load_loop.simps, subst split_lines_getline) simp
  qed
qed

lemma fold_load_line:
  "fold load_line ls p = p ++ map_of (rev (List.map_filter assignment ls))"
  by (induction ls arbitrary: p)
    (auto simp: load_line_assignment map_filter_simps split: option.splits)

lemma load_loop_assignments: "load_loop input p = p ++ map_of (rev (assignments input))"
  by (simp add: load_loop_fold fold_load_line assignments_def)

text \<open>Writing a map out as a property file.\<close>

definition render_line :: "string \<times> string \<Rightarrow> string" where
  "render_line kv = fst kv @ CHR ''='' # snd kv"

definition render :: "(string \<times> string) list \<Rightarrow> string" where
  "render kvs = concat (map (\<lambda>kv. render_line kv @ [CHR 0x0A]) kvs)"

definition plain_entry :: "string \<times> string \<Rightarrow> bool" where
  "plain_entry kv \<longleftrightarrow>
     trimmed (fst kv) \<and> trimmed (snd kv) \<and>
     CHR ''='' \<notin> set (fst kv) \<and> (fst kv \<noteq> [] \<longrightarrow> hd (fst kv) \<noteq> CHR ''#'') \<and>
     CHR 0x0A \<notin> set (fst kv) \<and> CHR 0x0A \<notin> set (snd kv)"

lemma assignment_render_line: "plain_entry kv \<Longrightarrow> assignment (render_line kv) = Some kv"
proof -
  assume p: "plain_entry kv"
  let ?k = "fst kv" and ?v = "snd kv"
  have "CHR ''='' \<notin> set ?k" using p by (simp add: plain_entry_def)
  moreover have "hd (?k @ CHR ''='' # ?v) \<noteq> CHR ''#''"
    using p by (cases ?k) (auto simp: plain_entry_def)
  ultimately show ?thesis
    using p by (simp add: assignment_def render_line_def Trim_id plain_entry_def)
qed

lemma assignments_render: "list_all plain_entry kvs \<Longrightarrow> assignments (render kvs) = kvs"
proof (induction kvs)
  case Nil
  show ?case by (simp add: assignments_def render_def assignment_def map_filter_simps)
next
  case (Cons kv kvs)
  then have "CHR 0x0A \<notin> set (render_line kv)"
    by (auto simp: render_line_def plain_entry_def)
  then have "split_lines (render (kv # kvs)) = render_line kv # split_lines (render kvs)"
    by (simp add: render_def split_lines_append)
  with Cons show ?case
    by (simp add: assignments_def map_filter_simps assignment_render_line)
qed

section \<open>What loading promises\<close>

text \<open>
  C38: Loading a property file makes exactly the assignments of its lines, the last one of a key
  winning and also over what the map held; comment lines and lines without an equals sign make none,
  keys and values are trimmed, and no other key changes. A stream that is not open is an exception.
\<close>

theorem Load_assignments:
  "Load (Some content) p = Inr (p ++ map_of (rev (assignments content))) \<and>
   Load None p = Inl (UtilsException ''File not open!'')"
  by (simp add: Load_def load_loop_assignments)

text \<open>
  A map written out with one \<open>key=value\<close> line per entry is read back as it was, for trimmed
  entries without a newline whose keys hold no equals sign and start no comment.
\<close>

theorem Load_render:
  assumes "list_all plain_entry kvs" and "distinct (map fst kvs)"
  shows "Load (Some (render kvs)) Map.empty = Inr (map_of kvs)"
proof -
  have "map_of (rev kvs) = map_of kvs"
    using assms(2) by (intro map_of_inject_set [THEN iffD2]) (simp_all add: rev_map [symmetric])
  then show ?thesis using assms(1) by (simp add: Load_def load_loop_assignments assignments_render)
qed

theorem Load_render_witness:
  "Load (Some (render [(''recordcount'', ''1000''), (''table'', ''a b'')])) Map.empty =
     Inr (map_of [(''recordcount'', ''1000''), (''table'', ''a b'')])"
  by (rule Load_render) (simp_all add: plain_entry_def trimmed_def is_space_def char_code_def)

end
