(* ===== verification/Generators.thy ===== *)
theory Generators
  imports Complex_Main CoreUtils
begin

text \<open>
  The number generators of \<open>server/ycsbc-l4/core/\<close>: constant, counter, uniform, discrete, Zipfian,
  scrambled Zipfian and skewed-latest. The locale \<open>generator\<close> is the abstract class
  \<open>Generator<Value>\<close> with its law that \<open>Last\<close> repeats what \<open>Next\<close> returned.

  Machine doubles are a parameter: \<open>'d\<close> is their type and a record of type \<open>'d fp\<close> their operations,
  so that no theorem assumes rounding away. Randomness is a parameter too: \<open>env\<close> holds the streams
  of numbers that \<open>RandomDouble\<close> and \<open>rand()\<close> are going to return, and an engine is the stream of
  raw numbers a uniform distribution is fed with.
\<close>

section \<open>Doubles and random sources\<close>

record 'd fp =
  f_lit :: "rat \<Rightarrow> 'd"
  f_add :: "'d \<Rightarrow> 'd \<Rightarrow> 'd"
  f_sub :: "'d \<Rightarrow> 'd \<Rightarrow> 'd"
  f_mul :: "'d \<Rightarrow> 'd \<Rightarrow> 'd"
  f_div :: "'d \<Rightarrow> 'd \<Rightarrow> 'd"
  f_pow :: "'d \<Rightarrow> 'd \<Rightarrow> 'd"
  f_less :: "'d \<Rightarrow> 'd \<Rightarrow> bool"
  f_of_u64 :: "u64 \<Rightarrow> 'd"
  f_to_u64 :: "'d \<Rightarrow> u64"
  f_of_int :: "int \<Rightarrow> 'd"
  f_to_int :: "'d \<Rightarrow> int"
  f_stod :: "string \<Rightarrow> fault + 'd"

record 'd env =
  doubles :: "'d stream"
  rands :: "nat stream"

definition RandomDouble :: "('d env, 'd) op" where
  "RandomDouble e = (Inr (shd (doubles e)), e\<lparr>doubles := stl (doubles e)\<rparr>)"

definition NextPrintChar :: "('d env, char) op" where
  "NextPrintChar e = (Inr (RandomPrintChar (shd (rands e))), e\<lparr>rands := stl (rands e)\<rparr>)"

lemma RandomDouble_result: "\<exists>x e'. RandomDouble e = (Inr x, e')"
  by (simp add: RandomDouble_def)

section \<open>Counter\<close>

definition counter_Next :: "u64 \<Rightarrow> u64 \<times> u64" where
  "counter_Next c = (c, c + 1)"

definition counter_Last :: "u64 \<Rightarrow> u64" where
  "counter_Last c = c - 1"

definition counter_Set :: "u64 \<Rightarrow> u64 \<Rightarrow> u64" where
  "counter_Set start c = start"

section \<open>Uniform\<close>

text \<open>
  \<open>std::uniform_int_distribution\<close> on \<open>[min, max]\<close>, fed with a raw number: any value of the interval
  and no other can come out. The interval of all numbers has \<open>max - min + 1 = 0\<close>.
\<close>

definition uniform_dist :: "u64 \<Rightarrow> u64 \<Rightarrow> u64 \<Rightarrow> u64" where
  "uniform_dist mn mx raw =
     (let width = mx - mn + 1 in if width = 0 then raw else mn + raw mod width)"

record uniform_gen =
  u_engine :: "u64 stream"
  u_min :: u64
  u_max :: u64
  u_last :: u64

definition uniform_Next :: "uniform_gen \<Rightarrow> u64 \<times> uniform_gen" where
  "uniform_Next g =
     (let v = uniform_dist (u_min g) (u_max g) (shd (u_engine g))
      in (v, g\<lparr>u_engine := stl (u_engine g), u_last := v\<rparr>))"

definition uniform_new :: "u64 stream \<Rightarrow> u64 \<Rightarrow> u64 \<Rightarrow> uniform_gen" where
  "uniform_new engine mn mx =
     snd (uniform_Next \<lparr>u_engine = engine, u_min = mn, u_max = mx, u_last = 0\<rparr>)"

lemma uniform_dist_range:
  assumes "mn \<le> mx"
  shows "mn \<le> uniform_dist mn mx raw \<and> uniform_dist mn mx raw \<le> mx"
proof (cases "mx - mn + 1 = 0")
  case True
  then have "mx - mn = - 1" by (metis add_eq_0_iff2)
  then have "unat mx - unat mn = 2 ^ 64 - 1"
    using assms by (simp add: unat_sub [symmetric] unsigned_minus_1_eq_mask mask_nat_def)
  then have "unat mn = 0" "unat mx = 2 ^ 64 - 1"
    using unsigned_less [of mx, where 'a = nat] by simp_all
  then show ?thesis using unsigned_less [of raw, where 'a = nat]
    by (simp add: uniform_dist_def True word_le_nat_alt)
next
  case False
  let ?w = "mx - mn + 1"
  have w: "unat ?w = Suc (unat mx - unat mn)"
    using False assms by (metis add.commute unatSuc unat_sub)
  have "unat (raw mod ?w) < unat ?w" using False
    by (simp only: unat_mod) (simp add: w)
  then have r: "unat (raw mod ?w) \<le> unat mx - unat mn" by (simp add: w)
  have le: "unat mn \<le> unat mx" using assms by (simp add: word_le_nat_alt)
  then have "unat mn + unat (raw mod ?w) < 2 ^ 64"
    using r unsigned_less [of mx, where 'a = nat] by simp
  then have "unat (mn + raw mod ?w) = unat mn + unat (raw mod ?w)"
    by (simp add: unat_word_ariths)
  with r le False show ?thesis by (simp add: uniform_dist_def word_le_nat_alt)
qed

section \<open>Discrete\<close>

record ('v, 'd) discrete =
  d_values :: "('v \<times> 'd) list"
  d_sum :: 'd
  d_last :: "'v option"

definition discrete_new :: "'d fp \<Rightarrow> ('v, 'd) discrete" where
  "discrete_new fp = \<lparr>d_values = [], d_sum = f_lit fp 0, d_last = None\<rparr>"

definition AddValue :: "'d fp \<Rightarrow> 'v \<Rightarrow> 'd \<Rightarrow> ('v, 'd) discrete \<Rightarrow> ('v, 'd) discrete" where
  "AddValue fp v weight g =
     (let g1 = (if d_values g = [] then g\<lparr>d_last := Some v\<rparr> else g)
      in g1\<lparr>d_values := d_values g1 @ [(v, weight)], d_sum := f_add fp (d_sum g1) weight\<rparr>)"

text \<open>The loop of \<open>Next\<close> over the values, \<open>None\<close> when it runs off the end.\<close>

fun discrete_pick :: "'d fp \<Rightarrow> 'd \<Rightarrow> 'd \<Rightarrow> ('v \<times> 'd) list \<Rightarrow> 'v option" where
  "discrete_pick fp wsum chooser [] = None"
| "discrete_pick fp wsum chooser (p # ps) =
     (if f_less fp chooser (f_div fp (snd p) wsum) then Some (fst p)
      else discrete_pick fp wsum (f_sub fp chooser (f_div fp (snd p) wsum)) ps)"

definition discrete_Next :: "'d fp \<Rightarrow> (('v, 'd) discrete \<times> 'd env, 'v) op" where
  "discrete_Next fp =
     bindM (onM snd (\<lambda>e (g, _). (g, e)) RandomDouble) (\<lambda>chooser.
     bindM (getM fst) (\<lambda>g.
     case discrete_pick fp (d_sum g) chooser (d_values g) of
       Some v \<Rightarrow> thenM (modifyM (\<lambda>(g, e). (g\<lparr>d_last := Some v\<rparr>, e))) (retM v)
     | None \<Rightarrow> throwM AssertFailed))"

lemma discrete_Next_run:
  "discrete_Next fp (g, e) =
     (let e' = e\<lparr>doubles := stl (doubles e)\<rparr>
      in case discrete_pick fp (d_sum g) (shd (doubles e)) (d_values g) of
           Some v \<Rightarrow> (Inr v, (g\<lparr>d_last := Some v\<rparr>, e'))
         | None \<Rightarrow> (Inl AssertFailed, (g, e')))"
  by (simp add: discrete_Next_def bindM_def thenM_def onM_def RandomDouble_def op_simps Let_def
      split: option.split)

lemma discrete_pick_mem: "discrete_pick fp s c ps = Some v \<Longrightarrow> v \<in> fst ` set ps"
  by (induction ps arbitrary: c) (auto split: if_splits)

text \<open>
  Arithmetic without rounding, to say what the weights are meant to do. Nothing else rests on it.
\<close>

definition exact_fp :: "'d::linordered_field fp \<Rightarrow> bool" where
  "exact_fp fp \<longleftrightarrow> f_lit fp 0 = 0 \<and> f_add fp = (+) \<and> f_sub fp = (-) \<and> f_div fp = (/) \<and> f_less fp = (<)"

definition weight_sum :: "('v \<times> 'd) list \<Rightarrow> 'd::linordered_field" where
  "weight_sum ps = (\<Sum>p \<leftarrow> ps. snd p)"

definition discrete_of :: "'d fp \<Rightarrow> ('v \<times> 'd) list \<Rightarrow> ('v, 'd) discrete" where
  "discrete_of fp ps = fold (\<lambda>(v, w). AddValue fp v w) ps (discrete_new fp)"

lemma weight_sum_simps [simp]:
  "weight_sum [] = 0" "weight_sum (p # ps) = snd p + weight_sum ps"
  by (simp_all add: weight_sum_def)

lemma weight_sum_take:
  "\<forall>p \<in> set ps. 0 < snd p \<Longrightarrow> 0 \<le> weight_sum (take n ps) \<and> weight_sum (take n ps) \<le> weight_sum ps"
  by (induction ps arbitrary: n) (force simp: take_Cons' intro: add_nonneg_nonneg order_trans)+

lemma discrete_of_state:
  assumes "exact_fp fp"
  shows "d_values (discrete_of fp ps) = ps \<and> d_sum (discrete_of fp ps) = weight_sum ps"
proof -
  have "d_values (fold (\<lambda>(v, w). AddValue fp v w) ps g) = d_values g @ ps \<and>
      d_sum (fold (\<lambda>(v, w). AddValue fp v w) ps g) = d_sum g + weight_sum ps" for g
    using assms by (induction ps arbitrary: g) (auto simp: AddValue_def Let_def exact_fp_def ac_simps)
  then show ?thesis using assms by (simp add: discrete_of_def discrete_new_def exact_fp_def)
qed

lemma discrete_pick_exact:
  assumes "exact_fp fp" and "0 < total_weight" and "0 \<le> u"
  shows "case discrete_pick fp total_weight u ps of
      None \<Rightarrow> weight_sum ps / total_weight \<le> u
    | Some v \<Rightarrow> \<exists>k < length ps. v = fst (ps ! k) \<and> weight_sum (take k ps) / total_weight \<le> u \<and>
        u < weight_sum (take (Suc k) ps) / total_weight"
  using assms(3)
proof (induction ps arbitrary: u)
  case (Cons p ps)
  let ?q = "snd p / total_weight"
  have ops: "f_less fp = (<)" "f_sub fp = (-)" "f_div fp = (/)" using assms(1) by (simp_all add: exact_fp_def)
  show ?case
  proof (cases "u < ?q")
    case True
    then show ?thesis using Cons.prems by (auto simp: ops intro!: exI [of _ 0])
  next
    case False
    with Cons.IH [of "u - ?q"] show ?thesis
      by (auto simp: ops add_divide_distrib algebra_simps split: option.splits)
  qed
qed simp


section \<open>Zipfian\<close>

record 'd zipfian =
  z_num_items :: u64
  z_base :: u64
  z_theta :: 'd
  z_zeta_n :: 'd
  z_eta :: 'd
  z_alpha :: 'd
  z_zeta_2 :: 'd
  z_n_for_zeta :: u64
  z_last :: u64

definition kMaxNumItems :: u64 where
  "kMaxNumItems = drop_bit 24 (- 1)"

definition zipf_const :: "'d fp \<Rightarrow> 'd" where
  "zipf_const fp = f_lit fp (99 / 100)"

text \<open>One addend of the zeta sum, and the sum from \<open>last + 1\<close> to \<open>cur\<close> on top of \<open>zeta\<close>.\<close>

definition zeta_term :: "'d fp \<Rightarrow> 'd \<Rightarrow> nat \<Rightarrow> 'd" where
  "zeta_term fp theta i = f_div fp (f_lit fp 1) (f_pow fp (f_of_u64 fp (word_of_nat i)) theta)"

definition Zeta :: "'d fp \<Rightarrow> u64 \<Rightarrow> u64 \<Rightarrow> 'd \<Rightarrow> 'd \<Rightarrow> 'd" where
  "Zeta fp last_num cur_num theta last_zeta =
     foldl (\<lambda>zeta i. f_add fp zeta (zeta_term fp theta i)) last_zeta
       [unat last_num + 1 ..< unat cur_num + 1]"

definition Zeta0 :: "'d fp \<Rightarrow> u64 \<Rightarrow> 'd \<Rightarrow> 'd" where
  "Zeta0 fp num theta = Zeta fp 0 num theta (f_lit fp 0)"

definition RaiseZeta :: "'d fp \<Rightarrow> u64 \<Rightarrow> ('d zipfian, unit) op" where
  "RaiseZeta fp num =
     bindM (getM (\<lambda>z. z)) (\<lambda>z.
       if num < z_n_for_zeta z then throwM AssertFailed
       else modifyM (\<lambda>z. z\<lparr>z_zeta_n := Zeta fp (z_n_for_zeta z) num (z_theta z) (z_zeta_n z),
                            z_n_for_zeta := num\<rparr>))"

definition Eta :: "'d fp \<Rightarrow> 'd zipfian \<Rightarrow> 'd" where
  "Eta fp z =
     f_div fp
       (f_sub fp (f_lit fp 1)
          (f_pow fp (f_div fp (f_lit fp 2) (f_of_u64 fp (z_num_items z))) (f_sub fp (f_lit fp 1) (z_theta z))))
       (f_sub fp (f_lit fp 1) (f_div fp (z_zeta_2 z) (z_zeta_n z)))"

definition zipf_num_ok :: "u64 \<Rightarrow> bool" where
  "zipf_num_ok num \<longleftrightarrow> 2 \<le> num \<and> num < kMaxNumItems"

text \<open>The value \<open>Next(num)\<close> computes from the random double \<open>u\<close>.\<close>

definition zipf_value :: "'d fp \<Rightarrow> 'd zipfian \<Rightarrow> u64 \<Rightarrow> 'd \<Rightarrow> u64" where
  "zipf_value fp z num u =
     (let uz = f_mul fp u (z_zeta_n z)
      in if f_less fp uz (f_lit fp 1) then 0
         else if f_less fp uz (f_add fp (f_lit fp 1) (f_pow fp (f_lit fp (1 / 2)) (z_theta z))) then 1
         else z_base z +
           f_to_u64 fp (f_mul fp (f_of_u64 fp num)
             (f_pow fp (f_add fp (f_sub fp (f_mul fp (z_eta z) u) (z_eta z)) (f_lit fp 1)) (z_alpha z))))"

definition zipf_Next_num :: "'d fp \<Rightarrow> u64 \<Rightarrow> ('d zipfian \<times> 'd env, u64) op" where
  "zipf_Next_num fp num =
     (if \<not> zipf_num_ok num then throwM AssertFailed
      else bindM (getM fst) (\<lambda>z.
        thenM (onM fst (\<lambda>z (_, e). (z, e))
          (if z_n_for_zeta z < num
           then thenM (RaiseZeta fp num) (modifyM (\<lambda>z. z\<lparr>z_eta := Eta fp z\<rparr>))
           else retM ()))
        (bindM (onM snd (\<lambda>e (z, _). (z, e)) RandomDouble) (\<lambda>u.
         bindM (getM (\<lambda>(z, _). zipf_value fp z num u)) (\<lambda>v.
         thenM (modifyM (\<lambda>(z, e). (z\<lparr>z_last := v\<rparr>, e))) (retM v))))))"

definition zipf_Next :: "'d fp \<Rightarrow> ('d zipfian \<times> 'd env, u64) op" where
  "zipf_Next fp = bindM (getM (\<lambda>(z, _). z_num_items z)) (zipf_Next_num fp)"

text \<open>The constructor: \<open>zeta_n\<close> and \<open>eta\<close> for the initial number of items, then one \<open>Next\<close>.\<close>

definition zipf_raw :: "'d fp \<Rightarrow> u64 \<Rightarrow> u64 \<Rightarrow> 'd \<Rightarrow> 'd zipfian" where
  "zipf_raw fp mn mx theta =
     \<lparr>z_num_items = mx - mn + 1, z_base = mn, z_theta = theta, z_zeta_n = f_lit fp 0,
      z_eta = f_lit fp 0, z_alpha = f_div fp (f_lit fp 1) (f_sub fp (f_lit fp 1) theta),
      z_zeta_2 = Zeta0 fp 2 theta, z_n_for_zeta = 0, z_last = 0\<rparr>"

definition zipf_new :: "'d fp \<Rightarrow> u64 \<Rightarrow> u64 \<Rightarrow> 'd \<Rightarrow> ('d env, 'd zipfian) op" where
  "zipf_new fp mn mx theta e =
     (let n = mx - mn + 1
      in if \<not> zipf_num_ok n then throwM AssertFailed e
         else case thenM (onM fst (\<lambda>z (_, e). (z, e))
                (thenM (RaiseZeta fp n) (modifyM (\<lambda>z. z\<lparr>z_eta := Eta fp z\<rparr>)))) (zipf_Next fp)
                (zipf_raw fp mn mx theta, e) of
              (Inl err, (_, e')) \<Rightarrow> (Inl err, e')
            | (Inr _, (z, e')) \<Rightarrow> (Inr z, e'))"

text \<open>
  The incremental sum is the sum from scratch, whatever the rounding: both add the same terms in the
  same order.
\<close>

lemma Zeta_split:
  assumes "unat a \<le> unat b"
  shows "Zeta fp a b theta (Zeta0 fp a theta) = Zeta0 fp b theta"
proof -
  have "[1..<unat b + 1] = [1..<unat a + 1] @ [unat a + 1..<unat b + 1]"
    using assms by (metis add.commute le_add1 le_add_diff_inverse2 upt_add_eq_append add_le_cancel_right)
  then show ?thesis by (simp add: Zeta_def Zeta0_def)
qed

text \<open>The state of a constructed generator: \<open>zeta_n\<close> is the sum up to \<open>n_for_zeta\<close>.\<close>

definition zipf_inv :: "'d fp \<Rightarrow> 'd zipfian \<Rightarrow> bool" where
  "zipf_inv fp z \<longleftrightarrow>
     z_zeta_n z = Zeta0 fp (z_n_for_zeta z) (z_theta z) \<and>
     z_zeta_2 z = Zeta0 fp 2 (z_theta z) \<and>
     z_eta z = Eta fp z \<and>
     z_num_items z \<le> z_n_for_zeta z"

definition zipf_raised :: "'d fp \<Rightarrow> u64 \<Rightarrow> 'd zipfian \<Rightarrow> 'd zipfian" where
  "zipf_raised fp num z =
     (if z_n_for_zeta z < num
      then let z1 = z\<lparr>z_zeta_n := Zeta fp (z_n_for_zeta z) num (z_theta z) (z_zeta_n z), z_n_for_zeta := num\<rparr>
           in z1\<lparr>z_eta := Eta fp z1\<rparr>
      else z)"

lemma zipf_Next_num_run:
  "zipf_Next_num fp num (z, e) =
     (if \<not> zipf_num_ok num then (Inl AssertFailed, (z, e))
      else let z' = zipf_raised fp num z; v = zipf_value fp z' num (shd (doubles e))
           in (Inr v, (z'\<lparr>z_last := v\<rparr>, e\<lparr>doubles := stl (doubles e)\<rparr>)))"
  by (auto simp: zipf_Next_num_def zipf_raised_def bindM_def thenM_def onM_def RandomDouble_def
      RaiseZeta_def op_simps Let_def not_less)

lemma Eta_cong:
  "z_num_items z' = z_num_items z \<Longrightarrow> z_theta z' = z_theta z \<Longrightarrow> z_zeta_2 z' = z_zeta_2 z \<Longrightarrow>
     z_zeta_n z' = z_zeta_n z \<Longrightarrow> Eta fp z' = Eta fp z"
  by (simp add: Eta_def)

lemma zipf_inv_last [simp]: "zipf_inv fp (z\<lparr>z_last := v\<rparr>) = zipf_inv fp z"
  by (simp add: zipf_inv_def Eta_def)

lemma zipf_raised_inv: "zipf_inv fp z \<Longrightarrow> zipf_inv fp (zipf_raised fp num z)"
  by (auto simp: zipf_inv_def zipf_raised_def Let_def Eta_def Zeta_split word_less_nat_alt
      word_le_nat_alt)

lemma zipf_raised_simps [simp]:
  "z_num_items (zipf_raised fp num z) = z_num_items z"
  "z_base (zipf_raised fp num z) = z_base z"
  "z_theta (zipf_raised fp num z) = z_theta z"
  "z_n_for_zeta (zipf_raised fp num z) = max num (z_n_for_zeta z)"
  by (auto simp: zipf_raised_def Let_def max_def)

lemma zipf_Next_num_inv:
  "zipf_inv fp z \<Longrightarrow> zipf_Next_num fp num (z, e) = (r, (z', e')) \<Longrightarrow>
     zipf_inv fp z' \<and> z_num_items z' = z_num_items z \<and> z_base z' = z_base z"
  by (auto simp: zipf_Next_num_run Let_def zipf_raised_inv split: if_splits)

lemma zipf_new_run:
  "zipf_new fp mn mx theta e =
     (if \<not> zipf_num_ok (mx - mn + 1) then (Inl AssertFailed, e)
      else let z = zipf_raised fp (mx - mn + 1) (zipf_raw fp mn mx theta);
               v = zipf_value fp z (mx - mn + 1) (shd (doubles e))
           in (Inr (z\<lparr>z_last := v\<rparr>), e\<lparr>doubles := stl (doubles e)\<rparr>))"
proof -
  let ?n = "mx - mn + 1" and ?z = "zipf_raw fp mn mx theta"
  have raise: "thenM (RaiseZeta fp ?n) (modifyM (\<lambda>z. z\<lparr>z_eta := Eta fp z\<rparr>)) ?z =
      (Inr (), zipf_raised fp ?n ?z)" if "zipf_num_ok ?n"
  proof -
    from that have "0 < ?n" by (auto simp: zipf_num_ok_def word_less_nat_alt word_le_nat_alt)
    then show ?thesis
      by (simp add: zipf_raised_def RaiseZeta_def thenM_def bindM_def op_simps Let_def zipf_raw_def)
  qed
  have "max ?n (z_n_for_zeta ?z) = ?n" by (simp add: zipf_raw_def max_def)
  then have "zipf_raised fp ?n (zipf_raised fp ?n ?z) = zipf_raised fp ?n ?z"
    by (subst (1) zipf_raised_def) simp
  moreover have "z_num_items ?z = ?n" by (simp add: zipf_raw_def)
  ultimately have nxt: "zipf_Next fp (zipf_raised fp ?n ?z, e) =
      (let z = zipf_raised fp ?n ?z; v = zipf_value fp z ?n (shd (doubles e))
       in (Inr v, (z\<lparr>z_last := v\<rparr>, e\<lparr>doubles := stl (doubles e)\<rparr>)))" if "zipf_num_ok ?n"
    using that by (simp add: zipf_Next_def bindM_def getM_def zipf_Next_num_run)
  have "thenM (onM fst (\<lambda>z (_, e). (z, e)) (thenM (RaiseZeta fp ?n)
      (modifyM (\<lambda>z. z\<lparr>z_eta := Eta fp z\<rparr>)))) (zipf_Next fp) (?z, e) =
      zipf_Next fp (zipf_raised fp ?n ?z, e)" if "zipf_num_ok ?n"
    by (rule thenM_Inr) (simp only: onM_def fst_conv raise [OF that] prod.case)
  with nxt show ?thesis by (simp add: zipf_new_def Let_def throwM_def)
qed

lemma zipf_new_inv:
  "zipf_new fp mn mx theta e = (Inr z, e') \<Longrightarrow>
     zipf_inv fp z \<and> z_num_items z = mx - mn + 1 \<and> z_base z = mn"
proof -
  assume r: "zipf_new fp mn mx theta e = (Inr z, e')"
  let ?n = "mx - mn + 1"
  have ok: "zipf_num_ok ?n" using r by (auto simp: zipf_new_run split: if_splits)
  have n: "0 < ?n" using ok by (auto simp: zipf_num_ok_def word_less_nat_alt word_le_nat_alt)
  have "zipf_inv fp (zipf_raised fp ?n (zipf_raw fp mn mx theta))"
    using n by (simp add: zipf_inv_def zipf_raised_def zipf_raw_def Let_def Eta_def Zeta0_def)
  moreover have "z_num_items (zipf_raw fp mn mx theta) = ?n" "z_base (zipf_raw fp mn mx theta) = mn"
    by (simp_all add: zipf_raw_def)
  ultimately show ?thesis using r ok by (auto simp: zipf_new_run Let_def)
qed

section \<open>Scrambled Zipfian and skewed latest\<close>

definition Scramble :: "u64 \<Rightarrow> u64 \<Rightarrow> u64 \<Rightarrow> u64" where
  "Scramble base num_items v = base + FNVHash64 v mod num_items"

text \<open>\<open>SkewedLatestGenerator::Next\<close>, with the value of the counter it refers to.\<close>

definition skewed_Next :: "'d fp \<Rightarrow> u64 \<Rightarrow> ('d zipfian \<times> 'd env, u64) op" where
  "skewed_Next fp basis =
     (let max = counter_Last basis
      in bindM (zipf_Next_num fp max) (\<lambda>v. retM (max - v)))"

lemma Scramble_range:
  assumes "0 < n" and "unat base + unat n \<le> 2 ^ 64"
  shows "base \<le> Scramble base n v \<and> unat (Scramble base n v) < unat base + unat n"
proof -
  have "unat (FNVHash64 v mod n) < unat n"
    using assms(1) by (simp add: unat_mod word_less_nat_alt)
  then have "unat (Scramble base n v) = unat base + unat (FNVHash64 v mod n)"
    using assms(2) by (simp add: Scramble_def unat_word_ariths)
  with \<open>unat (FNVHash64 v mod n) < unat n\<close> show ?thesis by (simp add: word_le_nat_alt)
qed

section \<open>\<open>Generator<uint64_t>\<close>\<close>

datatype 'd generator =
    ConstGenerator u64
  | CounterGenerator u64
  | UniformGenerator uniform_gen
  | ZipfianGenerator "'d zipfian"
  | ScrambledZipfianGenerator u64 u64 "'d zipfian"
  | SkewedLatestGenerator "'d zipfian" u64

text \<open>The virtual call \<open>Next()\<close>; \<open>basis\<close> is the counter a skewed generator refers to.\<close>

definition gen_Next :: "'d fp \<Rightarrow> u64 \<Rightarrow> ('d generator \<times> 'd env, u64) op" where
  "gen_Next fp basis s =
     (case s of (g, e) \<Rightarrow> case g of
        ConstGenerator c \<Rightarrow> (Inr c, (g, e))
      | CounterGenerator c \<Rightarrow> (case counter_Next c of (v, c') \<Rightarrow> (Inr v, (CounterGenerator c', e)))
      | UniformGenerator u \<Rightarrow> (case uniform_Next u of (v, u') \<Rightarrow> (Inr v, (UniformGenerator u', e)))
      | ZipfianGenerator z \<Rightarrow>
          (case zipf_Next fp (z, e) of (r, (z', e')) \<Rightarrow> (r, (ZipfianGenerator z', e')))
      | ScrambledZipfianGenerator base n z \<Rightarrow>
          (case zipf_Next fp (z, e) of
             (Inl err, (z', e')) \<Rightarrow> (Inl err, (ScrambledZipfianGenerator base n z', e'))
           | (Inr v, (z', e')) \<Rightarrow> (Inr (Scramble base n v), (ScrambledZipfianGenerator base n z', e')))
      | SkewedLatestGenerator z l \<Rightarrow>
          (case skewed_Next fp basis (z, e) of
             (Inl err, (z', e')) \<Rightarrow> (Inl err, (SkewedLatestGenerator z' l, e'))
           | (Inr v, (z', e')) \<Rightarrow> (Inr v, (SkewedLatestGenerator z' v, e'))))"

definition gen_Last :: "'d generator \<Rightarrow> u64" where
  "gen_Last g =
     (case g of
        ConstGenerator c \<Rightarrow> c
      | CounterGenerator c \<Rightarrow> counter_Last c
      | UniformGenerator u \<Rightarrow> u_last u
      | ZipfianGenerator z \<Rightarrow> z_last z
      | ScrambledZipfianGenerator base n z \<Rightarrow> Scramble base n (z_last z)
      | SkewedLatestGenerator z l \<Rightarrow> l)"

text \<open>The constructors that compute; the others are the datatype's own.\<close>

definition new_Const :: "int \<Rightarrow> 'd generator" where
  "new_Const constant = ConstGenerator (word_of_int constant)"

definition new_Uniform :: "u64 stream \<Rightarrow> u64 \<Rightarrow> u64 \<Rightarrow> 'd generator" where
  "new_Uniform mt mn mx = UniformGenerator (uniform_new mt mn mx)"

definition new_Zipfian :: "'d fp \<Rightarrow> u64 \<Rightarrow> u64 \<Rightarrow> ('d env, 'd generator) op" where
  "new_Zipfian fp mn mx = bindM (zipf_new fp mn mx (zipf_const fp)) (\<lambda>z. retM (ZipfianGenerator z))"

definition new_Scrambled :: "'d fp \<Rightarrow> u64 \<Rightarrow> ('d env, 'd generator) op" where
  "new_Scrambled fp num_items =
     (let mn = 0; mx = num_items - 1
      in bindM (zipf_new fp mn mx (zipf_const fp))
           (\<lambda>z. retM (ScrambledZipfianGenerator mn (mx - mn + 1) z)))"

definition new_Skewed :: "'d fp \<Rightarrow> u64 \<Rightarrow> ('d env, 'd generator) op" where
  "new_Skewed fp basis =
     bindM (zipf_new fp 0 (counter_Last basis - 1) (zipf_const fp)) (\<lambda>z e.
       case gen_Next fp basis (SkewedLatestGenerator z 0, e) of
         (Inl err, (g, e')) \<Rightarrow> (Inl err, e')
       | (Inr _, (g, e')) \<Rightarrow> (Inr g, e'))"

section \<open>The contract of a generator\<close>

text \<open>A run of \<open>n\<close> draws, in order; it ends early with the fault of a draw that fails.\<close>

primrec draw_list :: "('s, u64) op \<Rightarrow> nat \<Rightarrow> ('s, u64 list) op" where
  "draw_list nxt 0 = retM []"
| "draw_list nxt (Suc n) = bindM nxt (\<lambda>v. bindM (draw_list nxt n) (\<lambda>vs. retM (v # vs)))"

text \<open>Drawing until a value is accepted, for at most \<open>fuel\<close> draws.\<close>

primrec draw_until :: "('s, u64) op \<Rightarrow> (u64 \<Rightarrow> bool) \<Rightarrow> nat \<Rightarrow> ('s, u64) op" where
  "draw_until nxt p 0 = throwM OutOfFuel"
| "draw_until nxt p (Suc fuel) = bindM nxt (\<lambda>v. if p v then retM v else draw_until nxt p fuel)"

lemma draw_until_accepts: "draw_until nxt p fuel s = (Inr v, t) \<Longrightarrow> p v"
  by (induction fuel arbitrary: s)
    (auto simp: throwM_def bindM_result_Inr retM_def split: if_splits)

lemma draw_until_mono:
  "draw_until nxt p fuel s = (Inr v, t) \<Longrightarrow> fuel \<le> fuel' \<Longrightarrow> draw_until nxt p fuel' s = (Inr v, t)"
proof (induction fuel arbitrary: s fuel')
  case 0
  then show ?case by (simp add: throwM_def)
next
  case (Suc fuel)
  then obtain m where "fuel' = Suc m" "fuel \<le> m" by (metis Suc_le_D Suc_le_mono)
  with Suc show ?case by (auto simp: bindM_result_Inr split: if_splits)
qed

text \<open>
  If one of the next values is acceptable, so many draws are enough fuel.
\<close>

lemma draw_until_enough:
  assumes "draw_list nxt n s = (Inr vs, t)" and "\<exists>v \<in> set vs. p v"
  shows "\<exists>v u. draw_until nxt p n s = (Inr v, u)"
  using assms
proof (induction n arbitrary: s vs)
  case 0
  then show ?case by (simp add: retM_def)
next
  case (Suc n)
  then obtain v u ws where v: "nxt s = (Inr v, u)" "draw_list nxt n u = (Inr ws, t)" "vs = v # ws"
    by (auto simp: bindM_result_Inr retM_def)
  show ?case
  proof (cases "p v")
    case True
    with v show ?thesis by (simp add: bindM_Inr retM_def)
  next
    case False
    with Suc v show ?thesis by (simp add: bindM_Inr)
  qed
qed

locale generator =
  fixes nxt :: "('s, u64) op"
    and lst :: "'s \<Rightarrow> u64"
  assumes last_law: "nxt s = (Inr v, t) \<Longrightarrow> lst t = v"
begin

lemma last_of_draws: "draw_list nxt n s = (Inr vs, t) \<Longrightarrow> vs \<noteq> [] \<Longrightarrow> lst t = last vs"
proof (induction n arbitrary: s vs)
  case (Suc n)
  then obtain v u ws where v: "nxt s = (Inr v, u)" "draw_list nxt n u = (Inr ws, t)" "vs = v # ws"
    by (auto simp: bindM_result_Inr retM_def)
  show ?case
  proof (cases "ws = []")
    case True
    with v have "n = 0" by (cases n) (auto simp: bindM_result_Inr retM_def)
    with v True show ?thesis by (simp add: retM_def last_law)
  next
    case False
    with Suc.IH [OF v(2)] v show ?thesis by simp
  qed
qed (simp add: retM_def)

end

text \<open>A generator that never fails and stays within fixed bounds.\<close>

locale bounded_generator = generator +
  fixes ok :: "'a \<Rightarrow> bool" and lo :: "'a \<Rightarrow> u64" and hi :: "'a \<Rightarrow> u64"
  assumes total: "ok s \<Longrightarrow> \<exists>v t. nxt s = (Inr v, t)"
    and ok_step: "ok s \<Longrightarrow> nxt s = (Inr v, t) \<Longrightarrow> ok t \<and> lo t = lo s \<and> hi t = hi s"
    and in_range: "ok s \<Longrightarrow> nxt s = (Inr v, t) \<Longrightarrow> lo s \<le> v \<and> v \<le> hi s"
begin

lemma draws_in_range:
  "ok s \<Longrightarrow> \<exists>vs t. draw_list nxt n s = (Inr vs, t) \<and> length vs = n \<and>
     (\<forall>v \<in> set vs. lo s \<le> v \<and> v \<le> hi s)"
proof (induction n arbitrary: s)
  case (Suc n)
  obtain v u where v: "nxt s = (Inr v, u)" using total [OF Suc.prems] by blast
  from ok_step [OF Suc.prems v] have u: "ok u" "lo u = lo s" "hi u = hi s" by auto
  from Suc.IH [OF u(1)] in_range [OF Suc.prems v] v u show ?case
    by (auto simp: bindM_def retM_def)
qed (simp add: retM_def)

text \<open>When every value of the range is accepted, the first draw ends the loop.\<close>

lemma first_draw_accepted:
  assumes "ok s" and "\<And>v. lo s \<le> v \<Longrightarrow> v \<le> hi s \<Longrightarrow> p v"
  shows "draw_until nxt p (Suc fuel) s = nxt s"
proof -
  obtain v t where v: "nxt s = (Inr v, t)" using total [OF assms(1)] by blast
  with in_range [OF assms(1) v] assms(2) show ?thesis by (simp add: bindM_Inr retM_def)
qed

end

lemma zipf_Next_last: "zipf_Next fp s = (Inr v, (z', e')) \<Longrightarrow> z_last z' = v"
  by (cases s) (auto simp: zipf_Next_def bindM_result_Inr getM_def zipf_Next_num_run Let_def split: if_splits)

interpretation gen: generator "gen_Next fp basis" "\<lambda>(g, _). gen_Last g" for fp :: "'d fp" and basis
proof
  fix s v t
  assume "gen_Next fp basis s = (Inr v, t)"
  then show "(case t of (g, _) \<Rightarrow> gen_Last g) = v"
    by (auto simp: gen_Next_def gen_Last_def counter_Next_def counter_Last_def uniform_Next_def Let_def
        dest: zipf_Next_last split: prod.splits generator.splits sum.splits)
qed

text \<open>The uniform generator keeps its bounds for good.\<close>

definition uniform_ok :: "'d generator \<times> 'd env \<Rightarrow> bool" where
  "uniform_ok s \<longleftrightarrow> (case fst s of UniformGenerator u \<Rightarrow> u_min u \<le> u_max u | _ \<Rightarrow> False)"

definition uniform_lo :: "'d generator \<times> 'd env \<Rightarrow> u64" where
  "uniform_lo s = (case fst s of UniformGenerator u \<Rightarrow> u_min u | _ \<Rightarrow> 0)"

definition uniform_hi :: "'d generator \<times> 'd env \<Rightarrow> u64" where
  "uniform_hi s = (case fst s of UniformGenerator u \<Rightarrow> u_max u | _ \<Rightarrow> 0)"

interpretation uni: bounded_generator "gen_Next fp basis" "\<lambda>(g, _). gen_Last g"
    uniform_ok uniform_lo uniform_hi for fp :: "'d fp" and basis
  by unfold_locales
    (auto simp: uniform_ok_def uniform_lo_def uniform_hi_def gen_Next_def uniform_Next_def Let_def
      uniform_dist_range split: prod.splits generator.splits)

section \<open>The parameters of a generator\<close>

text \<open>
  What the constructor of a generator fixed, with everything a draw may change blanked out.
\<close>

definition zipf_conf :: "'d zipfian \<Rightarrow> 'd zipfian" where
  "zipf_conf z = z\<lparr>z_zeta_n := z_theta z, z_eta := z_theta z, z_n_for_zeta := 0, z_last := 0\<rparr>"

fun gen_conf :: "'d generator \<Rightarrow> 'd generator" where
  "gen_conf (ConstGenerator c) = ConstGenerator c"
| "gen_conf (CounterGenerator c) = CounterGenerator 0"
| "gen_conf (UniformGenerator u) = UniformGenerator (u\<lparr>u_engine := sconst 0, u_last := 0\<rparr>)"
| "gen_conf (ZipfianGenerator z) = ZipfianGenerator (zipf_conf z)"
| "gen_conf (ScrambledZipfianGenerator base n z) = ScrambledZipfianGenerator base n (zipf_conf z)"
| "gen_conf (SkewedLatestGenerator z l) = SkewedLatestGenerator (zipf_conf z) 0"

lemma zipf_Next_num_conf: "zipf_Next_num fp num (z, e) = (r, (z', e')) \<Longrightarrow> zipf_conf z' = zipf_conf z"
  by (auto simp: zipf_Next_num_run Let_def zipf_conf_def zipf_raised_def split: if_splits)

lemma zipf_Next_conf: "zipf_Next fp (z, e) = (r, (z', e')) \<Longrightarrow> zipf_conf z' = zipf_conf z"
  by (auto simp: zipf_Next_def bindM_def getM_def dest: zipf_Next_num_conf)

lemma skewed_Next_conf: "skewed_Next fp basis (z, e) = (r, (z', e')) \<Longrightarrow> zipf_conf z' = zipf_conf z"
  by (auto simp: skewed_Next_def Let_def bindM_def retM_def split: prod.splits sum.splits
      dest: zipf_Next_num_conf)

lemma gen_Next_conf: "gen_Next fp basis (g, e) = (r, (g', e')) \<Longrightarrow> gen_conf g' = gen_conf g"
  by (cases g) (auto simp: gen_Next_def counter_Next_def uniform_Next_def Let_def
      dest: zipf_Next_conf skewed_Next_conf split: prod.splits sum.splits)

text \<open>The kinds of generators a workload holds.\<close>

definition is_counter :: "'d generator \<Rightarrow> bool" where
  "is_counter g \<longleftrightarrow> (\<exists>c. g = CounterGenerator c)"

definition is_uniform :: "u64 \<Rightarrow> u64 \<Rightarrow> 'd generator \<Rightarrow> bool" where
  "is_uniform mn mx g \<longleftrightarrow> (\<exists>u. g = UniformGenerator u \<and> u_min u = mn \<and> u_max u = mx)"

definition is_zipfian :: "u64 \<Rightarrow> u64 \<Rightarrow> 'd generator \<Rightarrow> bool" where
  "is_zipfian mn mx g \<longleftrightarrow>
     (\<exists>z. g = ZipfianGenerator z \<and> z_base z = mn \<and> z_num_items z = mx - mn + 1 \<and> zipf_num_ok (z_num_items z))"

definition is_scrambled :: "'d generator \<Rightarrow> bool" where
  "is_scrambled g \<longleftrightarrow>
     (\<exists>n z. g = ScrambledZipfianGenerator 0 n z \<and> z_base z = 0 \<and> z_num_items z = n \<and> zipf_num_ok n)"

definition is_skewed :: "u64 \<Rightarrow> 'd generator \<Rightarrow> bool" where
  "is_skewed n g \<longleftrightarrow>
     (\<exists>z l. g = SkewedLatestGenerator z l \<and> z_base z = 0 \<and> z_num_items z = n \<and> zipf_num_ok n)"

lemma kinds_of_conf:
  "is_counter (gen_conf g) = is_counter g" "is_uniform mn mx (gen_conf g) = is_uniform mn mx g"
  "is_zipfian mn mx (gen_conf g) = is_zipfian mn mx g" "is_scrambled (gen_conf g) = is_scrambled g"
  "is_skewed n (gen_conf g) = is_skewed n g" "gen_conf g = ConstGenerator c \<longleftrightarrow> g = ConstGenerator c"
  by (cases g; simp add: is_counter_def is_uniform_def is_zipfian_def is_scrambled_def is_skewed_def
      zipf_conf_def)+

lemma gen_conf_kinds:
  assumes "gen_conf g = gen_conf h"
  shows "is_counter g = is_counter h" "is_uniform mn mx g = is_uniform mn mx h"
    "is_zipfian mn mx g = is_zipfian mn mx h" "is_scrambled g = is_scrambled h"
    "is_skewed n g = is_skewed n h" "g = ConstGenerator c \<longleftrightarrow> h = ConstGenerator c"
  by (simp_all add: kinds_of_conf [where g = g, symmetric] kinds_of_conf [where g = h, symmetric] assms)

lemma new_kinds:
  "is_uniform mn mx (new_Uniform mt mn mx)"
  "new_Zipfian fp mn mx e = (Inr g, e') \<Longrightarrow> is_zipfian mn mx g"
  "new_Scrambled fp n e = (Inr g, e') \<Longrightarrow> is_scrambled g"
  "new_Skewed fp basis e = (Inr g, e') \<Longrightarrow> is_skewed (counter_Last basis) g"
proof -
  show "is_uniform mn mx (new_Uniform mt mn mx)"
    by (simp add: is_uniform_def new_Uniform_def uniform_new_def uniform_Next_def Let_def)
  show "is_zipfian mn mx g" if "new_Zipfian fp mn mx e = (Inr g, e')"
    using that by (auto simp: new_Zipfian_def bindM_result_Inr retM_def is_zipfian_def zipf_new_run Let_def
        zipf_raw_def split: if_splits)
  show "is_scrambled g" if "new_Scrambled fp n e = (Inr g, e')"
    using that by (auto simp: new_Scrambled_def Let_def bindM_result_Inr retM_def is_scrambled_def
        zipf_new_run zipf_raw_def split: if_splits)
  show "is_skewed (counter_Last basis) g" if r: "new_Skewed fp basis e = (Inr g, e')"
  proof -
    obtain z e1 where z: "zipf_new fp 0 (counter_Last basis - 1) (zipf_const fp) e = (Inr z, e1)"
      and run: "(case gen_Next fp basis (SkewedLatestGenerator z 0, e1) of
         (Inl err, (g, e')) \<Rightarrow> (Inl err, e') | (Inr _, (g, e')) \<Rightarrow> (Inr g, e')) = (Inr g, e')"
      using r unfolding new_Skewed_def bindM_result_Inr by blast
    obtain v where g: "gen_Next fp basis (SkewedLatestGenerator z 0, e1) = (v, (g, e'))"
      using run by (cases "gen_Next fp basis (SkewedLatestGenerator z 0, e1)") (auto split: sum.splits)
    have "is_skewed (counter_Last basis) (SkewedLatestGenerator z 0)"
      using z by (auto simp: is_skewed_def zipf_new_run Let_def zipf_raw_def split: if_splits)
    with gen_conf_kinds(5) [OF gen_Next_conf [OF g]] show ?thesis by blast
  qed
qed

section \<open>What the generators promise\<close>

text \<open>
  A small arithmetic for examples: numbers are rationals, powers are 1 and a text other than \<open>0.0\<close>
  reads as one half, so that runs can be computed.
\<close>

definition toy_fp :: "rat fp" where
  "toy_fp = \<lparr>f_lit = \<lambda>q. q, f_add = (+), f_sub = (-), f_mul = (*), f_div = (/), f_pow = \<lambda>_ _. 1,
     f_less = (<), f_of_u64 = \<lambda>w. of_nat (unat w), f_to_u64 = \<lambda>_. 0, f_of_int = of_int,
     f_to_int = \<lambda>_. 0, f_stod = \<lambda>s. Inr (if s = ''0.0'' then 0 else 1 / 2)\<rparr>"

definition toy_env :: "rat env" where
  "toy_env = \<lparr>doubles = sconst (1 / 2), rands = sconst 0\<rparr>"


text \<open>
  A uniform generator never fails and never leaves its interval: any number of draws succeeds and
  all of them lie between its bounds, also for the interval of all 64-bit numbers.
\<close>

theorem uniform_draws_in_range:
  assumes "u_min u \<le> u_max u"
  shows "\<exists>vs t. draw_list (gen_Next fp basis) n (UniformGenerator u, e) = (Inr vs, t) \<and> length vs = n \<and>
    (\<forall>v \<in> set vs. u_min u \<le> v \<and> v \<le> u_max u)"
  using uni.draws_in_range [of "(UniformGenerator u, e)" fp basis n] assms
  by (simp add: uniform_ok_def uniform_lo_def uniform_hi_def)

theorem uniform_draws_in_range_witness:
  "\<exists>vs t. draw_list (gen_Next toy_fp 0) 3
      (UniformGenerator \<lparr>u_engine = sconst 12345, u_min = 0, u_max = - 1, u_last = 0\<rparr>, toy_env) = (Inr vs, t) \<and>
    length vs = 3"
  using uniform_draws_in_range [of "\<lparr>u_engine = sconst 12345, u_min = 0, u_max = - 1, u_last = 0\<rparr>"
      toy_fp 0 3 toy_env]
  by auto

text \<open>
  For every kind of generator \<open>Last()\<close> after a run of draws is the last value drawn.
\<close>

theorem Last_is_last_drawn:
  assumes "draw_list (gen_Next fp basis) n (g, e) = (Inr vs, (g', e'))" and "vs \<noteq> []"
  shows "gen_Last g' = last vs"
  using gen.last_of_draws [OF assms] by simp

theorem Last_is_last_drawn_witness:
  "gen_Last (CounterGenerator 9 :: rat generator) = last [7, 8]"
  by (rule Last_is_last_drawn [of toy_fp 0 2 "CounterGenerator 7" toy_env _ _ toy_env])
    (simp_all add: eval_nat_numeral bindM_def retM_def gen_Next_def counter_Next_def)

text \<open>A run of draws from the first items of a Zipfian generator, with the number asked for each time.\<close>

primrec zipf_draws :: "'d fp \<Rightarrow> u64 list \<Rightarrow> ('d zipfian \<times> 'd env, u64 list) op" where
  "zipf_draws fp [] = retM []"
| "zipf_draws fp (num # nums) =
     bindM (zipf_Next_num fp num) (\<lambda>v. bindM (zipf_draws fp nums) (\<lambda>vs. retM (v # vs)))"

lemma zipf_draws_inv:
  "zipf_draws fp nums s = (Inr vs, s') \<Longrightarrow> zipf_inv fp (fst s) \<Longrightarrow>
     zipf_inv fp (fst s') \<and> z_theta (fst s') = z_theta (fst s) \<and>
     z_n_for_zeta (fst s') = fold max nums (z_n_for_zeta (fst s))"
proof (induction nums arbitrary: s vs)
  case Nil
  then show ?case by (simp add: retM_def)
next
  case (Cons num nums)
  then obtain v z e ws where run: "zipf_Next_num fp num s = (Inr v, (z, e))"
      "zipf_draws fp nums (z, e) = (Inr ws, s')"
    by (auto simp: bindM_result_Inr retM_def)
  obtain z0 e0 where s: "s = (z0, e0)" by fastforce
  have "zipf_inv fp z" using zipf_Next_num_inv [of fp z0 num e0] Cons.prems(2) run(1) s by simp
  moreover have "z_theta z = z_theta (fst s) \<and> z_n_for_zeta z = max num (z_n_for_zeta (fst s))"
    using run(1) unfolding s by (auto simp: zipf_Next_num_run Let_def split: if_splits)
  ultimately show ?case using Cons.IH [OF run(2)] by simp
qed

text \<open>
  C29: The Zipfian generator keeps its normalisation consistent. However often it is asked for the
  first \<open>num\<close> items, with whatever numbers, its zeta value is exactly the one computed from scratch
  for the largest number so far and \<open>eta\<close> belongs to it, in any floating-point arithmetic: the
  incremental sum adds the same terms in the same order.
\<close>

theorem zipf_zeta_consistent:
  assumes "zipf_new fp mn mx theta e = (Inr z, e1)"
    and "zipf_draws fp nums (z, e1) = (Inr vs, (z', e2))"
  shows "z_n_for_zeta z' = fold max nums (mx - mn + 1) \<and>
    z_zeta_n z' = Zeta0 fp (fold max nums (mx - mn + 1)) theta \<and>
    z_eta z' = Eta fp z' \<and> z_zeta_2 z' = Zeta0 fp 2 theta"
proof -
  have "z_theta z = theta \<and> z_n_for_zeta z = mx - mn + 1"
    using assms(1) by (auto simp: zipf_new_run Let_def zipf_raw_def split: if_splits)
  with zipf_draws_inv [OF assms(2)] zipf_new_inv [OF assms(1)] show ?thesis
    by (simp add: zipf_inv_def)
qed

theorem zipf_zeta_consistent_witness:
  "\<exists>z e1 vs z' e2. zipf_new toy_fp 0 9 (1 / 3) toy_env = (Inr z, e1) \<and>
     zipf_draws toy_fp [10, 20, 15] (z, e1) = (Inr vs, (z', e2)) \<and>
     z_zeta_n z' = Zeta0 toy_fp 20 (1 / 3)"
proof -
  have ok: "zipf_num_ok 10" "zipf_num_ok 20" "zipf_num_ok 15"
    by (simp_all add: zipf_num_ok_def kMaxNumItems_def mask_eq_exp_minus_1)
  obtain z e1 where new: "zipf_new toy_fp 0 9 (1 / 3) toy_env = (Inr z, e1)"
    using ok(1) by (auto simp: zipf_new_run Let_def)
  have "\<exists>v z' e'. zipf_Next_num toy_fp num (y, e) = (Inr v, (z', e'))" if "zipf_num_ok num" for num y e
    using that by (simp add: zipf_Next_num_run Let_def)
  then have "\<exists>vs z' e2. zipf_draws toy_fp [10, 20, 15] (z, e1) = (Inr vs, (z', e2))"
    using ok by (simp add: bindM_def retM_def zipf_Next_num_run Let_def)
  then obtain vs z' e2 where draws: "zipf_draws toy_fp [10, 20, 15] (z, e1) = (Inr vs, (z', e2))" by blast
  from zipf_zeta_consistent [OF new draws] have "z_zeta_n z' = Zeta0 toy_fp 20 (1 / 3)"
    by (simp add: max_def)
  with new draws show ?thesis by blast
qed

lemma scrambled_step:
  "gen_Next fp basis (ScrambledZipfianGenerator base n z, e) = (Inr v, (g', e')) \<Longrightarrow>
     \<exists>x z'. v = Scramble base n x \<and> g' = ScrambledZipfianGenerator base n z'"
  by (auto simp: gen_Next_def split: prod.splits sum.splits)

text \<open>
  The scrambled Zipfian generator over \<open>n\<close> items only draws numbers below \<open>n\<close>, and its
  constructor accepts only numbers of items that its arithmetic can handle.
\<close>

theorem scrambled_draws_in_range:
  assumes "new_Scrambled fp n e = (Inr g, e1)"
    and "draw_list (gen_Next fp basis) k (g, e1) = (Inr vs, t)"
  shows "zipf_num_ok n \<and> (\<forall>v \<in> set vs. v < n)"
proof -
  obtain z where g: "g = ScrambledZipfianGenerator 0 n z" and ok: "zipf_num_ok n"
    using assms(1) by (auto simp: new_Scrambled_def Let_def bindM_result_Inr retM_def zipf_new_run split: if_splits)
  from ok have "0 < n" by (auto simp: zipf_num_ok_def word_less_nat_alt word_le_nat_alt)
  then have below: "Scramble 0 n x < n" for x
    using Scramble_range [of n 0 x] unsigned_less [of n, where 'a = nat] by (simp add: word_less_nat_alt)
  have "\<forall>v \<in> set vs. v < n" if "draw_list (gen_Next fp basis) k (ScrambledZipfianGenerator 0 n z, e1) = (Inr vs, t)"
    for z e1 using that
  proof (induction k arbitrary: z e1 vs)
    case (Suc k)
    then obtain v g' e' ws where step: "gen_Next fp basis (ScrambledZipfianGenerator 0 n z, e1) = (Inr v, (g', e'))"
        and rest: "draw_list (gen_Next fp basis) k (g', e') = (Inr ws, t)" and vs: "vs = v # ws"
      by (auto simp: bindM_result_Inr retM_def)
    from scrambled_step [OF step] obtain x z' where "v = Scramble 0 n x"
        "g' = ScrambledZipfianGenerator 0 n z'" by blast
    with Suc.IH rest vs below show ?case by auto
  qed (simp add: retM_def)
  with ok g assms(2) show ?thesis by blast
qed

theorem scrambled_draws_in_range_witness:
  "\<exists>g e1. new_Scrambled toy_fp 10 toy_env = (Inr g, e1) \<and> zipf_num_ok 10"
proof -
  have ok: "zipf_num_ok 10" by (simp add: zipf_num_ok_def kMaxNumItems_def mask_eq_exp_minus_1)
  then obtain g e1 where g: "new_Scrambled toy_fp 10 toy_env = (Inr g, e1)"
    by (auto simp: new_Scrambled_def Let_def bindM_def retM_def zipf_new_run)
  have "draw_list (gen_Next toy_fp 0) 0 (g, e1) = (Inr [], (g, e1))" by (simp add: retM_def)
  from scrambled_draws_in_range [OF g this] g show ?thesis by blast
qed

end
