(* ===== verification/DbApi.thy ===== *)
theory DbApi
  imports Prelude
begin

text \<open>
  \<open>server/include/db.h\<close>: the vocabulary of the abstract class \<open>DB\<close> that the benchmark client and
  every backend share: status codes, field/value vectors, and the five operations as the client
  calls them. The per-thread context is part of the backend's state.
\<close>

type_synonym fieldvals = "(string \<times> string) list"

text \<open>\<open>struct Table\<close> of \<open>db.h\<close>.\<close>

datatype table_desc = Table (table_name: string) (table_columns: "string list")

definition kOK :: int where
  "kOK = 0"

definition kErrorNoData :: int where
  "kErrorNoData = 1"

definition kErrorConflict :: int where
  "kErrorConflict = 2"

lemma status_distinct [simp]:
  "kOK \<noteq> kErrorNoData" "kErrorNoData \<noteq> kOK" "kOK \<noteq> kErrorConflict" "kErrorConflict \<noteq> kOK"
  "kErrorNoData \<noteq> kErrorConflict" "kErrorConflict \<noteq> kErrorNoData"
  by (simp_all add: kOK_def kErrorNoData_def kErrorConflict_def)

text \<open>
  One backend: \<open>Read\<close> and \<open>Scan\<close> take the requested fields (\<open>None\<close> for a null pointer) and the
  result vector as it was passed in, and return the status with the vector as they leave it.
\<close>

record 'db db_ops =
  op_Read :: "string \<Rightarrow> string \<Rightarrow> string list option \<Rightarrow> fieldvals \<Rightarrow> ('db, int \<times> fieldvals) op"
  op_Scan :: "string \<Rightarrow> string \<Rightarrow> int \<Rightarrow> string list option \<Rightarrow> fieldvals list \<Rightarrow>
    ('db, int \<times> fieldvals list) op"
  op_Update :: "string \<Rightarrow> string \<Rightarrow> fieldvals \<Rightarrow> ('db, int) op"
  op_Insert :: "string \<Rightarrow> string \<Rightarrow> fieldvals \<Rightarrow> ('db, int) op"
  op_Delete :: "string \<Rightarrow> string \<Rightarrow> ('db, int) op"

text \<open>
  The rest of the class, which \<open>basic\<close> (but for \<open>Init\<close>) and \<open>lock_stl\<close> inherit: no schema and no context.
  \<open>Init\<close> with a CPU forgets it and calls the virtual \<open>Init\<close> of the backend.
\<close>

definition DB_CreateSchema :: "table_desc list \<Rightarrow> ('db, unit) op" where
  "DB_CreateSchema tables = retM ()"

definition DB_Init :: "('db, unit) op" where
  "DB_Init = retM ()"

definition DB_Init_on :: "('db, unit) op \<Rightarrow> u64 \<Rightarrow> ('db, unit) op" where
  "DB_Init_on init cpu = init"

definition DB_Close :: "('db, unit) op" where
  "DB_Close = retM ()"

text \<open>
  \<open>migrate\<close> of \<open>server/include/utils.h\<close>, by which a thread of the benchmark or of a server moves to its CPU;
  the argument is what the scheduler answers.
\<close>

definition migrate :: "int \<Rightarrow> fault + unit" where
  "migrate run_thread_error =
     (if run_thread_error \<noteq> 0 then Inl (RuntimeError ''failed to migrate thread'') else Inr ())"

end
