(* ===== verification/Workload.thy ===== *)
theory Workload
  imports Properties Generators DbApi
begin

text \<open>
  \<open>server/ycsbc-l4/core/core_workload.h\<close> and \<open>core_workload.cc\<close>: the workload that chooses
  operations, keys, fields and values. Its operations work on the workload object together with the
  random sources. Every default-constructed \<open>std::mt19937_64\<close> has the same seed, so \<open>Init\<close> gives all
  uniform generators the same raw stream \<open>mt\<close>.
\<close>

datatype operation = INSERT | READ | UPDATE | SCAN | READMODIFYWRITE

record 'd workload =
  wl_table :: string
  wl_field_count :: int
  wl_read_all :: bool
  wl_write_all :: bool
  wl_field_len :: "'d generator"
  wl_key_gen :: "'d generator"
  wl_op_chooser :: "(operation, 'd) discrete"
  wl_key_chooser :: "'d generator"
  wl_field_chooser :: "'d generator"
  wl_scan_len :: "'d generator"
  wl_insert_seq :: u64
  wl_ordered :: bool
  wl_record_count :: u64
  wl_zero_padding :: int

type_synonym ('d, 'a) wl_op = "('d workload \<times> 'd env, 'a) op"

section \<open>Initialisation\<close>

definition GetFieldLenGenerator :: "'d fp \<Rightarrow> u64 stream \<Rightarrow> props \<Rightarrow> ('d env, 'd generator) op" where
  "GetFieldLenGenerator fp mt p =
     (let field_len_dist = GetProperty p ''field_len_dist'' ''constant''
      in bindM (liftM (stoi (GetProperty p ''fieldlength'' ''100''))) (\<lambda>field_len.
         if field_len_dist = ''constant'' then retM (new_Const field_len)
         else if field_len_dist = ''uniform'' then retM (new_Uniform mt 1 (word_of_int field_len))
         else if field_len_dist = ''zipfian'' then new_Zipfian fp 1 (word_of_int field_len)
         else throwM (UtilsException (''Unknown field length distribution: '' @ field_len_dist))))"

definition proportion :: "'d fp \<Rightarrow> props \<Rightarrow> string \<Rightarrow> string \<Rightarrow> fault + 'd" where
  "proportion fp p key default_value = f_stod fp (GetProperty p key default_value)"

definition add_if_positive ::
  "'d fp \<Rightarrow> operation \<Rightarrow> 'd \<Rightarrow> (operation, 'd) discrete \<Rightarrow> (operation, 'd) discrete" where
  "add_if_positive fp operation w g =
     (if f_less fp (f_lit fp 0) w then AddValue fp operation w g else g)"

text \<open>The chooser of request keys.\<close>

definition key_chooser_for ::
  "'d fp \<Rightarrow> u64 stream \<Rightarrow> props \<Rightarrow> string \<Rightarrow> u64 \<Rightarrow> 'd \<Rightarrow> ('d env, 'd generator) op" where
  "key_chooser_for fp mt p request_dist record_count insert_proportion =
     (if request_dist = ''uniform'' then retM (new_Uniform mt 0 (record_count - 1))
      else if request_dist = ''zipfian'' then
        bindM (liftM (stoi (GetProperty p ''operationcount'' ''''))) (\<lambda>op_count.
        let new_keys = f_to_int fp (f_mul fp (f_mul fp (f_of_int fp op_count) insert_proportion) (f_of_int fp 2))
        in new_Scrambled fp (record_count + word_of_int new_keys))
      else if request_dist = ''latest'' then new_Skewed fp record_count
      else throwM (UtilsException (''Unknown request distribution: '' @ request_dist)))"

definition scan_len_chooser_for ::
  "'d fp \<Rightarrow> u64 stream \<Rightarrow> string \<Rightarrow> int \<Rightarrow> ('d env, 'd generator) op" where
  "scan_len_chooser_for fp mt scan_len_dist max_scan_len =
     (if scan_len_dist = ''uniform'' then retM (new_Uniform mt 1 (word_of_int max_scan_len))
      else if scan_len_dist = ''zipfian'' then new_Zipfian fp 1 (word_of_int max_scan_len)
      else throwM (UtilsException (''Distribution not allowed for scan length: '' @ scan_len_dist)))"

text \<open>\<open>Init\<close>, in the order of the code; the counter of inserted keys starts at the record count.\<close>

definition Init :: "'d fp \<Rightarrow> u64 stream \<Rightarrow> props \<Rightarrow> ('d env, 'd workload) op" where
  "Init fp mt p =
     (let table = GetProperty p ''table'' ''usertable''
      in bindM (liftM (stoi (GetProperty p ''fieldcount'' ''10''))) (\<lambda>field_count.
         bindM (GetFieldLenGenerator fp mt p) (\<lambda>field_len_gen.
         bindM (liftM (proportion fp p ''readproportion'' ''0.95'')) (\<lambda>read_prop.
         bindM (liftM (proportion fp p ''updateproportion'' ''0.05'')) (\<lambda>update_prop.
         bindM (liftM (proportion fp p ''insertproportion'' ''0.0'')) (\<lambda>insert_prop.
         bindM (liftM (proportion fp p ''scanproportion'' ''0.0'')) (\<lambda>scan_prop.
         bindM (liftM (proportion fp p ''readmodifywriteproportion'' ''0.0'')) (\<lambda>rmw_prop.
         bindM (liftM (stoi (GetProperty p ''recordcount'' ''''))) (\<lambda>rc.
         let record_count = word_of_int rc;
             request_dist = GetProperty p ''requestdistribution'' ''uniform''
         in bindM (liftM (stoi (GetProperty p ''zeropadding'' ''1''))) (\<lambda>zero_padding.
         bindM (liftM (stoi (GetProperty p ''maxscanlength'' ''1000''))) (\<lambda>max_scan_len.
         let scan_len_dist = GetProperty p ''scanlengthdistribution'' ''uniform''
         in bindM (liftM (stoi (GetProperty p ''insertstart'' ''0''))) (\<lambda>insert_start.
         bindM (liftM (StrToBool (GetProperty p ''readallfields'' ''true''))) (\<lambda>read_all.
         bindM (liftM (StrToBool (GetProperty p ''writeallfields'' ''false''))) (\<lambda>write_all.
         let ordered = (GetProperty p ''insertorder'' ''hashed'' \<noteq> ''hashed'');
             op_chooser =
               add_if_positive fp READMODIFYWRITE rmw_prop
                 (add_if_positive fp SCAN scan_prop
                   (add_if_positive fp INSERT insert_prop
                     (add_if_positive fp UPDATE update_prop
                       (add_if_positive fp READ read_prop (discrete_new fp)))))
         in bindM (key_chooser_for fp mt p request_dist record_count insert_prop) (\<lambda>key_chooser.
         let field_chooser = new_Uniform mt 0 (word_of_int (field_count - 1))
         in bindM (scan_len_chooser_for fp mt scan_len_dist max_scan_len) (\<lambda>scan_len.
         retM \<lparr>wl_table = table, wl_field_count = field_count, wl_read_all = read_all,
               wl_write_all = write_all, wl_field_len = field_len_gen,
               wl_key_gen = CounterGenerator (word_of_int insert_start), wl_op_chooser = op_chooser,
               wl_key_chooser = key_chooser, wl_field_chooser = field_chooser,
               wl_scan_len = scan_len, wl_insert_seq = counter_Set record_count 3,
               wl_ordered = ordered, wl_record_count = record_count,
               wl_zero_padding = zero_padding\<rparr>))))))))))))))))"

section \<open>Choosing\<close>

definition field_name :: "nat \<Rightarrow> string" where
  "field_name n = ''field'' @ nat_dec n"

definition Tables :: "'d workload \<Rightarrow> table_desc list" where
  "Tables w = [Table (wl_table w) (map field_name [0..<nat (wl_field_count w)])]"

text \<open>One \<open>Next()\<close> of a generator of the workload.\<close>

definition wl_draw ::
  "'d fp \<Rightarrow> ('d workload \<Rightarrow> 'd generator) \<Rightarrow> ('d generator \<Rightarrow> 'd workload \<Rightarrow> 'd workload) \<Rightarrow> ('d, u64) wl_op" where
  "wl_draw fp rd wr s =
     (case s of (w, e) \<Rightarrow>
        case gen_Next fp (wl_insert_seq w) (rd w, e) of (r, (g, e')) \<Rightarrow> (r, (wr g w, e')))"

definition draw_key :: "'d fp \<Rightarrow> ('d, u64) wl_op" where
  "draw_key fp = wl_draw fp wl_key_chooser (\<lambda>g. wl_key_chooser_update (\<lambda>_. g))"

definition draw_sequence :: "'d fp \<Rightarrow> ('d, u64) wl_op" where
  "draw_sequence fp = wl_draw fp wl_key_gen (\<lambda>g. wl_key_gen_update (\<lambda>_. g))"

definition draw_field :: "'d fp \<Rightarrow> ('d, u64) wl_op" where
  "draw_field fp = wl_draw fp wl_field_chooser (\<lambda>g. wl_field_chooser_update (\<lambda>_. g))"

definition draw_field_len :: "'d fp \<Rightarrow> ('d, u64) wl_op" where
  "draw_field_len fp = wl_draw fp wl_field_len (\<lambda>g. wl_field_len_update (\<lambda>_. g))"

definition draw_scan_len :: "'d fp \<Rightarrow> ('d, u64) wl_op" where
  "draw_scan_len fp = wl_draw fp wl_scan_len (\<lambda>g. wl_scan_len_update (\<lambda>_. g))"

definition draw_char :: "('d, char) wl_op" where
  "draw_char = onM snd (\<lambda>e (w, _). (w, e)) NextPrintChar"

definition BuildKeyName :: "'d workload \<Rightarrow> u64 \<Rightarrow> string" where
  "BuildKeyName w key_num =
     (let key_num = (if \<not> wl_ordered w then Hash key_num else key_num);
          key_num_str = nat_dec (unat key_num);
          zeros = max 0 (wl_zero_padding w - int (length key_num_str))
      in ''user'' @ replicate (nat zeros) (CHR ''0'') @ key_num_str)"

definition NextTable :: "('d, string) wl_op" where
  "NextTable = getM (\<lambda>(w, _). wl_table w)"

definition NextSequenceKey :: "'d fp \<Rightarrow> ('d, string) wl_op" where
  "NextSequenceKey fp = bindM (draw_sequence fp) (\<lambda>k. getM (\<lambda>(w, _). BuildKeyName w k))"

text \<open>
  The retry loop of \<open>NextTransactionKey\<close>, with fuel: keys beyond the counter of inserted keys are
  thrown away.
\<close>

definition key_inserted :: "'d workload \<Rightarrow> u64 \<Rightarrow> bool" where
  "key_inserted w k \<longleftrightarrow> \<not> counter_Last (wl_insert_seq w) < k"

definition NextTransactionKey :: "'d fp \<Rightarrow> nat \<Rightarrow> ('d, string) wl_op" where
  "NextTransactionKey fp fuel s =
     bindM (draw_until (draw_key fp) (key_inserted (fst s)) fuel)
       (\<lambda>k. getM (\<lambda>(w, _). BuildKeyName w k)) s"

definition NextOperation :: "'d fp \<Rightarrow> ('d, operation) wl_op" where
  "NextOperation fp s =
     (case s of (w, e) \<Rightarrow>
        case discrete_Next fp (wl_op_chooser w, e) of (r, (g, e')) \<Rightarrow> (r, (w\<lparr>wl_op_chooser := g\<rparr>, e')))"

definition NextFieldName :: "'d fp \<Rightarrow> ('d, string) wl_op" where
  "NextFieldName fp = bindM (draw_field fp) (\<lambda>n. retM (field_name (unat n)))"

definition NextScanLength :: "'d fp \<Rightarrow> ('d, u64) wl_op" where
  "NextScanLength fp = draw_scan_len fp"

text \<open>\<open>append(n, c)\<close> with a drawn length and a drawn character.\<close>

definition random_value :: "'d fp \<Rightarrow> ('d, string) wl_op" where
  "random_value fp =
     bindM (draw_field_len fp) (\<lambda>n. bindM draw_char (\<lambda>c. retM (replicate (unat n) c)))"

primrec build_fields :: "'d fp \<Rightarrow> nat list \<Rightarrow> ('d, fieldvals) wl_op" where
  "build_fields fp [] = retM []"
| "build_fields fp (i # is) =
     bindM (random_value fp) (\<lambda>v. bindM (build_fields fp is) (\<lambda>vs. retM ((field_name i, v) # vs)))"

definition BuildValues :: "'d fp \<Rightarrow> ('d, fieldvals) wl_op" where
  "BuildValues fp s = build_fields fp [0..<nat (wl_field_count (fst s))] s"

definition BuildUpdate :: "'d fp \<Rightarrow> ('d, fieldvals) wl_op" where
  "BuildUpdate fp = bindM (NextFieldName fp) (\<lambda>f. bindM (random_value fp) (\<lambda>v. retM [(f, v)]))"

section \<open>What no operation changes\<close>

text \<open>
  Configuration, the counter of inserted keys, the weights of the operations and the parameters of the
  generators: every operation of the workload leaves them alone.
\<close>

definition same_config :: "'d workload \<Rightarrow> 'd workload \<Rightarrow> bool" where
  "same_config w w' \<longleftrightarrow>
     wl_table w' = wl_table w \<and> wl_field_count w' = wl_field_count w \<and>
     wl_read_all w' = wl_read_all w \<and> wl_write_all w' = wl_write_all w \<and>
     wl_insert_seq w' = wl_insert_seq w \<and> wl_ordered w' = wl_ordered w \<and>
     wl_record_count w' = wl_record_count w \<and> wl_zero_padding w' = wl_zero_padding w \<and>
     d_values (wl_op_chooser w') = d_values (wl_op_chooser w) \<and>
     gen_conf (wl_key_gen w') = gen_conf (wl_key_gen w) \<and>
     gen_conf (wl_field_len w') = gen_conf (wl_field_len w) \<and>
     gen_conf (wl_key_chooser w') = gen_conf (wl_key_chooser w) \<and>
     gen_conf (wl_field_chooser w') = gen_conf (wl_field_chooser w) \<and>
     gen_conf (wl_scan_len w') = gen_conf (wl_scan_len w)"

definition keeps_config :: "('d, 'a) wl_op \<Rightarrow> bool" where
  "keeps_config m \<longleftrightarrow> (\<forall>s. same_config (fst s) (fst (snd (m s))))"

named_theorems keeps \<open>operations that keep the configuration\<close>

lemma same_config_refl [simp]: "same_config w w"
  by (simp add: same_config_def)

lemma same_config_trans: "same_config u v \<Longrightarrow> same_config v w \<Longrightarrow> same_config u w"
  by (simp add: same_config_def)

lemma keepsD: "keeps_config m \<Longrightarrow> m s = (r, t) \<Longrightarrow> same_config (fst s) (fst t)"
  by (metis keeps_config_def snd_conv)

lemma keeps_pure [keeps]: "keeps_config (retM x)" "keeps_config (getM f)" "keeps_config (throwM err)"
  by (simp_all add: keeps_config_def op_simps)

lemma keeps_bindM [keeps]:
  assumes m: "keeps_config m" and f: "\<And>x. keeps_config (f x)"
  shows "keeps_config (bindM m f)"
  unfolding keeps_config_def
proof
  fix s :: "'a workload \<times> 'a env"
  obtain r t where r: "m s = (r, t)" by (metis surj_pair)
  from keepsD [OF m r] have st: "same_config (fst s) (fst t)" .
  show "same_config (fst s) (fst (snd (bindM m f s)))"
  proof (cases r)
    case (Inl err)
    with r st show ?thesis by (simp add: bindM_Inl)
  next
    case (Inr x)
    have "same_config (fst t) (fst (snd (f x t)))"
      by (rule f [unfolded keeps_config_def, rule_format])
    from same_config_trans [OF st this] show ?thesis
      using r Inr by (simp add: bindM_Inr)
  qed
qed

lemma keeps_wl_draw:
  "(\<And>g w. gen_conf g = gen_conf (rd w) \<Longrightarrow> same_config w (wr g w)) \<Longrightarrow> keeps_config (wl_draw fp rd wr)"
  by (auto simp: keeps_config_def wl_draw_def dest: gen_Next_conf split: prod.split)

lemma keeps_draws [keeps]:
  "keeps_config (draw_key fp)" "keeps_config (draw_sequence fp)" "keeps_config (draw_field fp)"
  "keeps_config (draw_field_len fp)" "keeps_config (draw_scan_len fp)" "keeps_config draw_char"
  unfolding draw_key_def draw_sequence_def draw_field_def draw_field_len_def draw_scan_len_def
  by (rule keeps_wl_draw; simp add: same_config_def)+
    (auto simp: keeps_config_def draw_char_def onM_def split: prod.split)

lemma keeps_draw_until [keeps]: "keeps_config m \<Longrightarrow> keeps_config (draw_until m p fuel)"
  by (induction fuel) (auto intro!: keeps)

lemma keeps_choices [keeps]:
  "keeps_config NextTable" "keeps_config (NextSequenceKey fp)" "keeps_config (NextFieldName fp)"
  "keeps_config (NextScanLength fp)" "keeps_config (random_value fp)"
  unfolding NextTable_def NextSequenceKey_def NextFieldName_def NextScanLength_def random_value_def
  by (intro keeps)+

lemma keeps_NextTransactionKey [keeps]: "keeps_config (NextTransactionKey fp fuel)"
proof -
  have "keeps_config (bindM (draw_until (draw_key fp) p fuel) (\<lambda>k. getM (\<lambda>(w, _). BuildKeyName w k)))" for p
    by (intro keeps)
  then show ?thesis by (simp add: keeps_config_def NextTransactionKey_def)
qed

lemma keeps_NextOperation [keeps]: "keeps_config (NextOperation fp)"
  by (auto simp: keeps_config_def NextOperation_def same_config_def discrete_Next_run Let_def
      split: prod.split option.split)

lemma keeps_build_fields [keeps]: "keeps_config (build_fields fp is)"
  by (induction "is") (auto intro!: keeps)

lemma keeps_BuildValues [keeps]: "keeps_config (BuildValues fp)"
  unfolding keeps_config_def BuildValues_def
  by (intro allI keeps_build_fields [unfolded keeps_config_def, rule_format])

lemma keeps_BuildUpdate [keeps]: "keeps_config (BuildUpdate fp)"
  unfolding BuildUpdate_def by (intro keeps)

section \<open>Field names\<close>

lemma field_name_inject [simp]: "field_name m = field_name n \<longleftrightarrow> m = n"
  by (simp add: field_name_def)

lemma build_fields_names:
  "build_fields fp is s = (Inr vs, t) \<Longrightarrow> map fst vs = map field_name is"
  by (induction "is" arbitrary: s vs t) (auto simp: bindM_result_Inr retM_def)

text \<open>The fields of a generated record are the columns of the table, in order.\<close>

lemma BuildValues_columns:
  "BuildValues fp s = (Inr vs, t) \<Longrightarrow>
     Tables (fst s) = [Table (wl_table (fst s)) (map fst vs)]"
  by (simp add: BuildValues_def Tables_def build_fields_names)

section \<open>Key names\<close>

lemma dec_val_Cons: "dec_val (c # s) = (char_code c - 48) * 10 ^ length s + dec_val s"
proof -
  have "foldl (\<lambda>a c. 10 * a + (char_code c - 48)) n s = n * 10 ^ length s + dec_val s" for n
    unfolding dec_val_def
  proof (induction s arbitrary: n)
    case (Cons d s)
    show ?case
      using Cons.IH [of "10 * n + (char_code d - 48)"] Cons.IH [of "char_code d - 48"]
      by (simp add: algebra_simps)
  qed simp
  from this [of "char_code c - 48"] show ?thesis by (simp add: dec_val_def)
qed

lemma dec_val_zeros [simp]: "dec_val (replicate k (CHR ''0'') @ s) = dec_val s"
  by (induction k) (simp_all add: dec_val_Cons char_code_def)

lemma dec_val_bound: "list_all is_digit s \<Longrightarrow> dec_val s < 10 ^ length s"
proof (induction s)
  case (Cons c s)
  then have "(char_code c - 48) * 10 ^ length s \<le> 9 * 10 ^ length s"
    by (intro mult_right_mono) (auto simp: is_digit_def)
  moreover have "dec_val s < 10 ^ length s" using Cons by simp
  ultimately show ?case by (simp only: dec_val_Cons length_Cons power_Suc)
qed simp

text \<open>Digit strings of one length compare like their values.\<close>

lemma digits_less:
  "length s = length t \<Longrightarrow> list_all is_digit s \<Longrightarrow> list_all is_digit t \<Longrightarrow> s < t \<longleftrightarrow> dec_val s < dec_val t"
proof (induction s t rule: list_induct2)
  case (Cons c s d t)
  let ?p = "(10::nat) ^ length t"
  have b: "dec_val s < ?p" "dec_val t < ?p"
    using dec_val_bound [of s] dec_val_bound [of t] Cons by simp_all
  have big: "x * ?p + u < y * ?p + v" if "x < y" "u < ?p" for x y u v :: nat
  proof -
    have "x * ?p + ?p \<le> y * ?p" using that(1) by (metis Suc_leI add.commute mult_Suc mult_le_mono1)
    with that(2) show ?thesis by linarith
  qed
  have codes: "48 \<le> char_code c" "48 \<le> char_code d" using Cons.prems by (auto simp: is_digit_def)
  consider "c < d" | "c = d" | "d < c" by fastforce
  then show ?case
  proof cases
    case 1
    with codes big [of "char_code c - 48" "char_code d - 48"] b Cons.hyps show ?thesis
      by (simp add: dec_val_Cons less_char_code)
  next
    case 2
    with Cons show ?thesis by (simp add: dec_val_Cons)
  next
    case 3
    then have "\<not> c # s < d # t" by auto
    moreover have "dec_val (d # t) < dec_val (c # s)"
      using 3 codes big [of "char_code d - 48" "char_code c - 48"] b Cons.hyps
      by (simp add: dec_val_Cons less_char_code)
    ultimately show ?thesis by simp
  qed
qed simp

definition key_digits :: "'d workload \<Rightarrow> u64 \<Rightarrow> string" where
  "key_digits w n =
     replicate (nat (max 0 (wl_zero_padding w - int (length (nat_dec (unat n)))))) (CHR ''0'') @
     nat_dec (unat n)"

lemma BuildKeyName_digits:
  "BuildKeyName w k = ''user'' @ key_digits w (if wl_ordered w then k else Hash k)"
  by (simp add: BuildKeyName_def key_digits_def Let_def)

lemma key_digits_props [simp]:
  "dec_val (key_digits w n) = unat n" "list_all is_digit (key_digits w n)"
  using nat_dec_digits [of "unat n"]
  by (auto simp: key_digits_def list_all_iff is_digit_def char_code_def)

lemma key_digits_inject [simp]: "key_digits w m = key_digits w n \<longleftrightarrow> m = n"
  by (metis key_digits_props(1) word_unat_eq_iff)

lemma BuildKeyName_no_nul [simp]: "CHR 0x00 \<notin> set (BuildKeyName w k)"
proof
  assume "CHR 0x00 \<in> set (BuildKeyName w k)"
  then have "CHR 0x00 \<in> set (key_digits w (if wl_ordered w then k else Hash k))"
    by (auto simp: BuildKeyName_digits)
  with key_digits_props(2) have "is_digit (CHR 0x00)" by (metis list_all_iff)
  then show False by (simp add: is_digit_def char_code_def)
qed

text \<open>What \<open>BuildValues\<close> generates has no NUL in it, and it leaves the key generator alone.\<close>

lemma random_value_run:
  assumes "random_value fp s = (Inr v, t)"
  shows "CHR 0x00 \<notin> set v \<and> wl_key_gen (fst t) = wl_key_gen (fst s)"
proof -
  obtain n t1 c where n: "draw_field_len fp s = (Inr n, t1)" "draw_char t1 = (Inr c, t)"
      and v: "v = replicate (unat n) c"
    using assms by (auto simp: random_value_def bindM_result_Inr retM_def)
  from n(2) obtain r where "c = RandomPrintChar r" and t: "wl_key_gen (fst t) = wl_key_gen (fst t1)"
    by (auto simp: draw_char_def onM_def NextPrintChar_def Let_def retM_def split: prod.splits)
  then have "33 \<le> char_code c" using RandomPrintChar_printable [of r] by simp
  then have "CHR 0x00 \<noteq> c" by (auto simp: char_code_def)
  moreover have "wl_key_gen (fst t1) = wl_key_gen (fst s)"
    using n(1) by (auto simp: draw_field_len_def wl_draw_def split: prod.splits)
  ultimately show ?thesis using v t by simp
qed

lemma build_fields_run:
  "build_fields fp is s = (Inr vs, t) \<Longrightarrow>
     (\<forall>p \<in> set vs. CHR 0x00 \<notin> set (snd p)) \<and> wl_key_gen (fst t) = wl_key_gen (fst s)"
  by (induction "is" arbitrary: s vs t) (fastforce simp: bindM_result_Inr retM_def dest: random_value_run)+

text \<open>
  Different key numbers get different key names, except for collisions of the hash when keys are
  hashed: the zero padding never makes two numbers look alike.
\<close>

theorem BuildKeyName_injective:
  "BuildKeyName w a = BuildKeyName w b \<longleftrightarrow> (if wl_ordered w then a = b else Hash a = Hash b)"
  by (simp add: BuildKeyName_digits)

text \<open>
  With ordered keys and enough zero padding the order of the key names, which the databases sort
  and scan by, is the order of the key numbers.
\<close>

theorem BuildKeyName_order:
  assumes "wl_ordered w" and "int (length (nat_dec (unat a))) \<le> wl_zero_padding w"
    and "int (length (nat_dec (unat b))) \<le> wl_zero_padding w"
  shows "BuildKeyName w a < BuildKeyName w b \<longleftrightarrow> a < b"
proof -
  have "length (key_digits w a) = length (key_digits w b)"
    using assms(2,3) by (simp add: key_digits_def)
  from digits_less [OF this] show ?thesis
    using assms(1) by (simp add: BuildKeyName_digits word_less_nat_alt)
qed

section \<open>A workload for examples\<close>

definition toy_keys :: uniform_gen where
  "toy_keys = \<lparr>u_engine = sconst 123, u_min = 0, u_max = 9, u_last = 0\<rparr>"

definition toy_workload :: "rat workload" where
  "toy_workload =
     \<lparr>wl_table = ''usertable'', wl_field_count = 2, wl_read_all = False, wl_write_all = False,
      wl_field_len = ConstGenerator 3, wl_key_gen = CounterGenerator 0,
      wl_op_chooser = AddValue toy_fp READ 1 (discrete_new toy_fp),
      wl_key_chooser = UniformGenerator toy_keys,
      wl_field_chooser = UniformGenerator \<lparr>u_engine = sconst 5, u_min = 0, u_max = 1, u_last = 0\<rparr>,
      wl_scan_len = ConstGenerator 1, wl_insert_seq = 10, wl_ordered = True, wl_record_count = 10,
      wl_zero_padding = 4\<rparr>"

theorem BuildKeyName_order_witness: "BuildKeyName toy_workload 9 < BuildKeyName toy_workload 10"
proof -
  have "length (nat_dec 9) = 1" "length (nat_dec 10) = 2"
    by (simp_all add: nat_dec.simps)
  then show ?thesis
    using BuildKeyName_order [of toy_workload 9 10] by (simp add: toy_workload_def)
qed

section \<open>What the choices promise\<close>

text \<open>The property that sets the proportion of an operation, with its default.\<close>

fun op_property :: "operation \<Rightarrow> string \<times> string" where
  "op_property READ = (''readproportion'', ''0.95'')"
| "op_property UPDATE = (''updateproportion'', ''0.05'')"
| "op_property INSERT = (''insertproportion'', ''0.0'')"
| "op_property SCAN = (''scanproportion'', ''0.0'')"
| "op_property READMODIFYWRITE = (''readmodifywriteproportion'', ''0.0'')"

definition op_configured :: "'d fp \<Rightarrow> props \<Rightarrow> operation \<Rightarrow> bool" where
  "op_configured fp p oper \<longleftrightarrow>
     (\<exists>x. proportion fp p (fst (op_property oper)) (snd (op_property oper)) = Inr x \<and>
        f_less fp (f_lit fp 0) x)"

lemma add_if_positive_values:
  "v \<in> fst ` set (d_values (add_if_positive fp oper x g)) \<longleftrightarrow>
     v \<in> fst ` set (d_values g) \<or> (f_less fp (f_lit fp 0) x \<and> v = oper)"
  by (auto simp: add_if_positive_def AddValue_def Let_def)

lemma Init_op_chooser:
  assumes "Init fp mt p e = (Inr w, e')"
  shows "\<forall>oper \<in> fst ` set (d_values (wl_op_chooser w)). op_configured fp p oper"
proof -
  from assms obtain r u i s m where props:
      "proportion fp p ''readproportion'' ''0.95'' = Inr r" "proportion fp p ''updateproportion'' ''0.05'' = Inr u"
      "proportion fp p ''insertproportion'' ''0.0'' = Inr i" "proportion fp p ''scanproportion'' ''0.0'' = Inr s"
      "proportion fp p ''readmodifywriteproportion'' ''0.0'' = Inr m"
      and w: "wl_op_chooser w = add_if_positive fp READMODIFYWRITE m (add_if_positive fp SCAN s
        (add_if_positive fp INSERT i (add_if_positive fp UPDATE u (add_if_positive fp READ r (discrete_new fp)))))"
    by (auto simp: Init_def bindM_result_Inr liftM_def retM_def Let_def)
  show ?thesis
    unfolding w
  proof
    fix oper
    assume "oper \<in> fst ` set (d_values (add_if_positive fp READMODIFYWRITE m (add_if_positive fp SCAN s
        (add_if_positive fp INSERT i (add_if_positive fp UPDATE u (add_if_positive fp READ r (discrete_new fp)))))))"
    then show "op_configured fp p oper"
      unfolding add_if_positive_values using props
      by (auto simp: op_configured_def discrete_new_def)
  qed
qed

section \<open>The type of a workload\<close>

definition key_chooser_typed :: "props \<Rightarrow> u64 \<Rightarrow> 'd generator \<Rightarrow> bool" where
  "key_chooser_typed p record_count g \<longleftrightarrow>
     (let distr = GetProperty p ''requestdistribution'' ''uniform'' in
      (distr = ''uniform'' \<and> is_uniform 0 (record_count - 1) g) \<or>
      (distr = ''zipfian'' \<and> is_scrambled g) \<or>
      (distr = ''latest'' \<and> is_skewed (record_count - 1) g))"

definition length_typed :: "string \<Rightarrow> bool \<Rightarrow> int \<Rightarrow> 'd generator \<Rightarrow> bool" where
  "length_typed distr fixed n g \<longleftrightarrow>
     (distr = ''constant'' \<and> fixed \<and> g = ConstGenerator (word_of_int n)) \<or>
     (distr = ''uniform'' \<and> is_uniform 1 (word_of_int n) g) \<or>
     (distr = ''zipfian'' \<and> is_zipfian 1 (word_of_int n) g)"

text \<open>
  What a workload that was set up from the properties \<open>p\<close> is, for as long as it is used.
\<close>

definition wl_typed :: "'d fp \<Rightarrow> props \<Rightarrow> 'd workload \<Rightarrow> bool" where
  "wl_typed fp p w \<longleftrightarrow>
     wl_table w = GetProperty p ''table'' ''usertable'' \<and>
     stoi (GetProperty p ''fieldcount'' ''10'') = Inr (wl_field_count w) \<and>
     stoi (GetProperty p ''zeropadding'' ''1'') = Inr (wl_zero_padding w) \<and>
     (\<exists>rc. stoi (GetProperty p ''recordcount'' '''') = Inr rc \<and> wl_record_count w = word_of_int rc) \<and>
     wl_insert_seq w = wl_record_count w \<and>
     (wl_ordered w \<longleftrightarrow> GetProperty p ''insertorder'' ''hashed'' \<noteq> ''hashed'') \<and>
     StrToBool (GetProperty p ''readallfields'' ''true'') = Inr (wl_read_all w) \<and>
     StrToBool (GetProperty p ''writeallfields'' ''false'') = Inr (wl_write_all w) \<and>
     is_counter (wl_key_gen w) \<and>
     is_uniform 0 (word_of_int (wl_field_count w - 1)) (wl_field_chooser w) \<and>
     key_chooser_typed p (wl_record_count w) (wl_key_chooser w) \<and>
     (\<exists>n. stoi (GetProperty p ''fieldlength'' ''100'') = Inr n \<and>
        length_typed (GetProperty p ''field_len_dist'' ''constant'') True n (wl_field_len w)) \<and>
     (\<exists>n. stoi (GetProperty p ''maxscanlength'' ''1000'') = Inr n \<and>
        length_typed (GetProperty p ''scanlengthdistribution'' ''uniform'') False n (wl_scan_len w)) \<and>
     (\<forall>oper \<in> fst ` set (d_values (wl_op_chooser w)). op_configured fp p oper)"

lemma wl_typed_config:
  assumes "same_config w w'"
  shows "wl_typed fp p w' = wl_typed fp p w"
proof -
  have c: "gen_conf (wl_key_gen w') = gen_conf (wl_key_gen w)"
      "gen_conf (wl_field_len w') = gen_conf (wl_field_len w)"
      "gen_conf (wl_key_chooser w') = gen_conf (wl_key_chooser w)"
      "gen_conf (wl_field_chooser w') = gen_conf (wl_field_chooser w)"
      "gen_conf (wl_scan_len w') = gen_conf (wl_scan_len w)"
    using assms by (simp_all add: same_config_def)
  show ?thesis
    using assms
    by (simp add: wl_typed_def same_config_def key_chooser_typed_def length_typed_def
        gen_conf_kinds [OF c(1)] gen_conf_kinds [OF c(2)] gen_conf_kinds [OF c(3)]
        gen_conf_kinds [OF c(4)] gen_conf_kinds [OF c(5)])
qed

lemma GetFieldLenGenerator_typed:
  assumes "GetFieldLenGenerator fp mt p e = (Inr g, e')"
  shows "\<exists>n. stoi (GetProperty p ''fieldlength'' ''100'') = Inr n \<and>
    length_typed (GetProperty p ''field_len_dist'' ''constant'') True n g"
  using assms
  by (auto simp: GetFieldLenGenerator_def Let_def bindM_result_Inr liftM_def retM_def throwM_def
      length_typed_def new_Const_def new_kinds(1) dest: new_kinds(2) split: if_splits)

lemma key_chooser_for_typed:
  assumes "key_chooser_for fp mt p (GetProperty p ''requestdistribution'' ''uniform'') rc ip e = (Inr g, e')"
  shows "key_chooser_typed p rc g"
  using assms
  by (auto simp: key_chooser_for_def Let_def bindM_result_Inr liftM_def retM_def throwM_def
      key_chooser_typed_def new_kinds(1) counter_Last_def dest: new_kinds(3) new_kinds(4) split: if_splits)

lemma scan_len_chooser_for_typed:
  assumes "scan_len_chooser_for fp mt distr n e = (Inr g, e')"
  shows "length_typed distr False n g"
  using assms
  by (auto simp: scan_len_chooser_for_def retM_def throwM_def length_typed_def new_kinds(1)
      dest: new_kinds(2) split: if_splits)

lemma Init_typed:
  assumes "Init fp mt p e = (Inr w, e')"
  shows "wl_typed fp p w"
  using assms Init_op_chooser [OF assms]
  by (auto simp: Init_def bindM_result_Inr liftM_def retM_def Let_def wl_typed_def is_counter_def
      counter_Set_def new_kinds(1) dest: GetFieldLenGenerator_typed key_chooser_for_typed
      scan_len_chooser_for_typed)

lemma toy_numbers:
  "stoi ''10'' = Inr 10" "stoi ''100'' = Inr 100" "stoi ''1'' = Inr 1" "stoi ''1000'' = Inr 1000"
  "stoi ''0'' = Inr 0"
  by (simp_all add: stoi_def is_space_def is_digit_def char_code_def dec_val_def int_min_def int_max_def)

definition toy_props :: props where
  "toy_props = [''recordcount'' \<mapsto> ''10'']"

lemma toy_Init: "\<exists>w. Init toy_fp (sconst 7) toy_props toy_env = (Inr w, toy_env)"
  by (simp add: toy_props_def Init_def GetProperty_def GetFieldLenGenerator_def toy_numbers liftM_def bindM_def
      retM_def proportion_def toy_fp_def StrToBool_def to_lower_def char_code_def key_chooser_for_def
      scan_len_chooser_for_def)

lemma toy_typed:
  "\<exists>w. Init toy_fp (sconst 7) toy_props toy_env = (Inr w, toy_env) \<and> wl_typed toy_fp toy_props w \<and>
     wl_field_count w = 10"
proof -
  obtain w where w: "Init toy_fp (sconst 7) toy_props toy_env = (Inr w, toy_env)" using toy_Init by blast
  from Init_typed [OF w] have "wl_typed toy_fp toy_props w" .
  moreover from this have "wl_field_count w = 10"
    by (simp add: wl_typed_def toy_props_def GetProperty_def toy_numbers)
  ultimately show ?thesis using w by blast
qed

lemma operation_drawn:
  assumes "wl_typed fp p w" and "NextOperation fp (w, e) = (r, (w', e'))"
  shows "r = Inl AssertFailed \<or> (\<exists>oper. r = Inr oper \<and> op_configured fp p oper)"
proof -
  have "\<forall>oper \<in> fst ` set (d_values (wl_op_chooser w)). op_configured fp p oper"
    using assms(1) unfolding wl_typed_def by blast
  then show ?thesis
    using assms(2) by (auto simp: NextOperation_def discrete_Next_run Let_def dest!: discrete_pick_mem
        split: option.splits)
qed

lemma operation_configured:
  "wl_typed fp p w \<Longrightarrow> NextOperation fp (w, e) = (Inr oper, (w', e')) \<Longrightarrow> op_configured fp p oper"
  using operation_drawn by fastforce

text \<open>
  A workload that was set up from a property file only ever chooses operations whose configured
  proportion is positive, for every random number and in every floating-point arithmetic; the choice
  fails only by the assertion at the end of the loop over the weights, and the workload stays what it
  was set up as.
\<close>

theorem NextOperation_configured:
  assumes "wl_typed fp p w" and "NextOperation fp (w, e) = (r, (w', e'))"
  shows "(r = Inl AssertFailed \<or> (\<exists>oper. r = Inr oper \<and> op_configured fp p oper)) \<and> wl_typed fp p w'"
  using operation_drawn [OF assms] wl_typed_config [OF keepsD [OF keeps_NextOperation assms(2)], of fp p]
    assms(1)
  by simp

theorem NextOperation_configured_witness:
  "\<exists>w r w' e'. Init toy_fp (sconst 7) toy_props toy_env = (Inr w, toy_env) \<and>
     NextOperation toy_fp (w, toy_env) = (r, (w', e')) \<and>
     (r = Inl AssertFailed \<or> (\<exists>oper. r = Inr oper \<and> op_configured toy_fp toy_props oper))"
proof -
  obtain w where w: "Init toy_fp (sconst 7) toy_props toy_env = (Inr w, toy_env)" "wl_typed toy_fp toy_props w"
    using toy_typed by blast
  obtain r w' e' where r: "NextOperation toy_fp (w, toy_env) = (r, (w', e'))" by (metis prod_cases3)
  from NextOperation_configured [OF w(2) r] w r show ?thesis by blast
qed

lemma key_inserted_le: "key_inserted w k \<Longrightarrow> k \<le> wl_insert_seq w - 1"
  by (simp add: key_inserted_def counter_Last_def not_less)

lemma draw_key_uniform:
  assumes "wl_key_chooser w = UniformGenerator u" and "u_min u \<le> u_max u"
  shows "\<exists>v u'. draw_key fp (w, e) = (Inr v, (w\<lparr>wl_key_chooser := UniformGenerator u'\<rparr>, e)) \<and>
    u_min u \<le> v \<and> v \<le> u_max u"
  using assms uniform_dist_range [OF assms(2)]
  by (auto simp: draw_key_def wl_draw_def gen_Next_def uniform_Next_def Let_def)

lemma BuildKeyName_config: "same_config w w' \<Longrightarrow> BuildKeyName w' k = BuildKeyName w k"
  by (simp add: same_config_def BuildKeyName_def)

lemma NextTransactionKey_cases:
  "NextTransactionKey fp fuel (w, e) = (Inr key, t) \<longleftrightarrow>
     (\<exists>k. draw_until (draw_key fp) (key_inserted w) fuel (w, e) = (Inr k, t) \<and> key = BuildKeyName w k)"
  using keepsD [OF keeps_draw_until [OF keeps_draws(1), of fp "key_inserted w" fuel], of "(w, e)"]
  by (fastforce simp: NextTransactionKey_def bindM_result_Inr getM_def BuildKeyName_config
      split: prod.splits)

lemma transaction_key:
  assumes "NextTransactionKey fp fuel (w, e) = (Inr key, t)"
  shows "\<exists>k \<le> wl_insert_seq w - 1. key = BuildKeyName w k"
proof -
  from assms obtain k where k: "draw_until (draw_key fp) (key_inserted w) fuel (w, e) = (Inr k, t)"
      "key = BuildKeyName w k" unfolding NextTransactionKey_cases by blast
  from key_inserted_le [OF draw_until_accepts [OF k(1)]] k(2) show ?thesis by blast
qed

lemma transaction_key_mono:
  "NextTransactionKey fp fuel (w, e) = (Inr key, t) \<Longrightarrow> fuel \<le> fuel' \<Longrightarrow>
     NextTransactionKey fp fuel' (w, e) = (Inr key, t)"
  unfolding NextTransactionKey_cases by (blast intro: draw_until_mono)

text \<open>
  With uniformly chosen keys the retry loop of a workload set up from a property file ends in its
  first round, whatever the random numbers: the key is one of those inserted at initialisation. With
  any distribution a key that is returned is one of these, and more rounds do not change it.
\<close>

theorem NextTransactionKey_inserted:
  assumes "wl_typed fp p w"
  shows "(GetProperty p ''requestdistribution'' ''uniform'' = ''uniform'' \<longrightarrow>
      (\<exists>k t. NextTransactionKey fp (Suc fuel) (w, e) = (Inr (BuildKeyName w k), t) \<and>
        k \<le> wl_record_count w - 1)) \<and>
    (\<forall>rounds key t. NextTransactionKey fp rounds (w, e) = (Inr key, t) \<longrightarrow>
      (\<exists>k \<le> wl_record_count w - 1. key = BuildKeyName w k) \<and>
      (\<forall>more \<ge> rounds. NextTransactionKey fp more (w, e) = (Inr key, t)))"
proof -
  have seq: "wl_insert_seq w = wl_record_count w" using assms by (simp add: wl_typed_def)
  show ?thesis
  proof (intro conjI impI allI)
    assume "GetProperty p ''requestdistribution'' ''uniform'' = ''uniform''"
    with assms obtain u where u: "wl_key_chooser w = UniformGenerator u" "u_min u = 0"
        "u_max u = wl_insert_seq w - 1"
      by (auto simp: wl_typed_def key_chooser_typed_def is_uniform_def)
    obtain v u' where v: "draw_key fp (w, e) = (Inr v, (w\<lparr>wl_key_chooser := UniformGenerator u'\<rparr>, e))"
        "v \<le> wl_insert_seq w - 1"
      using draw_key_uniform [OF u(1), of fp e] u(2,3) by auto
    then have "key_inserted w v" by (simp add: key_inserted_def counter_Last_def)
    with v(1) have "draw_until (draw_key fp) (key_inserted w) (Suc fuel) (w, e) =
        (Inr v, (w\<lparr>wl_key_chooser := UniformGenerator u'\<rparr>, e))"
      by (simp add: bindM_Inr retM_def)
    then have "NextTransactionKey fp (Suc fuel) (w, e) =
        (Inr (BuildKeyName w v), (w\<lparr>wl_key_chooser := UniformGenerator u'\<rparr>, e))"
      unfolding NextTransactionKey_cases by blast
    with v(2) seq show "\<exists>k t. NextTransactionKey fp (Suc fuel) (w, e) = (Inr (BuildKeyName w k), t) \<and>
        k \<le> wl_record_count w - 1" by auto
  next
    fix rounds key t
    assume r: "NextTransactionKey fp rounds (w, e) = (Inr key, t)"
    from transaction_key [OF r] seq show "\<exists>k \<le> wl_record_count w - 1. key = BuildKeyName w k" by simp
    show "NextTransactionKey fp more (w, e) = (Inr key, t)" if "rounds \<le> more" for more
      by (rule transaction_key_mono [OF r that])
  qed
qed

theorem NextTransactionKey_inserted_witness:
  "\<exists>w k t. Init toy_fp (sconst 7) toy_props toy_env = (Inr w, toy_env) \<and>
     NextTransactionKey toy_fp 1 (w, toy_env) = (Inr (BuildKeyName w k), t) \<and> k \<le> wl_record_count w - 1"
proof -
  obtain w where w: "Init toy_fp (sconst 7) toy_props toy_env = (Inr w, toy_env)" "wl_typed toy_fp toy_props w"
    using toy_typed by blast
  have "GetProperty toy_props ''requestdistribution'' ''uniform'' = ''uniform''"
    by (simp add: GetProperty_def toy_props_def)
  with NextTransactionKey_inserted [OF w(2), of 0 toy_env] w(1) show ?thesis
    unfolding One_nat_def by blast
qed

lemma draw_field_uniform:
  assumes "wl_field_chooser w = UniformGenerator u" and "u_min u \<le> u_max u"
  shows "\<exists>v u'. draw_field fp (w, e) = (Inr v, (w\<lparr>wl_field_chooser := UniformGenerator u'\<rparr>, e)) \<and>
    u_min u \<le> v \<and> v \<le> u_max u"
  using assms uniform_dist_range [OF assms(2)]
  by (auto simp: draw_field_def wl_draw_def gen_Next_def uniform_Next_def Let_def)

text \<open>
  Generated records fit the table. The fields of \<open>BuildValues\<close> are the columns of the table in
  their order, and the field of \<open>BuildUpdate\<close> is one of the columns, for every workload that was set
  up with a positive number of fields.
\<close>

theorem built_fields_are_columns:
  assumes "wl_typed fp p w" and "0 < wl_field_count w"
  shows "(\<forall>vs t. BuildValues fp (w, e) = (Inr vs, t) \<longrightarrow>
      Tables w = [Table (wl_table w) (map fst vs)]) \<and>
    (\<forall>vs t. BuildUpdate fp (w, e) = (Inr vs, t) \<longrightarrow>
      (\<exists>f v. vs = [(f, v)] \<and> f \<in> set (table_columns (hd (Tables w)))))"
proof (intro conjI allI impI)
  fix vs t
  assume "BuildValues fp (w, e) = (Inr vs, t)"
  from BuildValues_columns [OF this] show "Tables w = [Table (wl_table w) (map fst vs)]" by simp
next
  fix vs t
  assume run: "BuildUpdate fp (w, e) = (Inr vs, t)"
  obtain u where u: "wl_field_chooser w = UniformGenerator u" "u_min u = 0"
      "u_max u = word_of_int (wl_field_count w - 1)" and small: "wl_field_count w \<le> int_max"
    using assms(1) stoi_range by (fastforce simp: wl_typed_def is_uniform_def)
  obtain n u' where n: "draw_field fp (w, e) = (Inr n, (w\<lparr>wl_field_chooser := UniformGenerator u'\<rparr>, e))"
      "n \<le> word_of_int (wl_field_count w - 1)"
    using draw_field_uniform [OF u(1), of fp e] u(2,3) by auto
  have "uint (word_of_int (wl_field_count w - 1) :: u64) = wl_field_count w - 1"
    using assms(2) small by (simp only: uint_word_of_int) (simp add: int_max_def)
  with n(2) have "uint n \<le> wl_field_count w - 1" by (simp only: word_le_def)
  then have "unat n < nat (wl_field_count w)"
    using assms(2) by (simp only: unat_eq_nat_uint)
  then have "field_name (unat n) \<in> set (table_columns (hd (Tables w)))" by (simp add: Tables_def)
  moreover obtain v where "vs = [(field_name (unat n), v)]"
    using run by (auto simp: BuildUpdate_def NextFieldName_def bindM_result_Inr retM_def n(1))
  ultimately show "\<exists>f v. vs = [(f, v)] \<and> f \<in> set (table_columns (hd (Tables w)))" by blast
qed

lemma BuildUpdate_runs:
  assumes "is_uniform mn mx (wl_field_chooser w)" and "wl_field_len w = ConstGenerator c"
  shows "\<exists>vs t. BuildUpdate fp (w, e) = (Inr vs, t)"
proof -
  obtain u where "wl_field_chooser w = UniformGenerator u" using assms(1) by (auto simp: is_uniform_def)
  with assms(2) show ?thesis
    by (simp add: BuildUpdate_def NextFieldName_def random_value_def draw_field_def draw_field_len_def
        draw_char_def wl_draw_def gen_Next_def uniform_Next_def Let_def NextPrintChar_def bindM_def
        retM_def onM_def)
qed

theorem built_fields_are_columns_witness:
  "\<exists>w f v t. Init toy_fp (sconst 7) toy_props toy_env = (Inr w, toy_env) \<and>
     BuildUpdate toy_fp (w, toy_env) = (Inr [(f, v)], t) \<and> f \<in> set (table_columns (hd (Tables w)))"
proof -
  obtain w where w: "Init toy_fp (sconst 7) toy_props toy_env = (Inr w, toy_env)"
      "wl_typed toy_fp toy_props w" "wl_field_count w = 10"
    using toy_typed by blast
  obtain vs t where run: "BuildUpdate toy_fp (w, toy_env) = (Inr vs, t)"
    using w(2) BuildUpdate_runs [of _ _ w] 
    by (fastforce simp: wl_typed_def length_typed_def toy_props_def GetProperty_def)
  then obtain f v where "vs = [(f, v)] \<and> f \<in> set (table_columns (hd (Tables w)))"
    using built_fields_are_columns [OF w(2), of toy_env] w(3) by auto
  with w(1) run show ?thesis by blast
qed

end
