(* ===== verification/Client.thy ===== *)
theory Client
  imports Workload
begin

text \<open>
  \<open>server/ycsbc-l4/core/client.h\<close>: the benchmark client that turns the choices of the workload into
  calls of a database backend, and \<open>DelegateClient\<close> of \<open>ycsbc-l4.cc\<close>, the loop of one client thread.
  The backend is any record of operations \<open>db_ops\<close>.
\<close>

record ('d, 'db) client =
  c_wl :: "'d workload"
  c_env :: "'d env"
  c_db :: 'db

type_synonym ('d, 'db, 'a) client_op = "(('d, 'db) client, 'a) op"

definition on_wl :: "('d, 'a) wl_op \<Rightarrow> ('d, 'db, 'a) client_op" where
  "on_wl m = onM (\<lambda>c. (c_wl c, c_env c)) (\<lambda>(w, e) c. c\<lparr>c_wl := w, c_env := e\<rparr>) m"

definition on_db :: "('db, 'a) op \<Rightarrow> ('d, 'db, 'a) client_op" where
  "on_db m = onM c_db (\<lambda>d c. c\<lparr>c_db := d\<rparr>) m"

definition DoInsert :: "'d fp \<Rightarrow> 'db db_ops \<Rightarrow> ('d, 'db, bool) client_op" where
  "DoInsert fp ops =
     bindM (on_wl (NextSequenceKey fp)) (\<lambda>key.
     bindM (on_wl (BuildValues fp)) (\<lambda>pairs.
     bindM (on_wl NextTable) (\<lambda>table.
     bindM (on_db (op_Insert ops table key pairs)) (\<lambda>rc. retM (rc = kOK)))))"

text \<open>The field list of a read: one prefixed field name, or none at all for all fields.\<close>

definition request_fields :: "'d fp \<Rightarrow> ('d, 'db, string list option) client_op" where
  "request_fields fp =
     bindM (getM (\<lambda>c. wl_read_all (c_wl c))) (\<lambda>all.
     if \<not> all then bindM (on_wl (NextFieldName fp)) (\<lambda>f. retM (Some [''field'' @ f]))
     else retM None)"

definition request_values :: "'d fp \<Rightarrow> ('d, 'db, fieldvals) client_op" where
  "request_values fp =
     bindM (getM (\<lambda>c. wl_write_all (c_wl c))) (\<lambda>all.
     if all then on_wl (BuildValues fp) else on_wl (BuildUpdate fp))"

definition TransactionRead :: "'d fp \<Rightarrow> nat \<Rightarrow> 'db db_ops \<Rightarrow> ('d, 'db, int) client_op" where
  "TransactionRead fp fuel ops =
     bindM (on_wl NextTable) (\<lambda>table.
     bindM (on_wl (NextTransactionKey fp fuel)) (\<lambda>key.
     bindM (request_fields fp) (\<lambda>flds.
     bindM (on_db (op_Read ops table key flds [])) (\<lambda>(rc, result). retM rc))))"

definition TransactionReadModifyWrite :: "'d fp \<Rightarrow> nat \<Rightarrow> 'db db_ops \<Rightarrow> ('d, 'db, int) client_op" where
  "TransactionReadModifyWrite fp fuel ops =
     bindM (on_wl NextTable) (\<lambda>table.
     bindM (on_wl (NextTransactionKey fp fuel)) (\<lambda>key.
     bindM (request_fields fp) (\<lambda>flds.
     bindM (on_db (op_Read ops table key flds [])) (\<lambda>_.
     bindM (request_values fp) (\<lambda>values.
     on_db (op_Update ops table key values))))))"

text \<open>\<open>size_t\<close> converted to \<open>int\<close> when the scan length is passed on.\<close>

definition size_to_int :: "u64 \<Rightarrow> int" where
  "size_to_int n = sint (ucast n :: u32)"

definition TransactionScan :: "'d fp \<Rightarrow> nat \<Rightarrow> 'db db_ops \<Rightarrow> ('d, 'db, int) client_op" where
  "TransactionScan fp fuel ops =
     bindM (on_wl NextTable) (\<lambda>table.
     bindM (on_wl (NextTransactionKey fp fuel)) (\<lambda>key.
     bindM (on_wl (NextScanLength fp)) (\<lambda>len.
     bindM (request_fields fp) (\<lambda>flds.
     bindM (on_db (op_Scan ops table key (size_to_int len) flds [])) (\<lambda>(rc, result). retM rc)))))"

definition TransactionUpdate :: "'d fp \<Rightarrow> nat \<Rightarrow> 'db db_ops \<Rightarrow> ('d, 'db, int) client_op" where
  "TransactionUpdate fp fuel ops =
     bindM (on_wl NextTable) (\<lambda>table.
     bindM (on_wl (NextTransactionKey fp fuel)) (\<lambda>key.
     bindM (request_values fp) (\<lambda>values.
     on_db (op_Update ops table key values))))"

definition TransactionInsert :: "'d fp \<Rightarrow> 'db db_ops \<Rightarrow> ('d, 'db, int) client_op" where
  "TransactionInsert fp ops =
     bindM (on_wl NextTable) (\<lambda>table.
     bindM (on_wl (NextSequenceKey fp)) (\<lambda>key.
     bindM (on_wl (BuildValues fp)) (\<lambda>values.
     on_db (op_Insert ops table key values))))"

definition transaction :: "'d fp \<Rightarrow> nat \<Rightarrow> 'db db_ops \<Rightarrow> operation \<Rightarrow> ('d, 'db, int) client_op" where
  "transaction fp fuel ops oper =
     (case oper of
        READ \<Rightarrow> TransactionRead fp fuel ops
      | UPDATE \<Rightarrow> TransactionUpdate fp fuel ops
      | INSERT \<Rightarrow> TransactionInsert fp ops
      | SCAN \<Rightarrow> TransactionScan fp fuel ops
      | READMODIFYWRITE \<Rightarrow> TransactionReadModifyWrite fp fuel ops)"

definition DoTransaction :: "'d fp \<Rightarrow> nat \<Rightarrow> 'db db_ops \<Rightarrow> ('d, 'db, bool) client_op" where
  "DoTransaction fp fuel ops =
     bindM (on_wl (NextOperation fp)) (\<lambda>oper.
     bindM (transaction fp fuel ops oper) (\<lambda>status.
     if status < 0 then throwM AssertFailed else retM (status = kOK)))"

text \<open>
  The loop of \<open>DelegateClient\<close>, with the number of rounds left and the count of successes so far.
\<close>

primrec client_loop :: "('s, bool) op \<Rightarrow> nat \<Rightarrow> int \<Rightarrow> ('s, int) op" where
  "client_loop m 0 oks = retM oks"
| "client_loop m (Suc n) oks = bindM m (\<lambda>ok. client_loop m n (oks + (if ok then 1 else 0)))"

text \<open>One turn of the thread body, in either phase.\<close>

definition turn :: "'d fp \<Rightarrow> nat \<Rightarrow> 'db db_ops \<Rightarrow> bool \<Rightarrow> ('d, 'db, bool) client_op" where
  "turn fp fuel ops is_loading = (if is_loading then DoInsert fp ops else DoTransaction fp fuel ops)"

text \<open>
  \<open>DelegateClient\<close>: \<open>db->Init\<close> and \<open>db->Close\<close> are the backend's, and \<open>run_thread\<close> is what the scheduler
  answers when the thread is sent to a CPU.
\<close>

definition DelegateClient ::
  "'d fp \<Rightarrow> nat \<Rightarrow> 'db db_ops \<Rightarrow> (u64 \<Rightarrow> int) \<Rightarrow> (u64 \<Rightarrow> ('db, unit) op) \<Rightarrow> ('db, unit) op \<Rightarrow>
     int \<Rightarrow> bool \<Rightarrow> u64 \<Rightarrow> u64 \<Rightarrow> ('d, 'db, int) client_op" where
  "DelegateClient fp fuel ops run_thread dbInit dbClose num_ops is_loading cpu db_cpu =
     thenM (liftM (migrate (run_thread cpu)))
    (thenM (on_db (dbInit db_cpu))
    (bindM (client_loop (turn fp fuel ops is_loading) (nat num_ops) 0)
      (\<lambda>oks. thenM (on_db dbClose) (retM oks))))"

lemma client_loop_bounds:
  "client_loop m n oks s = (Inr r, t) \<Longrightarrow> oks \<le> r \<and> r \<le> oks + int n"
  by (induction n arbitrary: oks s)
    (auto simp: bindM_result_Inr retM_def split: if_splits, (fastforce)+)

section \<open>What a client never changes\<close>

text \<open>The operations of a client keep the configuration of the workload, whatever the backend does.\<close>

definition client_keeps :: "('d, 'db, 'a) client_op \<Rightarrow> bool" where
  "client_keeps m \<longleftrightarrow> (\<forall>c. same_config (c_wl c) (c_wl (snd (m c))))"

named_theorems client_keep \<open>client operations that keep the configuration\<close>

lemma client_keepsD: "client_keeps m \<Longrightarrow> m c = (r, d) \<Longrightarrow> same_config (c_wl c) (c_wl d)"
  by (metis client_keeps_def snd_conv)

lemma client_keeps_pure [client_keep]:
  "client_keeps (retM x)" "client_keeps (getM f)" "client_keeps (throwM err)" "client_keeps (on_db m)" "client_keeps (liftM res)"
  by (simp_all add: client_keeps_def op_simps on_db_def onM_def split: prod.split)

lemma client_keeps_on_wl [client_keep]: "keeps_config m \<Longrightarrow> client_keeps (on_wl m)"
  by (auto simp: client_keeps_def on_wl_def onM_def split: prod.split dest: keepsD)

lemma client_keeps_bindM [client_keep]:
  assumes m: "client_keeps m" and f: "\<And>x. client_keeps (f x)"
  shows "client_keeps (bindM m f)"
  unfolding client_keeps_def
proof
  fix c
  obtain r d where r: "m c = (r, d)" by (metis surj_pair)
  from client_keepsD [OF m r] have st: "same_config (c_wl c) (c_wl d)" .
  show "same_config (c_wl c) (c_wl (snd (bindM m f c)))"
  proof (cases r)
    case (Inl err)
    with r st show ?thesis by (simp add: bindM_Inl)
  next
    case (Inr x)
    with r same_config_trans [OF st] f show ?thesis by (simp add: bindM_Inr client_keeps_def)
  qed
qed

lemma client_keeps_if [client_keep]:
  "client_keeps m \<Longrightarrow> client_keeps n \<Longrightarrow> client_keeps (if b then m else n)"
  by simp

lemma client_keeps_parts [client_keep]:
  "client_keeps (request_fields fp)" "client_keeps (request_values fp)"
  unfolding request_fields_def request_values_def by (intro client_keep keeps)+

lemma client_keeps_transaction [client_keep]: "client_keeps (transaction fp fuel ops oper)"
  unfolding transaction_def TransactionRead_def TransactionUpdate_def TransactionInsert_def
    TransactionScan_def TransactionReadModifyWrite_def
  by (cases oper) (auto intro!: client_keep keeps split: prod.split)

lemma client_keeps_turns [client_keep]:
  "client_keeps (DoInsert fp ops)" "client_keeps (DoTransaction fp fuel ops)"
  unfolding DoInsert_def DoTransaction_def by (intro client_keep keeps)+

lemma client_keeps_loop [client_keep]: "client_keeps m \<Longrightarrow> client_keeps (client_loop m n oks)"
  by (induction n arbitrary: oks) (auto intro!: client_keep)

lemma client_keeps_DelegateClient [client_keep]:
  "client_keeps (DelegateClient fp fuel ops run_thread dbInit dbClose num_ops is_loading cpu db_cpu)"
  unfolding DelegateClient_def turn_def thenM_def by (intro client_keep)

section \<open>What the client asks for\<close>

lemma prefixed_no_column: "''field'' @ field_name n \<noteq> field_name m"
proof
  assume "''field'' @ field_name n = field_name m"
  then have "nat_dec m = ''field'' @ nat_dec n" by (simp add: field_name_def)
  then have "CHR ''f'' \<in> set (nat_dec m)" by simp
  from nat_dec_chars [OF this] show False by (simp add: is_digit_def char_code_def)
qed

text \<open>
  C37: A transaction that reads one field never names a column of the table: the field name that the
  workload gives is prefixed a second time, and no column is called that way. With all fields asked
  for, it passes no field list.
\<close>

theorem request_fields_no_column:
  assumes "request_fields fp c = (Inr flds, c')"
  shows "if wl_read_all (c_wl c) then flds = None
    else \<exists>f. flds = Some [f] \<and> f \<notin> set (table_columns (hd (Tables (c_wl c))))"
proof (cases "wl_read_all (c_wl c)")
  case True
  with assms show ?thesis by (simp add: request_fields_def bindM_def getM_def retM_def)
next
  case False
  with assms obtain f d where f: "on_wl (NextFieldName fp) c = (Inr f, d)" "flds = Some [''field'' @ f]"
    by (auto simp: request_fields_def bindM_result_Inr getM_def retM_def)
  then obtain n where "f = field_name n"
    by (auto simp: on_wl_def onM_result NextFieldName_def bindM_result_Inr retM_def)
  then have "''field'' @ f \<notin> set (table_columns (hd (Tables (c_wl c))))"
    using prefixed_no_column by (auto simp: Tables_def)
  with False f show ?thesis by simp
qed

theorem request_fields_no_column_witness:
  "\<exists>c' f. request_fields toy_fp \<lparr>c_wl = toy_workload, c_env = toy_env, c_db = ()\<rparr> = (Inr (Some [f]), c') \<and>
     f \<notin> set (table_columns (hd (Tables toy_workload)))"
proof -
  let ?c = "\<lparr>c_wl = toy_workload, c_env = toy_env, c_db = ()\<rparr>"
  have "wl_field_chooser toy_workload = UniformGenerator \<lparr>u_engine = sconst 5, u_min = 0, u_max = 1, u_last = 0\<rparr>"
    and read_all: "\<not> wl_read_all (c_wl ?c)" by (simp_all add: toy_workload_def)
  then obtain v w where "draw_field toy_fp (toy_workload, toy_env) = (Inr v, (w, toy_env))"
    using draw_field_uniform [of toy_workload _ toy_fp toy_env] by fastforce
  then obtain flds c' where r: "request_fields toy_fp ?c = (Inr flds, c')"
    using read_all
    by (simp add: request_fields_def bindM_def getM_def retM_def on_wl_def onM_def NextFieldName_def)
  from request_fields_no_column [OF r] read_all obtain f where
    "flds = Some [f]" "f \<notin> set (table_columns (hd (Tables toy_workload)))" by auto
  with r show ?thesis by blast
qed

section \<open>What the client calls\<close>

text \<open>
  One turn of a client on its workload, of any kind and with any outcome.
\<close>

definition client_turn :: "'d fp \<Rightarrow> nat \<Rightarrow> 'db db_ops \<Rightarrow> ('d, 'db) client \<Rightarrow> ('d, 'db) client \<Rightarrow> bool" where
  "client_turn fp fuel ops c d \<longleftrightarrow> d = snd (DoInsert fp ops c) \<or> d = snd (DoTransaction fp fuel ops c)"

lemma client_turn_config: "client_turn fp fuel ops c d \<Longrightarrow> same_config (c_wl c) (c_wl d)"
  by (auto simp: client_turn_def intro: client_keeps_turns [unfolded client_keeps_def, rule_format])

lemma client_turns_config: "(client_turn fp fuel ops)\<^sup>*\<^sup>* c d \<Longrightarrow> same_config (c_wl c) (c_wl d)"
  by (induction rule: rtranclp_induct) (auto intro: same_config_trans client_turn_config)

text \<open>A backend that accepts everything and stores nothing, for examples.\<close>

definition null_ops :: "unit db_ops" where
  "null_ops =
     \<lparr>op_Read = \<lambda>_ _ _ res. retM (kOK, res), op_Scan = \<lambda>_ _ _ _ res. retM (kOK, res),
      op_Update = \<lambda>_ _ _. retM kOK, op_Insert = \<lambda>_ _ _. retM kOK, op_Delete = \<lambda>_ _. retM kOK\<rparr>"



lemma on_wl_result:
  "on_wl m c = (r, d) \<Longrightarrow> \<exists>w e. m (c_wl c, c_env c) = (r, (w, e)) \<and> d = c\<lparr>c_wl := w, c_env := e\<rparr>"
  by (auto simp: on_wl_def onM_def split: prod.splits)

lemma on_db_result:
  "on_db m c = (r, d) \<Longrightarrow> \<exists>b. m (c_db c) = (r, b) \<and> d = c\<lparr>c_db := b\<rparr>"
  by (auto simp: on_db_def onM_def split: prod.splits)

text \<open>What a workload operation of a client leaves: the backend, and the configuration.\<close>

lemma on_wl_keeps:
  assumes "keeps_config m" and "on_wl m c = (r, d)"
  shows "c_db d = c_db c \<and> same_config (c_wl c) (c_wl d)"
  using on_wl_result [OF assms(2)] keepsD [OF assms(1)] by fastforce

lemma NextTable_result: "on_wl NextTable c = (Inr t, d) \<Longrightarrow> t = wl_table (c_wl c) \<and> d = c"
  by (auto dest!: on_wl_result simp: NextTable_def getM_def)

lemma key_result:
  assumes "on_wl (NextTransactionKey fp fuel) c = (Inr key, d)"
  shows "\<exists>k \<le> wl_insert_seq (c_wl c) - 1. key = BuildKeyName (c_wl c) k"
  using on_wl_result [OF assms] transaction_key by blast

lemma sequence_result:
  assumes "on_wl (NextSequenceKey fp) c = (Inr key, d)"
  shows "\<exists>k. key = BuildKeyName (c_wl c) k"
proof -
  from on_wl_result [OF assms] obtain w e where
    "NextSequenceKey fp (c_wl c, c_env c) = (Inr key, (w, e))" by blast
  then obtain k w1 e1 where k: "draw_sequence fp (c_wl c, c_env c) = (Inr k, (w1, e1))"
      "key = BuildKeyName w1 k"
    by (auto simp: NextSequenceKey_def bindM_result_Inr getM_def)
  with BuildKeyName_config [OF keepsD [OF keeps_draws(2) k(1)]] show ?thesis by auto
qed

text \<open>
  The calls of one transaction: \<open>b\<close> and \<open>b'\<close> are the backend before and after, \<open>w\<close> the workload.
\<close>

definition a_key :: "'d workload \<Rightarrow> string \<Rightarrow> bool" where
  "a_key w key \<longleftrightarrow> (\<exists>k \<le> wl_insert_seq w - 1. key = BuildKeyName w k)"

fun calls_of :: "'db db_ops \<Rightarrow> operation \<Rightarrow> 'd workload \<Rightarrow> 'db \<Rightarrow> int \<Rightarrow> 'db \<Rightarrow> bool" where
  "calls_of ops READ w b rc b' \<longleftrightarrow>
     (\<exists>key flds res. a_key w key \<and> op_Read ops (wl_table w) key flds [] b = (Inr (rc, res), b'))"
| "calls_of ops SCAN w b rc b' \<longleftrightarrow>
     (\<exists>key len flds res. a_key w key \<and> op_Scan ops (wl_table w) key len flds [] b = (Inr (rc, res), b'))"
| "calls_of ops UPDATE w b rc b' \<longleftrightarrow>
     (\<exists>key vs. a_key w key \<and> op_Update ops (wl_table w) key vs b = (Inr rc, b'))"
| "calls_of ops INSERT w b rc b' \<longleftrightarrow>
     (\<exists>k vs. Tables w = [Table (wl_table w) (map fst vs)] \<and>
        op_Insert ops (wl_table w) (BuildKeyName w k) vs b = (Inr rc, b'))"
| "calls_of ops READMODIFYWRITE w b rc b' \<longleftrightarrow>
     (\<exists>key flds res b1 vs. a_key w key \<and> op_Read ops (wl_table w) key flds [] b = (Inr res, b1) \<and>
        op_Update ops (wl_table w) key vs b1 = (Inr rc, b'))"

lemma request_fields_db:
  assumes "request_fields fp c = (r, d)"
  shows "c_db d = c_db c"
proof (cases "wl_read_all (c_wl c)")
  case True
  with assms show ?thesis by (simp add: request_fields_def bindM_def getM_def retM_def)
next
  case False
  obtain r1 d1 where n: "on_wl (NextFieldName fp) c = (r1, d1)" by fastforce
  from False assms n have "d = d1"
    by (auto simp: request_fields_def bindM_def getM_def retM_def split: sum.splits)
  with on_wl_keeps [OF keeps_choices(3) n] show ?thesis by simp
qed

lemma request_values_db: "request_values fp c = (r, d) \<Longrightarrow> c_db d = c_db c"
  using on_wl_keeps [OF keeps_BuildValues, of fp c r d] on_wl_keeps [OF keeps_BuildUpdate, of fp c r d]
  by (auto simp: request_values_def bindM_def getM_def split: if_splits)

lemma record_result:
  assumes "on_wl (BuildValues fp) c = (Inr vs, d)"
  shows "Tables (c_wl c) = [Table (wl_table (c_wl c)) (map fst vs)]"
  using on_wl_result [OF assms] BuildValues_columns [of fp "(c_wl c, c_env c)" vs] by auto

lemma a_key_config: "same_config w w' \<Longrightarrow> a_key w' key = a_key w key"
  by (simp add: a_key_def BuildKeyName_config) (simp add: same_config_def)

lemma Tables_config: "same_config w w' \<Longrightarrow> Tables w' = Tables w \<and> wl_table w' = wl_table w"
  by (simp add: same_config_def Tables_def)

text \<open>The two steps that open every transaction on an existing record.\<close>

lemma target_result:
  assumes "bindM (on_wl NextTable) (\<lambda>table. bindM (on_wl (NextTransactionKey fp fuel)) (f table)) c = (Inr rc, d)"
  shows "\<exists>key c1. a_key (c_wl c) key \<and> c_db c1 = c_db c \<and> same_config (c_wl c) (c_wl c1) \<and>
    f (wl_table (c_wl c)) key c1 = (Inr rc, d)"
proof -
  from assms obtain key c1 where key: "on_wl (NextTransactionKey fp fuel) c = (Inr key, c1)"
    and f: "f (wl_table (c_wl c)) key c1 = (Inr rc, d)"
    unfolding bindM_result_Inr by (auto dest!: NextTable_result)
  from key_result [OF key] on_wl_keeps [OF keeps_NextTransactionKey key] f show ?thesis
    by (auto simp: a_key_def)
qed

lemma transaction_calls:
  assumes "transaction fp fuel ops oper c = (Inr rc, d)"
  shows "calls_of ops oper (c_wl c) (c_db c) rc (c_db d)"
proof (cases oper)
  case READ
  with assms obtain key c1 flds c2 res where "a_key (c_wl c) key" "c_db c1 = c_db c"
      "request_fields fp c1 = (Inr flds, c2)" "on_db (op_Read ops (wl_table (c_wl c)) key flds []) c2 = (Inr (rc, res), d)"
    by (auto simp: transaction_def TransactionRead_def dest!: target_result) (auto simp: bindM_result_Inr retM_def)
  then show ?thesis using READ request_fields_db by (fastforce dest!: on_db_result)
next
  case SCAN
  with assms obtain key c1 len c2 flds c3 res where k: "a_key (c_wl c) key" "c_db c1 = c_db c"
      and len: "on_wl (NextScanLength fp) c1 = (Inr len, c2)" and flds: "request_fields fp c2 = (Inr flds, c3)"
      and db: "on_db (op_Scan ops (wl_table (c_wl c)) key (size_to_int len) flds []) c3 = (Inr (rc, res), d)"
    by (auto simp: transaction_def TransactionScan_def dest!: target_result) (auto simp: bindM_result_Inr retM_def)
  from on_wl_keeps [OF keeps_choices(4) len] request_fields_db [OF flds] k on_db_result [OF db] show ?thesis
    using SCAN by fastforce
next
  case UPDATE
  with assms obtain key c1 vs c2 where "a_key (c_wl c) key" "c_db c1 = c_db c"
      "request_values fp c1 = (Inr vs, c2)" "on_db (op_Update ops (wl_table (c_wl c)) key vs) c2 = (Inr rc, d)"
    by (auto simp: transaction_def TransactionUpdate_def dest!: target_result) (auto simp: bindM_result_Inr)
  then show ?thesis using UPDATE request_values_db by (fastforce dest!: on_db_result)
next
  case READMODIFYWRITE
  with assms obtain key c1 flds c2 res c3 vs c4 where k: "a_key (c_wl c) key" "c_db c1 = c_db c"
      and flds: "request_fields fp c1 = (Inr flds, c2)"
      and rd: "on_db (op_Read ops (wl_table (c_wl c)) key flds []) c2 = (Inr res, c3)"
      and vs: "request_values fp c3 = (Inr vs, c4)"
      and up: "on_db (op_Update ops (wl_table (c_wl c)) key vs) c4 = (Inr rc, d)"
    by (auto simp: transaction_def TransactionReadModifyWrite_def dest!: target_result) (auto simp: bindM_result_Inr)
  from on_db_result [OF rd] obtain b where "op_Read ops (wl_table (c_wl c)) key flds [] (c_db c2) = (Inr res, b)"
      "c3 = c2\<lparr>c_db := b\<rparr>" by blast
  moreover from on_db_result [OF up] obtain b' where
      "op_Update ops (wl_table (c_wl c)) key vs (c_db c4) = (Inr rc, b')" "d = c4\<lparr>c_db := b'\<rparr>" by blast
  ultimately have "a_key (c_wl c) key \<and> op_Read ops (wl_table (c_wl c)) key flds [] (c_db c) = (Inr res, b) \<and>
      op_Update ops (wl_table (c_wl c)) key vs b = (Inr rc, c_db d)"
    using k request_fields_db [OF flds] request_values_db [OF vs] by simp
  then show ?thesis unfolding READMODIFYWRITE calls_of.simps by blast
next
  case INSERT
  with assms obtain key c1 vs c2 where seq: "on_wl (NextSequenceKey fp) c = (Inr key, c1)"
      and vs: "on_wl (BuildValues fp) c1 = (Inr vs, c2)"
      and db: "on_db (op_Insert ops (wl_table (c_wl c)) key vs) c2 = (Inr rc, d)"
    by (auto simp: transaction_def TransactionInsert_def bindM_result_Inr dest!: NextTable_result)
  from sequence_result [OF seq] on_wl_keeps [OF keeps_choices(2) seq] on_wl_keeps [OF keeps_BuildValues vs]
    record_result [OF vs] Tables_config on_db_result [OF db]
  show ?thesis using INSERT by fastforce
qed

text \<open>
  A transaction that returns has performed exactly the operation it drew, which is a configured
  one, with one call of the backend, two for read-modify-write: on the configured table, for the key
  of a record that was inserted at initialisation, or, for an insert, for a key of the sequence with
  a value for each column. It counts as successful exactly when the backend's last status is
  \<open>kOK\<close>, and the status is not negative.
\<close>

theorem DoTransaction_calls:
  assumes "wl_typed fp p (c_wl c)" and "DoTransaction fp fuel ops c = (Inr ok, d)"
  shows "\<exists>oper rc. op_configured fp p oper \<and> 0 \<le> rc \<and> ok = (rc = kOK) \<and>
    calls_of ops oper (c_wl c) (c_db c) rc (c_db d)"
proof -
  from assms(2) obtain oper c1 rc where oper: "on_wl (NextOperation fp) c = (Inr oper, c1)"
      and tr: "transaction fp fuel ops oper c1 = (Inr rc, d)" and rc: "0 \<le> rc" "ok = (rc = kOK)"
    by (auto simp: DoTransaction_def bindM_result_Inr throwM_def retM_def split: if_splits)
  from on_wl_keeps [OF keeps_NextOperation oper] have c1: "c_db c1 = c_db c" "same_config (c_wl c) (c_wl c1)" by auto
  from on_wl_result [OF oper] obtain w e where "NextOperation fp (c_wl c, c_env c) = (Inr oper, (w, e))" by blast
  from operation_configured [OF assms(1) this] have "op_configured fp p oper" .
  moreover have "calls_of ops oper (c_wl c) (c_db c) rc (c_db d)"
    using transaction_calls [OF tr] c1 by (cases oper) (simp_all add: a_key_config Tables_config BuildKeyName_config)
  ultimately show ?thesis using rc by blast
qed

lemma toy_transaction:
  assumes "Init toy_fp (sconst 7) toy_props toy_env = (Inr w, toy_env)"
  shows "\<exists>d. DoTransaction toy_fp 1 null_ops \<lparr>c_wl = w, c_env = toy_env, c_db = ()\<rparr> = (Inr True, d)"
  using assms
  by (auto simp: toy_props_def Init_def GetProperty_def GetFieldLenGenerator_def toy_numbers liftM_def
      bindM_def retM_def proportion_def toy_fp_def toy_env_def StrToBool_def to_lower_def char_code_def
      key_chooser_for_def scan_len_chooser_for_def new_Uniform_def new_Const_def uniform_new_def
      uniform_Next_def uniform_dist_def add_if_positive_def AddValue_def discrete_new_def counter_Set_def
      DoTransaction_def on_wl_def onM_def NextOperation_def discrete_Next_run Let_def transaction_def
      TransactionUpdate_def NextTable_def getM_def NextTransactionKey_def draw_key_def wl_draw_def
      gen_Next_def key_inserted_def counter_Last_def request_values_def BuildUpdate_def
      NextFieldName_def draw_field_def random_value_def draw_field_len_def draw_char_def
      NextPrintChar_def null_ops_def on_db_def kOK_def)

theorem DoTransaction_calls_witness:
  "\<exists>w d oper rc. DoTransaction toy_fp 1 null_ops \<lparr>c_wl = w, c_env = toy_env, c_db = ()\<rparr> = (Inr True, d) \<and>
     op_configured toy_fp toy_props oper \<and> rc = kOK \<and> calls_of null_ops oper w () rc (c_db d)"
proof -
  obtain w where w: "Init toy_fp (sconst 7) toy_props toy_env = (Inr w, toy_env)" "wl_typed toy_fp toy_props w"
    using toy_typed by blast
  let ?c = "\<lparr>c_wl = w, c_env = toy_env, c_db = ()\<rparr>"
  obtain d where d: "DoTransaction toy_fp 1 null_ops ?c = (Inr True, d)" using toy_transaction [OF w(1)] by blast
  have "wl_typed toy_fp toy_props (c_wl ?c)" using w(2) by simp
  from DoTransaction_calls [OF this d] d show ?thesis by auto
qed

end
