(* ===== verification/StlHashtable.thy ===== *)
theory StlHashtable
  imports Prelude "HOL-Library.Multiset"
begin

text \<open>
  \<open>server/ycsbc-l4/lib/string.h\<close> and \<open>server/ycsbc-l4/lib/stl_hashtable.h\<close>: hashed C strings and the
  hash table keyed by them. The locale \<open>string_table\<close> is the abstract class \<open>StringHashtable\<close> of
  \<open>lib/string_hashtable.h\<close> with its laws; \<open>StlHashtable\<close> is its interpretation.

  A C string is the list of its characters before the NUL. A \<open>std::unordered_map\<close> is the list of
  its elements in iteration order. Where an insertion puts the elements is not specified by C++, so
  it is a parameter: \<open>layout\<close> ranks the keys, and the new order is the elements sorted by rank. Every
  order of the elements is the order of some rank.
\<close>

section \<open>Hashed strings\<close>

record vmp_string =
  str_hash :: u64
  str_value :: string
  str_len :: nat

text \<open>
  The loop of \<open>SDBMHash\<close>: \<open>char\<close> is signed on the target, so a byte above 127 is sign-extended.
\<close>

definition char_u64 :: "char \<Rightarrow> u64" where
  "char_u64 c = signed (word_of_nat (char_code c) :: u8)"

primrec sdbm_loop :: "u64 \<Rightarrow> string \<Rightarrow> u64" where
  "sdbm_loop hash [] = hash"
| "sdbm_loop hash (c # cs) =
     sdbm_loop (char_u64 c + push_bit 6 hash + push_bit 16 hash - hash) cs"

definition SDBMHash :: "string \<Rightarrow> u64" where
  "SDBMHash cstr = sdbm_loop 0 cstr"

definition set_value :: "string \<Rightarrow> vmp_string" where
  "set_value v = \<lparr>str_hash = SDBMHash v, str_value = v, str_len = length v\<rparr>"

text \<open>\<open>Wrap\<close> refers to the caller's characters, \<open>Copy\<close> to a fresh copy of them.\<close>

definition Wrap :: "string \<Rightarrow> vmp_string" where
  "Wrap cstr = set_value cstr"

definition Copy :: "string \<Rightarrow> vmp_string" where
  "Copy cstr = set_value cstr"

definition str_equal :: "vmp_string \<Rightarrow> vmp_string \<Rightarrow> bool" where
  "str_equal a b = (if str_hash a \<noteq> str_hash b then False else str_value a = str_value b)"

definition str_wf :: "vmp_string \<Rightarrow> bool" where
  "str_wf s \<longleftrightarrow> s = set_value (str_value s)"

lemma str_wf_set_value [simp]: "str_wf (set_value v)" "str_wf (Wrap v)" "str_wf (Copy v)"
  by (simp_all add: str_wf_def set_value_def Wrap_def Copy_def)

lemma str_value_simps [simp]:
  "str_value (set_value v) = v" "str_value (Wrap v) = v" "str_value (Copy v) = v"
  by (simp_all add: set_value_def Wrap_def Copy_def)

lemma str_equal_value: "str_wf a \<Longrightarrow> str_wf b \<Longrightarrow> str_equal a b \<longleftrightarrow> str_value a = str_value b"
  by (auto simp: str_wf_def str_equal_def set_value_def)

text \<open>The loop is Horner's rule for the sdbm multiplier.\<close>

lemma sdbm_step: "push_bit 6 (h::u64) + push_bit 16 h - h = 65599 * h"
  by (simp add: push_bit_eq_mult algebra_simps)

lemma sdbm_loop_horner:
  "sdbm_loop h cs = foldl (\<lambda>h c. 65599 * h + char_u64 c) h cs"
proof (induction cs arbitrary: h)
  case (Cons c cs)
  have "char_u64 c + push_bit 6 h + push_bit 16 h - h = (push_bit 6 h + push_bit 16 h - h) + char_u64 c"
    by (simp only: add_diff_eq diff_add_eq ac_simps)
  then show ?case by (simp only: sdbm_loop.simps foldl_Cons sdbm_step Cons)
qed simp

section \<open>The hash table\<close>

type_synonym 'v table = "(vmp_string \<times> 'v) list"

type_synonym layout = "string list \<Rightarrow> string \<Rightarrow> nat"

text \<open>\<open>table_.find\<close>: the iterator it returns, as the elements from the found one on.\<close>

definition ht_find :: "vmp_string \<Rightarrow> 'v table \<Rightarrow> 'v table" where
  "ht_find k t = dropWhile (\<lambda>e. \<not> str_equal (fst e) k) t"

text \<open>The elements before that iterator.\<close>

definition ht_before :: "vmp_string \<Rightarrow> 'v table \<Rightarrow> 'v table" where
  "ht_before k t = takeWhile (\<lambda>e. \<not> str_equal (fst e) k) t"

definition ht_keys :: "'v table \<Rightarrow> string list" where
  "ht_keys t = map (\<lambda>e. str_value (fst e)) t"

definition ht_place :: "layout \<Rightarrow> vmp_string \<times> 'v \<Rightarrow> 'v table \<Rightarrow> 'v table" where
  "ht_place lay e t = sort_key (\<lambda>x. lay (ht_keys (e # t)) (str_value (fst x))) (e # t)"

definition ht_Get :: "string \<Rightarrow> 'v table \<Rightarrow> 'v option" where
  "ht_Get key t = (case ht_find (Wrap key) t of [] \<Rightarrow> None | e # _ \<Rightarrow> Some (snd e))"

text \<open>\<open>Insert\<close>, with \<open>None\<close> for a null key.\<close>

definition ht_Insert :: "layout \<Rightarrow> string option \<Rightarrow> 'v \<Rightarrow> 'v table \<Rightarrow> bool \<times> 'v table" where
  "ht_Insert lay key val t =
     (case key of
        None \<Rightarrow> (False, t)
      | Some k \<Rightarrow>
          let skey = Copy k
          in case ht_find skey t of
               [] \<Rightarrow> (True, ht_place lay (skey, val) t)
             | _ \<Rightarrow> (False, t))"

definition ht_Update :: "string \<Rightarrow> 'v \<Rightarrow> 'v table \<Rightarrow> 'v option \<times> 'v table" where
  "ht_Update key val t =
     (case ht_find (Wrap key) t of
        [] \<Rightarrow> (None, t)
      | e # post \<Rightarrow> (Some (snd e), ht_before (Wrap key) t @ (fst e, val) # post))"

definition ht_Remove :: "string \<Rightarrow> 'v table \<Rightarrow> 'v option \<times> 'v table" where
  "ht_Remove key t =
     (case ht_find (Wrap key) t of
        [] \<Rightarrow> (None, t)
      | e # post \<Rightarrow> (Some (snd e), ht_before (Wrap key) t @ post))"

text \<open>\<open>Entries\<close>: at most \<open>n\<close> elements in iteration order, from the start or from a key.\<close>

definition ht_Entries :: "string option \<Rightarrow> u64 \<Rightarrow> 'v table \<Rightarrow> (string \<times> 'v) list" where
  "ht_Entries key n t =
     (let pos = (case key of None \<Rightarrow> t | Some k \<Rightarrow> ht_find (Wrap k) t)
      in map (\<lambda>e. (str_value (fst e), snd e)) (take (unat n) pos))"

definition ht_Size :: "'v table \<Rightarrow> nat" where
  "ht_Size t = length t"

section \<open>The contract of \<open>StringHashtable\<close>\<close>

text \<open>
  A table stands for a partial map from C strings to values. \<open>ents\<close> with no key lists it whole.
\<close>

locale string_table =
  fixes get :: "string \<Rightarrow> 't \<Rightarrow> 'v option"
    and ins :: "string \<Rightarrow> 'v \<Rightarrow> 't \<Rightarrow> bool \<times> 't"
    and upd :: "string \<Rightarrow> 'v \<Rightarrow> 't \<Rightarrow> 'v option \<times> 't"
    and rem :: "string \<Rightarrow> 't \<Rightarrow> 'v option \<times> 't"
    and ents :: "'t \<Rightarrow> (string \<times> 'v) list"
    and mp :: "'t \<Rightarrow> string \<rightharpoonup> 'v"
    and inv :: "'t \<Rightarrow> bool"
  assumes get_law: "inv t \<Longrightarrow> get k t = mp t k"
    and ins_flag: "inv t \<Longrightarrow> fst (ins k v t) \<longleftrightarrow> mp t k = None"
    and ins_map: "inv t \<Longrightarrow> mp (snd (ins k v t)) = (if mp t k = None then (mp t)(k \<mapsto> v) else mp t)"
    and upd_old: "inv t \<Longrightarrow> fst (upd k v t) = mp t k"
    and upd_map: "inv t \<Longrightarrow> mp (snd (upd k v t)) = (if mp t k = None then mp t else (mp t)(k \<mapsto> v))"
    and rem_old: "inv t \<Longrightarrow> fst (rem k t) = mp t k"
    and rem_map: "inv t \<Longrightarrow> mp (snd (rem k t)) = (mp t)(k := None)"
    and ents_map: "inv t \<Longrightarrow> map_of (ents t) = mp t"
    and ents_distinct: "inv t \<Longrightarrow> distinct (map fst (ents t))"
    and ins_inv: "inv t \<Longrightarrow> inv (snd (ins k v t))"
    and upd_inv: "inv t \<Longrightarrow> inv (snd (upd k v t))"
    and rem_inv: "inv t \<Longrightarrow> inv (snd (rem k t))"
begin

text \<open>The idiom of the database layer: update the entry, insert it when there was none.\<close>

definition put_entry :: "string \<Rightarrow> 'v \<Rightarrow> 't \<Rightarrow> 't" where
  "put_entry k v t = (case upd k v t of (None, t') \<Rightarrow> snd (ins k v t') | (Some _, t') \<Rightarrow> t')"

lemma put_entry_inv: "inv t \<Longrightarrow> inv (put_entry k v t)"
  using ins_inv [of "snd (upd k v t)" k v] upd_inv [of t k v]
  by (auto simp: put_entry_def split: prod.splits option.splits)

lemma put_entry_map: "inv t \<Longrightarrow> mp (put_entry k v t) = (mp t)(k \<mapsto> v)"
  using upd_inv [of t k v] upd_old [of t k v] upd_map [of t k v]
    ins_map [of "snd (upd k v t)" k v]
  by (auto simp: put_entry_def split: prod.splits option.splits)

lemma get_after_put: "inv t \<Longrightarrow> get j (put_entry k v t) = (if j = k then Some v else get j t)"
  by (simp add: get_law put_entry_inv put_entry_map)

lemma ents_set: "inv t \<Longrightarrow> (k, v) \<in> set (ents t) \<longleftrightarrow> get k t = Some v"
  by (simp add: get_law ents_distinct ents_map [symmetric] map_of_eq_Some_iff)

end

section \<open>\<open>StlHashtable\<close> satisfies it\<close>

text \<open>Stored keys are well-formed strings and no two are equal.\<close>

definition ht_inv :: "'v table \<Rightarrow> bool" where
  "ht_inv t \<longleftrightarrow> list_all (\<lambda>e. str_wf (fst e)) t \<and> distinct (ht_keys t)"

definition ht_map :: "'v table \<Rightarrow> string \<rightharpoonup> 'v" where
  "ht_map t = map_of (map (\<lambda>e. (str_value (fst e), snd e)) t)"

lemma ht_inv_Nil [simp]: "ht_inv []"
  by (simp add: ht_inv_def ht_keys_def)

lemma ht_map_Nil [simp]: "ht_map [] = Map.empty"
  by (simp add: ht_map_def)

lemma ht_keys_simps [simp]:
  "ht_keys [] = []" "ht_keys (e # t) = str_value (fst e) # ht_keys t"
  "ht_keys (s @ t) = ht_keys s @ ht_keys t"
  by (simp_all add: ht_keys_def)

lemma ht_inv_simps:
  "ht_inv (e # t) \<longleftrightarrow> str_wf (fst e) \<and> str_value (fst e) \<notin> set (ht_keys t) \<and> ht_inv t"
  "ht_inv (s @ t) \<longleftrightarrow> ht_inv s \<and> ht_inv t \<and> set (ht_keys s) \<inter> set (ht_keys t) = {}"
  by (auto simp: ht_inv_def)

lemma ht_map_simps:
  "ht_map (e # t) = (ht_map t)(str_value (fst e) \<mapsto> snd e)"
  "ht_map (s @ t) = ht_map t ++ ht_map s"
  by (simp_all add: ht_map_def)

lemma dom_ht_map: "dom (ht_map t) = set (ht_keys t)"
  by (auto simp: ht_map_def ht_keys_def dom_map_of_conv_image_fst image_image)

lemma ht_map_None: "ht_map t k = None \<longleftrightarrow> k \<notin> set (ht_keys t)"
  by (metis dom_ht_map domIff)

text \<open>
  The iterator of \<open>find\<close> splits the table at the key, for both ways a key object is made.
\<close>

lemma ht_find_cases:
  assumes "ht_inv t" and w: "str_wf w"
  obtains (absent) "ht_find w t = []" "ht_before w t = t" "ht_map t (str_value w) = None"
  | (found) e post where "ht_find w t = e # post" "t = ht_before w t @ e # post"
      "str_value (fst e) = str_value w" "ht_map t (str_value w) = Some (snd e)"
proof (cases "ht_find w t")
  case Nil
  then have no: "\<forall>e \<in> set t. \<not> str_equal (fst e) w" by (simp add: ht_find_def dropWhile_eq_Nil_conv)
  then have "str_value w \<notin> set (ht_keys t)"
    using assms by (auto simp: ht_inv_def list_all_iff ht_keys_def str_equal_value)
  moreover have "ht_before w t = t" using no by (simp add: ht_before_def takeWhile_eq_all_conv)
  ultimately show ?thesis using Nil absent by (simp add: ht_map_None)
next
  case (Cons e post)
  have split: "t = ht_before w t @ e # post"
    using Cons by (simp add: ht_find_def ht_before_def) (metis takeWhile_dropWhile_id)
  have "str_equal (fst e) w"
    using Cons by (metis ht_find_def hd_dropWhile list.distinct(1) list.sel(1))
  moreover have "str_wf (fst e)"
    using assms(1) by (subst (asm) split) (simp add: ht_inv_simps)
  ultimately have e: "str_value (fst e) = str_value w" using w by (simp add: str_equal_value)
  have "str_value w \<notin> set (ht_keys (ht_before w t))"
    using assms(1) by (subst (asm) split) (auto simp: ht_inv_simps e)
  then have "ht_map (ht_before w t) (str_value w) = None" by (simp add: ht_map_None)
  then have "ht_map t (str_value w) = Some (snd e)"
    by (subst split) (simp add: ht_map_simps map_add_def e)
  with Cons split e found show ?thesis by blast
qed

lemma ht_map_mset:
  assumes "mset s = mset t" and "ht_inv t"
  shows "ht_inv s" and "ht_map s = ht_map t"
proof -
  have keys: "mset (ht_keys s) = mset (ht_keys t)"
    using assms(1) by (simp add: ht_keys_def mset_map)
  have dist: "distinct (ht_keys s)"
    using assms(2) keys by (metis ht_inv_def mset_eq_imp_distinct_iff)
  have set: "set s = set t" using assms(1) by (metis set_mset_mset)
  show "ht_inv s"
    using assms(2) dist set by (simp add: ht_inv_def list_all_iff)
  let ?f = "\<lambda>e. (str_value (fst e), snd e)"
  have "distinct (map fst (map ?f s))" "distinct (map fst (map ?f t))"
    using dist assms(2) by (simp_all add: ht_inv_def ht_keys_def o_def)
  moreover have "set (map ?f s) = set (map ?f t)" using set by simp
  ultimately show "ht_map s = ht_map t" unfolding ht_map_def by (rule map_of_inject_set [THEN iffD2])
qed

lemma ht_place_laws:
  assumes "ht_inv (e # t)"
  shows "ht_inv (ht_place lay e t)"
    and "ht_map (ht_place lay e t) = (ht_map t)(str_value (fst e) \<mapsto> snd e)"
proof -
  have "mset (ht_place lay e t) = mset (e # t)" by (simp add: ht_place_def)
  from ht_map_mset [OF this assms] show "ht_inv (ht_place lay e t)"
    and "ht_map (ht_place lay e t) = (ht_map t)(str_value (fst e) \<mapsto> snd e)"
    by (simp_all add: ht_map_simps)
qed

lemma ht_Get_map: "ht_inv t \<Longrightarrow> ht_Get k t = ht_map t k"
  by (erule ht_find_cases [OF _ str_wf_set_value(2) [of k]]) (simp_all add: ht_Get_def)

lemma ht_Insert_laws:
  assumes "ht_inv t"
  shows "(fst (ht_Insert lay (Some k) v t) \<longleftrightarrow> ht_map t k = None) \<and>
    ht_map (snd (ht_Insert lay (Some k) v t)) =
      (if ht_map t k = None then (ht_map t)(k \<mapsto> v) else ht_map t) \<and>
    ht_inv (snd (ht_Insert lay (Some k) v t))"
proof (rule ht_find_cases [OF assms str_wf_set_value(3) [of k]], goal_cases absent found)
  case absent
  then have "ht_inv ((Copy k, v) # t)" using assms by (simp add: ht_inv_simps ht_map_None)
  from ht_place_laws [OF this, of lay] absent show ?thesis by (simp add: ht_Insert_def)
next
  case (found e post)
  with assms show ?thesis by (simp add: ht_Insert_def)
qed

lemma ht_Update_laws:
  assumes "ht_inv t"
  shows "fst (ht_Update k v t) = ht_map t k \<and>
    ht_map (snd (ht_Update k v t)) = (if ht_map t k = None then ht_map t else (ht_map t)(k \<mapsto> v)) \<and>
    ht_inv (snd (ht_Update k v t)) \<and> ht_keys (snd (ht_Update k v t)) = ht_keys t"
proof (rule ht_find_cases [OF assms str_wf_set_value(2) [of k]], goal_cases absent found)
  case absent
  with assms show ?thesis by (simp add: ht_Update_def)
next
  case (found e post)
  let ?pre = "ht_before (Wrap k) t" and ?t = "ht_before (Wrap k) t @ (fst e, v) # post"
  have keys: "ht_keys ?t = ht_keys t"
    using arg_cong [OF found(2), of ht_keys] by simp
  have inv: "ht_inv ?t"
    using iffD1 [OF arg_cong [OF found(2), of ht_inv] assms] by (auto simp: ht_inv_simps)
  have e: "str_value (fst e) = k" using found(3) by simp
  from inv e have "k \<notin> set (ht_keys ?pre)" by (auto simp: ht_inv_simps)
  then have pre: "ht_map ?pre k = None" by (simp add: ht_map_None)
  have "ht_map ?t = (ht_map (?pre @ e # post))(k \<mapsto> v)"
    using pre e by (auto simp: ht_map_simps map_add_def fun_eq_iff split: option.splits)
  then have "ht_map ?t = (ht_map t)(k \<mapsto> v)" using found(2) by simp
  with found inv keys show ?thesis by (simp add: ht_Update_def)
qed

lemma ht_Remove_laws:
  assumes "ht_inv t"
  shows "fst (ht_Remove k t) = ht_map t k \<and>
    ht_map (snd (ht_Remove k t)) = (ht_map t)(k := None) \<and> ht_inv (snd (ht_Remove k t))"
proof (rule ht_find_cases [OF assms str_wf_set_value(2) [of k]], goal_cases absent found)
  case absent
  with assms show ?thesis by (auto simp: ht_Remove_def)
next
  case (found e post)
  let ?pre = "ht_before (Wrap k) t"
  have e: "str_value (fst e) = k" using found(3) by simp
  have inv: "ht_inv (?pre @ e # post)" using assms found(2) by simp
  then have "ht_map ?pre k = None" "ht_map post k = None"
    by (auto simp: ht_inv_simps ht_map_None e)
  then have "ht_map (?pre @ post) = (ht_map (?pre @ e # post))(k := None)"
    using e by (auto simp: ht_map_simps map_add_def fun_eq_iff split: option.splits)
  then have "ht_map (?pre @ post) = (ht_map t)(k := None)" using found(2) by simp
  moreover have "ht_inv (?pre @ post)" using inv by (auto simp: ht_inv_simps)
  ultimately show ?thesis using found by (simp add: ht_Remove_def)
qed

lemma ht_Entries_all:
  "length t < 2 ^ 64 \<Longrightarrow> ht_Entries None (- 1) t = map (\<lambda>e. (str_value (fst e), snd e)) t"
  by (simp add: ht_Entries_def unsigned_minus_1_eq_mask mask_nat_def)

text \<open>
  A table larger than the address space cannot exist, so the size bound is part of the invariant of
  the interpretation; the listing is the call \<open>Entries()\<close> with its default arguments.
\<close>

definition ht_list :: "'v table \<Rightarrow> (string \<times> 'v) list" where
  "ht_list t = map (\<lambda>e. (str_value (fst e), snd e)) t"

lemma ht_list_map: "ht_inv t \<Longrightarrow> map_of (ht_list t) = ht_map t \<and> distinct (map fst (ht_list t))"
  by (simp add: ht_list_def ht_map_def ht_inv_def ht_keys_def o_def)

interpretation stl: string_table ht_Get "\<lambda>k. ht_Insert lay (Some k)" ht_Update ht_Remove
  ht_list ht_map ht_inv for lay :: layout
  by unfold_locales
    (simp_all add: ht_Get_map ht_Insert_laws ht_Update_laws ht_Remove_laws ht_list_map)

section \<open>What the table promises\<close>



end
