(* ===== verification/HashtableDB.thy ===== *)
theory HashtableDB
  imports DbApi StlHashtable
begin

text \<open>
  \<open>server/ycsbc-l4/db/hashtable_db.cc\<close> and \<open>lock_stl_db.h\<close>: the in-memory database. A key table maps
  the concatenation of table name and key to the field table of the record. A field table that the
  code reaches through a pointer and changes in place is written back to its entry. Every operation
  of \<open>LockStlDB\<close> holds the lock from its first to its last access, so it is one atomic step.
\<close>

type_synonym field_table = "string table"
type_synonym key_table = "field_table table"

text \<open>\<open>CopyString\<close> copies with \<open>strcpy\<close>, up to the first NUL.\<close>

definition CopyString :: "string \<Rightarrow> string" where
  "CopyString str = c_str str"

definition key_index :: "string \<Rightarrow> string \<Rightarrow> string" where
  "key_index table key = table @ key"

definition size_t_max :: u64 where
  "size_t_max = - 1"

definition all_fields :: "field_table \<Rightarrow> fieldvals" where
  "all_fields ft = ht_Entries None size_t_max ft"

definition some_fields :: "string list \<Rightarrow> field_table \<Rightarrow> fieldvals" where
  "some_fields fs ft =
     List.map_filter (\<lambda>f. case ht_Get (c_str f) ft of None \<Rightarrow> None | Some v \<Rightarrow> Some (f, v)) fs"

definition hdb_Read ::
  "string \<Rightarrow> string \<Rightarrow> string list option \<Rightarrow> fieldvals \<Rightarrow> key_table \<Rightarrow> int \<times> fieldvals" where
  "hdb_Read table key flds result db =
     (case ht_Get (c_str (key_index table key)) db of
        None \<Rightarrow> (kErrorNoData, result)
      | Some ft \<Rightarrow>
          (kOK, case flds of None \<Rightarrow> all_fields ft | Some fs \<Rightarrow> some_fields fs ft))"

definition hdb_Scan ::
  "string \<Rightarrow> string \<Rightarrow> int \<Rightarrow> string list option \<Rightarrow> key_table \<Rightarrow> int \<times> fieldvals list" where
  "hdb_Scan table key len flds db =
     (let key_pairs = ht_Entries (Some (c_str (key_index table key))) (word_of_int len) db
      in (kOK, map (\<lambda>(_, ft).
            case flds of None \<Rightarrow> all_fields ft | Some fs \<Rightarrow> some_fields fs ft) key_pairs))"

text \<open>The field loop of \<open>Update\<close> on a record that was just created: a refused insertion is ignored.\<close>

primrec fill_fields :: "layout \<Rightarrow> fieldvals \<Rightarrow> field_table \<Rightarrow> field_table" where
  "fill_fields lay [] ft = ft"
| "fill_fields lay (p # ps) ft =
     fill_fields lay ps (snd (ht_Insert lay (Some (c_str (fst p))) (CopyString (snd p)) ft))"

text \<open>The field loop of \<open>Update\<close> on an existing record.\<close>

primrec update_fields :: "layout \<Rightarrow> fieldvals \<Rightarrow> field_table \<Rightarrow> field_table" where
  "update_fields lay [] ft = ft"
| "update_fields lay (p # ps) ft =
     (let val = CopyString (snd p)
      in case ht_Update (c_str (fst p)) val ft of
           (None, ft') \<Rightarrow> update_fields lay ps (snd (ht_Insert lay (Some (c_str (fst p))) val ft'))
         | (Some old, ft') \<Rightarrow> update_fields lay ps ft')"

definition hdb_Update ::
  "layout \<Rightarrow> string \<Rightarrow> string \<Rightarrow> fieldvals \<Rightarrow> key_table \<Rightarrow> int \<times> key_table" where
  "hdb_Update lay table key values db =
     (let k = c_str (key_index table key)
      in case ht_Get k db of
           None \<Rightarrow>
             let db' = snd (ht_Insert lay (Some k) [] db)
             in (kOK, snd (ht_Update k (fill_fields lay values []) db'))
         | Some ft \<Rightarrow> (kOK, snd (ht_Update k (update_fields lay values ft) db)))"

text \<open>The field loop of \<open>Insert\<close>: it stops at the first field that exists already.\<close>

primrec insert_fields :: "layout \<Rightarrow> fieldvals \<Rightarrow> field_table \<Rightarrow> int \<times> field_table" where
  "insert_fields lay [] ft = (kOK, ft)"
| "insert_fields lay (p # ps) ft =
     (case ht_Insert lay (Some (c_str (fst p))) (CopyString (snd p)) ft of
        (ok, ft') \<Rightarrow> if \<not> ok then (kErrorConflict, ft') else insert_fields lay ps ft')"

definition hdb_Insert ::
  "layout \<Rightarrow> string \<Rightarrow> string \<Rightarrow> fieldvals \<Rightarrow> key_table \<Rightarrow> int \<times> key_table" where
  "hdb_Insert lay table key values db =
     (let k = c_str (key_index table key);
          (ft, db') = (case ht_Get k db of
             None \<Rightarrow> ([], snd (ht_Insert lay (Some k) [] db))
           | Some ft \<Rightarrow> (ft, db))
      in case insert_fields lay values ft of
           (rc, ft') \<Rightarrow> (rc, snd (ht_Update k ft' db')))"

definition hdb_Delete :: "string \<Rightarrow> string \<Rightarrow> key_table \<Rightarrow> int \<times> key_table" where
  "hdb_Delete table key db =
     (case ht_Remove (c_str (key_index table key)) db of
        (None, db') \<Rightarrow> (kErrorNoData, db')
      | (Some _, db') \<Rightarrow> (kOK, db'))"

text \<open>The operations of \<open>LockStlDB\<close> as the client calls them; none of them throws.\<close>

definition stl_db_ops :: "layout \<Rightarrow> key_table db_ops" where
  "stl_db_ops lay = \<lparr>
     op_Read = (\<lambda>table key flds result db. (Inr (hdb_Read table key flds result db), db)),
     op_Scan = (\<lambda>table key len flds result db. (Inr (hdb_Scan table key len flds db), db)),
     op_Update = (\<lambda>table key values db. case hdb_Update lay table key values db of (rc, db') \<Rightarrow> (Inr rc, db')),
     op_Insert = (\<lambda>table key values db. case hdb_Insert lay table key values db of (rc, db') \<Rightarrow> (Inr rc, db')),
     op_Delete = (\<lambda>table key db. case hdb_Delete table key db of (rc, db') \<Rightarrow> (Inr rc, db'))\<rparr>"

section \<open>The abstract store\<close>

text \<open>A store maps record indices to records, and a record maps field names to values.\<close>

type_synonym record_map = "string \<rightharpoonup> string"
type_synonym store = "string \<rightharpoonup> record_map"

definition write_all :: "fieldvals \<Rightarrow> record_map \<Rightarrow> record_map" where
  "write_all vs m = m ++ map_of (rev (map (\<lambda>p. (c_str (fst p), c_str (snd p))) vs))"

fun insert_spec :: "fieldvals \<Rightarrow> record_map \<Rightarrow> int \<times> record_map" where
  "insert_spec [] m = (kOK, m)"
| "insert_spec (p # ps) m =
     (if m (c_str (fst p)) \<noteq> None then (kErrorConflict, m)
      else insert_spec ps (m(c_str (fst p) \<mapsto> c_str (snd p))))"

text \<open>
  The contract between a backend and its clients, as a refinement: what each operation does to
  \<open>view db\<close>, and which answers it gives.
\<close>

locale record_store =
  fixes rd :: "string \<Rightarrow> string \<Rightarrow> string list \<Rightarrow> 'db \<Rightarrow> int \<times> fieldvals"
    and upd :: "string \<Rightarrow> string \<Rightarrow> fieldvals \<Rightarrow> 'db \<Rightarrow> int \<times> 'db"
    and ins :: "string \<Rightarrow> string \<Rightarrow> fieldvals \<Rightarrow> 'db \<Rightarrow> int \<times> 'db"
    and del :: "string \<Rightarrow> string \<Rightarrow> 'db \<Rightarrow> int \<times> 'db"
    and idx :: "string \<Rightarrow> string \<Rightarrow> string"
    and view :: "'db \<Rightarrow> store"
    and inv :: "'db \<Rightarrow> bool"
  assumes rd_absent: "inv db \<Longrightarrow> view db (idx t k) = None \<Longrightarrow> rd t k fs db = (kErrorNoData, [])"
    and rd_present: "inv db \<Longrightarrow> view db (idx t k) = Some m \<Longrightarrow>
      rd t k fs db = (kOK, List.map_filter (\<lambda>f. map_option (Pair f) (m (c_str f))) fs)"
    and upd_ok: "inv db \<Longrightarrow> fst (upd t k vs db) = kOK"
    and upd_present: "inv db \<Longrightarrow> view db (idx t k) = Some m \<Longrightarrow>
      view (snd (upd t k vs db)) = (view db)(idx t k \<mapsto> write_all vs m)"
    and ins_spec: "inv db \<Longrightarrow>
      insert_spec vs (case view db (idx t k) of None \<Rightarrow> Map.empty | Some m \<Rightarrow> m) = (rc, m') \<Longrightarrow>
      fst (ins t k vs db) = rc \<and> view (snd (ins t k vs db)) = (view db)(idx t k \<mapsto> m')"
    and del_rc: "inv db \<Longrightarrow> fst (del t k db) = (if view db (idx t k) = None then kErrorNoData else kOK)"
    and del_view: "inv db \<Longrightarrow> view (snd (del t k db)) = (view db)(idx t k := None)"
    and upd_inv: "inv db \<Longrightarrow> inv (snd (upd t k vs db))"
    and ins_inv: "inv db \<Longrightarrow> inv (snd (ins t k vs db))"
    and del_inv: "inv db \<Longrightarrow> inv (snd (del t k db))"
begin

lemma read_after_delete: "inv db \<Longrightarrow> rd t k fs (snd (del t k db)) = (kErrorNoData, [])"
  by (simp add: rd_absent del_inv del_view)

lemma read_after_update:
  assumes "inv db" and "view db (idx t k) = Some m"
  shows "rd t k fs (snd (upd t k vs db)) =
    (kOK, List.map_filter (\<lambda>f. map_option (Pair f) (write_all vs m (c_str f))) fs)"
  using assms by (simp add: rd_present upd_inv upd_present)

text \<open>An operation on one index leaves the records of the others alone.\<close>

lemma read_other:
  assumes "inv db" and "idx t' k' \<noteq> idx t k"
  shows "rd t' k' fs (snd (ins t k vs db)) = rd t' k' fs db"
    and "rd t' k' fs (snd (del t k db)) = rd t' k' fs db"
proof -
  have same: "rd t' k' fs d = rd t' k' fs db"
    if "inv d" "view d (idx t' k') = view db (idx t' k')" for d
    using that assms(1) by (cases "view db (idx t' k')") (simp_all add: rd_absent rd_present)
  obtain rc m' where "insert_spec vs (case view db (idx t k) of None \<Rightarrow> Map.empty | Some m \<Rightarrow> m) = (rc, m')"
    by (metis surj_pair)
  from ins_spec [OF assms(1) this] assms show "rd t' k' fs (snd (ins t k vs db)) = rd t' k' fs db"
    by (intro same) (simp_all add: ins_inv)
  show "rd t' k' fs (snd (del t k db)) = rd t' k' fs db"
    using assms by (intro same) (simp_all add: del_inv del_view)
qed

end

section \<open>The field loops\<close>

lemma write_all_simps [simp]:
  "write_all [] m = m"
  "write_all (p # ps) m = write_all ps (m(c_str (fst p) \<mapsto> c_str (snd p)))"
  by (simp_all add: write_all_def)

lemma update_fields_laws:
  "ht_inv ft \<Longrightarrow> ht_inv (update_fields lay vs ft) \<and> ht_map (update_fields lay vs ft) = write_all vs (ht_map ft)"
proof (induction vs arbitrary: ft)
  case (Cons p ps)
  let ?ft = "stl.put_entry lay (c_str (fst p)) (CopyString (snd p)) ft"
  have "update_fields lay (p # ps) ft = update_fields lay ps ?ft"
    by (auto simp: stl.put_entry_def Let_def split: prod.splits option.splits)
  with Cons show ?case
    by (simp add: stl.put_entry_inv stl.put_entry_map CopyString_def fun_upd_def)
qed simp

lemma fill_fields_inv: "ht_inv ft \<Longrightarrow> ht_inv (fill_fields lay vs ft)"
  by (induction vs arbitrary: ft) (simp_all add: stl.ins_inv)

lemma insert_fields_laws:
  "ht_inv ft \<Longrightarrow> ht_inv (snd (insert_fields lay vs ft)) \<and>
     insert_spec vs (ht_map ft) = (fst (insert_fields lay vs ft), ht_map (snd (insert_fields lay vs ft)))"
proof (induction vs arbitrary: ft)
  case (Cons p ps)
  obtain ok ft' where r: "ht_Insert lay (Some (c_str (fst p))) (CopyString (snd p)) ft = (ok, ft')"
    by (metis surj_pair)
  from stl.ins_inv [OF Cons.prems] r have inv: "ht_inv ft'" by (metis snd_conv)
  from stl.ins_flag [OF Cons.prems, of lay "c_str (fst p)" "CopyString (snd p)"] r
  have ok: "ok \<longleftrightarrow> ht_map ft (c_str (fst p)) = None" by simp
  from stl.ins_map [OF Cons.prems, of lay "c_str (fst p)" "CopyString (snd p)"] r
  have mp: "ht_map ft' = (if ok then (ht_map ft)(c_str (fst p) \<mapsto> c_str (snd p)) else ht_map ft)"
    by (simp add: ok CopyString_def)
  show ?case
  proof (cases ok)
    case True
    with Cons.IH [OF inv] mp ok r show ?thesis by (simp add: fun_upd_def)
  next
    case False
    then have "ht_map ft' = ht_map ft" using mp by simp
    with False inv ok r show ?thesis by auto
  qed
qed simp

section \<open>\<open>LockStlDB\<close> refines the abstract store\<close>

definition hdb_view :: "key_table \<Rightarrow> store" where
  "hdb_view db k = map_option ht_map (ht_map db k)"

definition hdb_inv :: "key_table \<Rightarrow> bool" where
  "hdb_inv db \<longleftrightarrow> ht_inv db \<and> (\<forall>k ft. ht_map db k = Some ft \<longrightarrow> ht_inv ft)"

definition hdb_idx :: "string \<Rightarrow> string \<Rightarrow> string" where
  "hdb_idx table key = c_str (key_index table key)"

lemma hdb_inv_ht_inv: "hdb_inv db \<Longrightarrow> ht_inv db"
  by (simp add: hdb_inv_def)

text \<open>Writing a changed field table back to its entry.\<close>

lemma hdb_write_back:
  assumes "hdb_inv db" and "ht_map db k \<noteq> None" and "ht_inv ft"
  shows "hdb_inv (snd (ht_Update k ft db))"
    and "hdb_view (snd (ht_Update k ft db)) = (hdb_view db)(k \<mapsto> ht_map ft)"
  using assms stl.upd_inv [of db k ft] stl.upd_map [of db k ft]
  by (auto simp: hdb_inv_def hdb_view_def fun_eq_iff)

lemma hdb_new_entry:
  assumes "hdb_inv db" and "ht_map db k = None"
  shows "hdb_inv (snd (ht_Insert lay (Some k) [] db))"
    and "hdb_view (snd (ht_Insert lay (Some k) [] db)) = (hdb_view db)(k \<mapsto> Map.empty)"
    and "ht_map (snd (ht_Insert lay (Some k) [] db)) k \<noteq> None"
  using assms stl.ins_inv [of db lay k "[]"] stl.ins_map [of db lay k "[]"]
  by (auto simp: hdb_inv_def hdb_view_def fun_eq_iff)

lemma hdb_view_None: "hdb_view db k = None \<longleftrightarrow> ht_map db k = None"
  by (simp add: hdb_view_def)

lemma hdb_view_Some: "hdb_view db k = Some m \<longleftrightarrow> (\<exists>ft. ht_map db k = Some ft \<and> m = ht_map ft)"
  by (auto simp: hdb_view_def)

lemma some_fields_map:
  "ht_inv ft \<Longrightarrow> some_fields fs ft = List.map_filter (\<lambda>f. map_option (Pair f) (ht_map ft (c_str f))) fs"
  by (auto simp: some_fields_def stl.get_law map_filter_def split: option.splits
      intro!: arg_cong2 [where f = map] filter_cong)

lemma hdb_Update_laws:
  assumes "hdb_inv db"
  shows "fst (hdb_Update lay t k vs db) = kOK \<and> hdb_inv (snd (hdb_Update lay t k vs db)) \<and>
    (\<forall>m. hdb_view db (hdb_idx t k) = Some m \<longrightarrow>
       hdb_view (snd (hdb_Update lay t k vs db)) = (hdb_view db)(hdb_idx t k \<mapsto> write_all vs m))"
proof (cases "ht_map db (hdb_idx t k)")
  case None
  let ?db = "snd (ht_Insert lay (Some (hdb_idx t k)) [] db)"
  have "hdb_inv (snd (ht_Update (hdb_idx t k) (fill_fields lay vs []) ?db))"
    using hdb_new_entry [OF assms None] by (intro hdb_write_back) (simp_all add: fill_fields_inv)
  with None assms show ?thesis
    by (simp add: hdb_Update_def Let_def hdb_view_def stl.get_law hdb_inv_ht_inv flip: hdb_idx_def)
next
  case (Some ft)
  then have "ht_inv ft" using assms by (simp add: hdb_inv_def)
  from update_fields_laws [OF this, of lay vs] Some hdb_write_back [OF assms] assms show ?thesis
    by (simp add: hdb_Update_def Let_def hdb_view_Some stl.get_law hdb_inv_ht_inv flip: hdb_idx_def)
qed

lemma hdb_Insert_laws:
  assumes "hdb_inv db"
    and "insert_spec vs (case hdb_view db (hdb_idx t k) of None \<Rightarrow> Map.empty | Some m \<Rightarrow> m) = (rc, m')"
  shows "fst (hdb_Insert lay t k vs db) = rc \<and> hdb_inv (snd (hdb_Insert lay t k vs db)) \<and>
    hdb_view (snd (hdb_Insert lay t k vs db)) = (hdb_view db)(hdb_idx t k \<mapsto> m')"
proof (cases "ht_map db (hdb_idx t k)")
  case None
  let ?db = "snd (ht_Insert lay (Some (hdb_idx t k)) [] db)"
  obtain ft' where ft': "insert_fields lay vs [] = (rc, ft')" "ht_inv ft'" "ht_map ft' = m'"
    using insert_fields_laws [of "[]" lay vs] None assms(2)
    by (cases "insert_fields lay vs []") (simp add: hdb_view_def)
  have "ht_map ?db (hdb_idx t k) \<noteq> None" by (rule hdb_new_entry(3) [OF assms(1) None])
  from hdb_write_back [OF hdb_new_entry(1) [OF assms(1) None] this ft'(2)] None assms(1) ft'
  show ?thesis
    by (simp add: hdb_Insert_def Let_def stl.get_law hdb_inv_ht_inv hdb_new_entry(2)
        flip: hdb_idx_def)
next
  case (Some ft)
  then have "ht_inv ft" using assms(1) by (simp add: hdb_inv_def)
  then obtain ft' where ft': "insert_fields lay vs ft = (rc, ft')" "ht_inv ft'" "ht_map ft' = m'"
    using insert_fields_laws [of ft lay vs] Some assms(2)
    by (cases "insert_fields lay vs ft") (simp add: hdb_view_def)
  from hdb_write_back [OF assms(1) _ ft'(2)] Some assms(1) ft' show ?thesis
    by (simp add: hdb_Insert_def Let_def stl.get_law hdb_inv_ht_inv flip: hdb_idx_def)
qed

lemma hdb_Insert_inv: "hdb_inv db \<Longrightarrow> hdb_inv (snd (hdb_Insert lay t k vs db))"
  using hdb_Insert_laws by (metis surj_pair)

lemma hdb_Delete_laws:
  assumes "hdb_inv db"
  shows "fst (hdb_Delete t k db) = (if hdb_view db (hdb_idx t k) = None then kErrorNoData else kOK) \<and>
    hdb_inv (snd (hdb_Delete t k db)) \<and>
    hdb_view (snd (hdb_Delete t k db)) = (hdb_view db)(hdb_idx t k := None)"
proof -
  have inv: "ht_inv db" using assms by (rule hdb_inv_ht_inv)
  obtain r db' where r: "ht_Remove (hdb_idx t k) db = (r, db')" by (metis surj_pair)
  from stl.rem_old [OF inv, of "hdb_idx t k"] r have old: "r = ht_map db (hdb_idx t k)" by simp
  from stl.rem_map [OF inv, of "hdb_idx t k"] r
  have mp: "ht_map db' = (ht_map db)(hdb_idx t k := None)" by simp
  have "ht_inv db'" using stl.rem_inv [OF inv, of "hdb_idx t k"] r by simp
  with assms mp have "hdb_inv db'" by (simp add: hdb_inv_def)
  moreover have "hdb_view db' = (hdb_view db)(hdb_idx t k := None)"
    by (rule ext) (simp add: hdb_view_def mp)
  moreover have "hdb_Delete t k db = (if r = None then kErrorNoData else kOK, db')"
    using r by (simp add: hdb_Delete_def split: option.splits flip: hdb_idx_def)
  ultimately show ?thesis by (simp add: hdb_view_None old)
qed

interpretation stl_store: record_store "\<lambda>t k fs. hdb_Read t k (Some fs) []" "hdb_Update lay"
  "hdb_Insert lay" hdb_Delete hdb_idx hdb_view hdb_inv for lay :: layout
proof
  fix db t k fs m
  show "hdb_inv db \<Longrightarrow> hdb_view db (hdb_idx t k) = None \<Longrightarrow>
      hdb_Read t k (Some fs) [] db = (kErrorNoData, [])"
    by (simp add: hdb_Read_def hdb_view_None stl.get_law hdb_inv_ht_inv flip: hdb_idx_def)
  show "hdb_inv db \<Longrightarrow> hdb_view db (hdb_idx t k) = Some m \<Longrightarrow>
      hdb_Read t k (Some fs) [] db =
        (kOK, List.map_filter (\<lambda>f. map_option (Pair f) (m (c_str f))) fs)"
    by (auto simp: hdb_Read_def hdb_view_Some stl.get_law hdb_inv_def some_fields_map
        simp flip: hdb_idx_def)
qed (simp_all add: hdb_Update_laws hdb_Insert_laws hdb_Insert_inv hdb_Delete_laws)

section \<open>What the database promises\<close>

definition no_nuls :: "fieldvals \<Rightarrow> bool" where
  "no_nuls vs \<longleftrightarrow> list_all (\<lambda>p. CHR 0x00 \<notin> set (fst p) \<and> CHR 0x00 \<notin> set (snd p)) vs"

lemma insert_spec_fresh:
  "no_nuls vs \<Longrightarrow> distinct (map fst vs) \<Longrightarrow> fst ` set vs \<inter> dom m = {} \<Longrightarrow>
     insert_spec vs m = (kOK, m ++ map_of vs)"
proof (induction vs arbitrary: m)
  case (Cons p ps)
  then have c: "c_str (fst p) = fst p" "c_str (snd p) = snd p" "m (fst p) = None"
    by (auto simp: no_nuls_def c_str_id)
  have "insert_spec ps (m(fst p \<mapsto> snd p)) = (kOK, m(fst p \<mapsto> snd p) ++ map_of ps)"
  proof (rule Cons.IH)
    have "fst ` set ps \<inter> insert (fst p) (dom m) = {}" using Cons.prems(2,3) by auto
    then show "fst ` set ps \<inter> dom (m(fst p \<mapsto> snd p)) = {}" by (simp only: dom_fun_upd) simp
  qed (use Cons.prems in \<open>auto simp: no_nuls_def\<close>)
  moreover have "map_of ps (fst p) = None" using Cons.prems(2) by (simp add: map_of_eq_None_iff)
  then have "m(fst p \<mapsto> snd p) ++ map_of ps = m ++ map_of (p # ps)"
    by (auto simp: fun_eq_iff map_add_def split: option.split)
  moreover have "insert_spec (p # ps) m = insert_spec ps (m(fst p \<mapsto> snd p))"
    using c by (simp add: fun_upd_def)
  ultimately show ?case by (simp only:)
qed simp

text \<open>Where an insertion stops: at the first field that the record or an earlier pair has.\<close>

lemma insert_spec_split:
  "insert_spec vs m = (rc, m') \<Longrightarrow>
     (rc = kOK \<and> m' = write_all vs m) \<or>
     (rc = kErrorConflict \<and>
      (\<exists>pre p post. vs = pre @ p # post \<and> m' = write_all pre m \<and> m' (c_str (fst p)) \<noteq> None))"
proof (induction vs arbitrary: m)
  case (Cons q qs)
  show ?case
  proof (cases "m (c_str (fst q))")
    case None
    with Cons.prems have "insert_spec qs (m(c_str (fst q) \<mapsto> c_str (snd q))) = (rc, m')"
      by (simp add: fun_upd_def)
    from Cons.IH [OF this] show ?thesis
    proof (elim disjE conjE exE)
      fix pre p post
      assume "rc = kErrorConflict" "qs = pre @ p # post" "m' (c_str (fst p)) \<noteq> None"
        and "m' = write_all pre (m(c_str (fst q) \<mapsto> c_str (snd q)))"
      then have "rc = kErrorConflict \<and> q # qs = (q # pre) @ p # post \<and>
          m' = write_all (q # pre) m \<and> m' (c_str (fst p)) \<noteq> None" by simp
      then show ?thesis by blast
    qed (simp add: fun_upd_def)
  next
    case (Some v)
    with Cons.prems have "rc = kErrorConflict" "m' = write_all [] m" by auto
    with Some show ?thesis by (metis append_Nil option.distinct(1) write_all_simps(1))
  qed
qed simp

lemma read_back: "distinct (map fst vs) \<Longrightarrow> no_nuls vs \<Longrightarrow>
  List.map_filter (\<lambda>f. map_option (Pair f) (map_of vs (c_str f))) (map fst vs) = vs"
proof -
  assume d: "distinct (map fst vs)" and n: "no_nuls vs"
  have "List.map_filter (\<lambda>f. map_option (Pair f) (map_of vs (c_str f))) (map fst ws) = ws"
    if "set ws \<subseteq> set vs" for ws
    using that
  proof (induction ws)
    case (Cons w ws)
    then have "map_of vs (fst w) = Some (snd w)" "c_str (fst w) = fst w"
      using d n by (auto simp: no_nuls_def list_all_iff c_str_id)
    with Cons show ?case by (simp add: map_filter_simps)
  qed (simp add: map_filter_simps)
  then show ?thesis by simp
qed

lemma hdb_Update_other:
  assumes "hdb_inv db" and "i \<noteq> hdb_idx t k"
  shows "hdb_view (snd (hdb_Update lay t k vs db)) i = hdb_view db i"
proof (cases "ht_map db (hdb_idx t k)")
  case None
  note new = hdb_new_entry [OF assms(1) None, of lay]
  from None hdb_write_back(2) [OF new(1,3) fill_fields_inv [OF ht_inv_Nil, of lay vs]] new(2) assms
  show ?thesis
    by (simp add: hdb_Update_def Let_def stl.get_law hdb_inv_ht_inv flip: hdb_idx_def)
next
  case (Some ft)
  then show ?thesis
    using hdb_Update_laws [OF assms(1), of lay t k vs] assms(2) by (simp add: hdb_view_Some)
qed

text \<open>
  C4: An insert of a new record is read back. With distinct field names and without NULs the insert
  succeeds, reading the inserted fields returns exactly the inserted pairs in the requested order,
  and every other record stays as it was, whatever the order of the hash tables.
\<close>

theorem hdb_Insert_then_Read:
  assumes "hdb_inv db" and "hdb_view db (hdb_idx t k) = None"
    and "distinct (map fst vs)" and "no_nuls vs"
    and "hdb_Insert lay t k vs db = (rc, db')"
  shows "rc = kOK \<and> hdb_inv db' \<and> hdb_Read t k (Some (map fst vs)) [] db' = (kOK, vs) \<and>
    (\<forall>t' k' fs. hdb_idx t' k' \<noteq> hdb_idx t k \<longrightarrow>
       hdb_Read t' k' (Some fs) [] db' = hdb_Read t' k' (Some fs) [] db)"
proof -
  have spec: "insert_spec vs (case hdb_view db (hdb_idx t k) of None \<Rightarrow> Map.empty | Some m \<Rightarrow> m) =
      (kOK, map_of vs)"
    using insert_spec_fresh [OF assms(4,3), of Map.empty] assms(2) by simp
  from hdb_Insert_laws [OF assms(1) this, of lay] assms(5)
  have ins: "rc = kOK" "hdb_inv db'" "hdb_view db' (hdb_idx t k) = Some (map_of vs)" by simp_all
  moreover have "hdb_Read t k (Some (map fst vs)) [] db' = (kOK, vs)"
    using stl_store.rd_present [OF ins(2,3)] read_back [OF assms(3,4)] by simp
  ultimately show ?thesis
    using stl_store.read_other(1) [where t = t and k = k and lay = lay and vs = vs, OF assms(1)] assms(5)
    by simp
qed

theorem hdb_Insert_then_Read_witness:
  "\<exists>rc db'. hdb_Insert (\<lambda>_ _. 0) ''t'' ''k'' [(''a'', ''1''), (''b'', ''2'')] [] = (rc, db') \<and> rc = kOK \<and>
     hdb_Read ''t'' ''k'' (Some [''a'', ''b'']) [] db' = (kOK, [(''a'', ''1''), (''b'', ''2'')])"
proof -
  obtain rc db' where r: "hdb_Insert (\<lambda>_ _. 0) ''t'' ''k'' [(''a'', ''1''), (''b'', ''2'')] [] = (rc, db')"
    by fastforce
  have "hdb_inv []" "hdb_view [] (hdb_idx ''t'' ''k'') = None"
    by (simp_all add: hdb_inv_def hdb_view_def)
  from hdb_Insert_then_Read [OF this _ _ r] show ?thesis
    using r by (simp add: no_nuls_def)
qed

text \<open>
  An update of a record succeeds, what it wrote is read back, fields it did not name keep their
  values, and no other record changes.
\<close>

theorem hdb_Update_then_Read:
  assumes "hdb_inv db" and "hdb_view db (hdb_idx t k) = Some m"
    and "hdb_Update lay t k vs db = (rc, db')"
  shows "rc = kOK \<and> hdb_inv db' \<and>
    hdb_Read t k (Some fs) [] db' =
      (kOK, List.map_filter (\<lambda>f. map_option (Pair f) (write_all vs m (c_str f))) fs) \<and>
    (\<forall>i. i \<noteq> hdb_idx t k \<longrightarrow> hdb_view db' i = hdb_view db i)"
  using stl_store.read_after_update [where lay = lay and vs = vs and fs = fs, OF assms(1,2)] hdb_Update_laws [OF assms(1), of lay t k vs]
    hdb_Update_other [OF assms(1), of _ t k lay vs] assms(3)
  by simp

theorem hdb_Update_then_Read_witness:
  "hdb_Read ''t'' ''k'' (Some [''a'', ''b'']) []
     (snd (hdb_Update (\<lambda>_ _. 0) ''t'' ''k'' [(''b'', ''9'')]
        [(Copy ''tk'', [(Copy ''a'', ''1''), (Copy ''b'', ''2'')])])) =
   (kOK, [(''a'', ''1''), (''b'', ''9'')])"
proof -
  let ?db = "[(Copy ''tk'', [(Copy ''a'', ''1''), (Copy ''b'', ''2'')])]"
  have "hdb_inv ?db" by (auto simp: hdb_inv_def ht_inv_simps ht_map_simps split: if_splits)
  moreover have "hdb_view ?db (hdb_idx ''t'' ''k'') = Some [''b'' \<mapsto> ''2'', ''a'' \<mapsto> ''1'']"
    by (simp add: hdb_view_def hdb_idx_def key_index_def c_str_def ht_map_simps)
  moreover obtain rc db' where r: "hdb_Update (\<lambda>_ _. 0) ''t'' ''k'' [(''b'', ''9'')] ?db = (rc, db')"
    by fastforce
  ultimately have "hdb_Read ''t'' ''k'' (Some [''a'', ''b'']) [] db' =
      (kOK, List.map_filter (\<lambda>f. map_option (Pair f)
         (write_all [(''b'', ''9'')] [''b'' \<mapsto> ''2'', ''a'' \<mapsto> ''1''] (c_str f))) [''a'', ''b''])"
    by (blast dest: hdb_Update_then_Read)
  with r show ?thesis by (simp add: c_str_def map_filter_simps)
qed

text \<open>
  C21: A deleted record is gone: it is not read any more, a second delete reports it missing, no other
  record changes; and a scan that starts at it returns no record at all, since scans start at the
  element found for the key and not at the next key.
\<close>

theorem hdb_Delete_gone:
  assumes "hdb_inv db" and "hdb_Delete t k db = (rc, db')"
  shows "rc = (if hdb_view db (hdb_idx t k) = None then kErrorNoData else kOK) \<and> hdb_inv db' \<and>
    hdb_Read t k (Some fs) [] db' = (kErrorNoData, []) \<and> fst (hdb_Delete t k db') = kErrorNoData \<and>
    hdb_Scan t k len (Some fs) db' = (kOK, []) \<and>
    (\<forall>i. i \<noteq> hdb_idx t k \<longrightarrow> hdb_view db' i = hdb_view db i)"
proof -
  have laws: "rc = (if hdb_view db (hdb_idx t k) = None then kErrorNoData else kOK)" "hdb_inv db'"
    "hdb_view db' = (hdb_view db)(hdb_idx t k := None)"
    using hdb_Delete_laws [OF assms(1), of t k] assms(2) by simp_all
  have "ht_find (Wrap (hdb_idx t k)) db' = []"
    by (rule ht_find_cases [OF hdb_inv_ht_inv [OF laws(2)] str_wf_set_value(2) [of "hdb_idx t k"]])
      (use laws(3) in \<open>auto simp: hdb_view_def fun_eq_iff split: if_splits\<close>)
  then have "hdb_Scan t k len (Some fs) db' = (kOK, [])"
    by (simp add: hdb_Scan_def ht_Entries_def flip: hdb_idx_def)
  moreover have "fst (hdb_Delete t k db') = kErrorNoData"
    using hdb_Delete_laws [OF laws(2), of t k] laws(3) by simp
  ultimately show ?thesis
    using laws stl_store.read_after_delete [OF assms(1), of t k fs] assms(2) by simp
qed

theorem hdb_Delete_gone_witness:
  "hdb_Read ''t'' ''k'' (Some [''a'']) [] (snd (hdb_Delete ''t'' ''k'' [(Copy ''tk'', [(Copy ''a'', ''1'')])])) =
     (kErrorNoData, [])"
proof -
  let ?db = "[(Copy ''tk'', [(Copy ''a'', ''1'')])]"
  have "hdb_inv ?db" by (auto simp: hdb_inv_def ht_inv_simps ht_map_simps split: if_splits)
  then show ?thesis
    using hdb_Delete_gone [of ?db "''t''" "''k''" _ _ "[''a'']"] by (metis prod.collapse)
qed



end
