(* ===== verification/BasicDB.thy ===== *)
theory BasicDB
  imports DbApi Properties
begin

text \<open>
  \<open>server/ycsbc-l4/db/basic_db.h\<close>, the backend that only prints what it is asked to do, and
  \<open>server/ycsbc-l4/db/db_factory.cc\<close>, which picks a backend by name. The state of \<open>BasicDB\<close> is what
  it has written to the standard output.
\<close>

definition out :: "string \<Rightarrow> (string, unit) op" where
  "out str = modifyM (\<lambda>o'. o' @ str)"

definition newline :: string where
  "newline = [CHR 0x0A]"

definition basic_Init :: "(string, unit) op" where
  "basic_Init = out (''A new thread begins working.'' @ newline)"

definition field_text :: "string list option \<Rightarrow> string" where
  "field_text flds =
     (case flds of
        Some fs \<Rightarrow> '' [ '' @ concat (map (\<lambda>f. f @ '' '') fs) @ '']'' @ newline
      | None \<Rightarrow> '' < all fields >'' @ newline)"

definition pair_text :: "fieldvals \<Rightarrow> string" where
  "pair_text vs = concat (map (\<lambda>v. fst v @ ''='' @ snd v @ '' '') vs)"

definition basic_Read ::
  "string \<Rightarrow> string \<Rightarrow> string list option \<Rightarrow> fieldvals \<Rightarrow> (string, int \<times> fieldvals) op" where
  "basic_Read table key flds result =
     thenM (out (''READ '' @ table @ '' '' @ key @ field_text flds)) (retM (0, result))"

definition basic_Scan ::
  "string \<Rightarrow> string \<Rightarrow> int \<Rightarrow> string list option \<Rightarrow> fieldvals list \<Rightarrow> (string, int \<times> fieldvals list) op" where
  "basic_Scan table key len flds result =
     thenM (out (''SCAN '' @ table @ '' '' @ key @ '' '' @ int_dec len @ field_text flds))
       (retM (0, result))"

definition basic_Update :: "string \<Rightarrow> string \<Rightarrow> fieldvals \<Rightarrow> (string, int) op" where
  "basic_Update table key vs =
     thenM (out (''UPDATE '' @ table @ '' '' @ key @ '' [ '' @ pair_text vs @ '']'' @ newline)) (retM 0)"

definition basic_Insert :: "string \<Rightarrow> string \<Rightarrow> fieldvals \<Rightarrow> (string, int) op" where
  "basic_Insert table key vs =
     thenM (out (''INSERT '' @ table @ '' '' @ key @ '' [ '' @ pair_text vs @ '']'' @ newline)) (retM 0)"

definition basic_Delete :: "string \<Rightarrow> string \<Rightarrow> (string, int) op" where
  "basic_Delete table key = thenM (out (''DELETE '' @ table @ '' '' @ key @ newline)) (retM 0)"

definition basic_db_ops :: "string db_ops" where
  "basic_db_ops =
     \<lparr>op_Read = basic_Read, op_Scan = basic_Scan, op_Update = basic_Update,
      op_Insert = basic_Insert, op_Delete = basic_Delete\<rparr>"

section \<open>The factory\<close>

datatype db_kind = BasicKind | LockStlKind | SqliteLibKind | SqliteIpcKind | SqliteShmKind

text \<open>\<open>None\<close> is the null pointer. Looking up a name that was never set throws.\<close>

definition CreateDB :: "props \<Rightarrow> fault + db_kind option" where
  "CreateDB p =
     (case prop_at p ''dbname'' of
        Inl e \<Rightarrow> Inl e
      | Inr name \<Rightarrow>
          Inr (if name = ''basic'' then Some BasicKind
               else if name = ''lock_stl'' then Some LockStlKind
               else if name = ''sqlite_lib'' then Some SqliteLibKind
               else if name = ''sqlite_ipc'' then Some SqliteIpcKind
               else if name = ''sqlite_shm'' then Some SqliteShmKind
               else None))"

end
