(* ===== verification/Driver.thy ===== *)
theory Driver
  imports BasicDB
begin

text \<open>
  The driver, \<open>server/ycsbc-l4/ycsbc-l4.cc\<close>: the command line, the choice of CPUs with
  \<open>online_cpus\<close> of \<open>server/include/utils.h\<close>, and how \<open>main\<close> splits the work into threads. The files
  named on the command line and the scheduler's answers are arguments. Arguments of a command are
  C strings, without a NUL.
\<close>

definition sum_bind :: "fault + 'a \<Rightarrow> ('a \<Rightarrow> fault + 'b) \<Rightarrow> fault + 'b" where
  "sum_bind r f = (case r of Inl e \<Rightarrow> Inl e | Inr x \<Rightarrow> f x)"

lemma sum_bind_Inr: "sum_bind r f = Inr y \<longleftrightarrow> (\<exists>x. r = Inr x \<and> f x = Inr y)"
  by (auto simp: sum_bind_def split: sum.split)

section \<open>The command line\<close>

definition StrStartWith :: "string \<Rightarrow> string \<Rightarrow> bool" where
  "StrStartWith str pre \<longleftrightarrow> take (length pre) str = pre"

text \<open>An option that takes a value and stores it; without a value the usage is shown.\<close>

definition value_option :: "string \<Rightarrow> string option" where
  "value_option arg =
     (if arg = ''-threads'' then Some ''threadcount''
      else if arg = ''-db'' then Some ''dbname''
      else if arg = ''-host'' then Some ''host''
      else if arg = ''-port'' then Some ''port''
      else if arg = ''-slaves'' then Some ''slaves''
      else None)"

definition flag_option :: "string \<Rightarrow> string option" where
  "flag_option arg =
     (if arg = ''-migrate-rr'' then Some ''migrate-rr''
      else if arg = ''-avoid-boot-cpu'' then Some ''avoid-boot-cpu''
      else if arg = ''-disperse'' then Some ''disperse''
      else None)"

text \<open>
  The loop of \<open>ParseCommandLine\<close> over the remaining arguments: the properties, the last file name,
  and the arguments it stopped at. The exception of \<open>Load\<close> is not of the type that is caught.
\<close>

fun parse_options ::
  "(string \<Rightarrow> string option) \<Rightarrow> string list \<Rightarrow> string \<Rightarrow> props \<Rightarrow> fault + props \<times> string \<times> string list" where
  "parse_options files [] filename p = Inr (p, filename, [])"
| "parse_options files (arg # args) filename p =
     (if \<not> StrStartWith arg ''-'' then Inr (p, filename, arg # args)
      else case value_option arg of
        Some k \<Rightarrow>
          (case args of
             [] \<Rightarrow> Inl (ExitProcess 0)
           | v # rest \<Rightarrow> parse_options files rest filename (SetProperty p k v))
      | None \<Rightarrow>
          if arg = ''-P''
          then (case args of
                  [] \<Rightarrow> Inl (ExitProcess 0)
                | v # rest \<Rightarrow>
                    (case Load (files v) p of
                       Inl e \<Rightarrow> Inl e
                     | Inr p' \<Rightarrow> parse_options files rest v p'))
          else (case flag_option arg of
                  Some k \<Rightarrow> parse_options files args filename (SetProperty p k ''1'')
                | None \<Rightarrow> Inl (ExitProcess 0)))"

definition ParseCommandLine ::
  "(string \<Rightarrow> string option) \<Rightarrow> string list \<Rightarrow> props \<Rightarrow> fault + props \<times> string" where
  "ParseCommandLine files args p =
     sum_bind (parse_options files args [] p) (\<lambda>(p', filename, rest).
       if length rest = length args \<or> rest \<noteq> [] then Inl (ExitProcess 0)
       else
         let should_disperse = (p' ''disperse'' \<noteq> None);
             should_migrate = (p' ''migrate-rr'' \<noteq> None);
             dbname = GetProperty p' ''dbname'' ''none''
         in if should_disperse \<and> (\<not> should_migrate \<or> (dbname \<noteq> ''sqlite_ipc'' \<and> dbname \<noteq> ''sqlite_shm''))
            then Inl (ExitProcess 0)
            else Inr (p', filename))"

text \<open>
  Extracting a \<open>bool\<close> from a string stream: an integer of value 0 is false and any other is true; text
  that is no number leaves false, and an empty stream leaves the variable as it was.
\<close>

definition stream_bool :: "bool \<Rightarrow> string \<Rightarrow> bool" where
  "stream_bool old s =
     (let t = dropWhile is_space s;
          u = (if t \<noteq> [] \<and> (hd t = CHR ''-'' \<or> hd t = CHR ''+'') then tl t else t);
          ds = takeWhile is_digit u
      in if t = [] then old else ds \<noteq> [] \<and> dec_val ds \<noteq> 0)"

section \<open>CPUs\<close>

text \<open>
  \<open>online_cpus\<close>: \<open>info off\<close> is the scheduler's bitmap of the CPUs from \<open>off\<close> on, \<open>cpu_max\<close> its
  number of CPUs.
\<close>

definition map_cpus :: "u64 \<Rightarrow> nat \<Rightarrow> nat list" where
  "map_cpus cpu_map off = map (\<lambda>i. off + i) (filter (\<lambda>i. bit cpu_map i) [0 ..< 64])"

function online_from :: "(nat \<Rightarrow> u64) \<Rightarrow> nat \<Rightarrow> nat \<Rightarrow> nat list \<Rightarrow> nat list" where
  "online_from info cpu_max off cpus =
     (if off < cpu_max then online_from info cpu_max (off + 64) (cpus @ map_cpus (info off) off)
      else cpus)"
  by pat_completeness auto
termination
  by (relation "measure (\<lambda>(_, cpu_max, off, _). cpu_max - off)") auto

declare online_from.simps [simp del]

definition online_cpus :: "(nat \<Rightarrow> u64) \<Rightarrow> nat \<Rightarrow> nat list" where
  "online_cpus info cpu_max = online_from info cpu_max 0 []"

definition usable_cpus :: "bool \<Rightarrow> bool \<Rightarrow> nat list \<Rightarrow> nat list" where
  "usable_cpus avoid_boot_cpu migrate_rr cpus =
     (let cs = (if avoid_boot_cpu \<and> 1 < length cpus then tl cpus else cpus)
      in if \<not> migrate_rr then take 1 cs else cs)"

definition select_cpus :: "bool \<Rightarrow> nat list \<Rightarrow> nat \<Rightarrow> nat \<times> nat" where
  "select_cpus disperse cpus i =
     (if disperse
      then (cpus ! ((2 * i) mod length cpus), cpus ! ((2 * i + 1) mod length cpus))
      else (let cpu = cpus ! (i mod length cpus) in (cpu, cpu)))"

section \<open>The threads of a run\<close>

text \<open>
  What one phase of \<open>main\<close> starts: for each thread its number of operations and its two CPUs. C++
  division truncates; a division is only reached with at least one thread.
\<close>

definition thread_plan :: "bool \<Rightarrow> nat list \<Rightarrow> int \<Rightarrow> int \<Rightarrow> fault + (int \<times> nat \<times> nat) list" where
  "thread_plan disperse cpus num_threads total_ops =
     (let plan = map (\<lambda>i. (sgn total_ops * (\<bar>total_ops\<bar> div num_threads), select_cpus disperse cpus i))
                   [0 ..< nat num_threads]
      in if int (length plan) \<noteq> num_threads then Inl AssertFailed else Inr plan)"

record run_plan =
  rp_kind :: db_kind
  rp_load :: "(int \<times> nat \<times> nat) list"
  rp_run :: "(int \<times> nat \<times> nat) list"

text \<open>
  \<open>main\<close> up to the threads. \<open>setup\<close> stands for initialising the workload and creating the schema;
  \<open>avoid0\<close>, \<open>rr0\<close> and \<open>disperse0\<close> are what the three uninitialised variables hold.
\<close>

definition main_plan ::
  "(string \<Rightarrow> string option) \<Rightarrow> (props \<Rightarrow> fault + unit) \<Rightarrow> (nat \<Rightarrow> u64) \<Rightarrow> nat \<Rightarrow> bool \<Rightarrow> bool \<Rightarrow> bool \<Rightarrow>
     string list \<Rightarrow> fault + run_plan" where
  "main_plan files setup info cpu_max avoid0 rr0 disperse0 args =
     sum_bind (ParseCommandLine files args Map.empty) (\<lambda>(p, file_name).
     sum_bind (CreateDB p) (\<lambda>db.
     case db of
       None \<Rightarrow> Inl (ExitProcess 0)
     | Some kind \<Rightarrow>
         sum_bind (setup p) (\<lambda>_.
         sum_bind (stoi (GetProperty p ''threadcount'' ''1'')) (\<lambda>num_threads.
         let online = online_cpus info cpu_max in
         if online = [] then Inl (RuntimeError ''cpu list empty'')
         else
           let avoid = stream_bool avoid0 (GetProperty p ''avoid-boot-cpu'' ''0'');
               rr = stream_bool rr0 (GetProperty p ''migrate-rr'' ''0'');
               disperse = stream_bool disperse0 (GetProperty p ''disperse'' ''0'');
               cpus = usable_cpus avoid rr online
           in sum_bind (sum_bind (prop_at p ''recordcount'') stoi) (\<lambda>records.
              sum_bind (thread_plan disperse cpus num_threads records) (\<lambda>load.
              sum_bind (sum_bind (prop_at p ''operationcount'') stoi) (\<lambda>ops.
              sum_bind (thread_plan disperse cpus num_threads ops) (\<lambda>run.
              Inr \<lparr>rp_kind = kind, rp_load = load, rp_run = run\<rparr>))))))))"


section \<open>What the driver promises\<close>

lemma option_names:
  "value_option arg = Some k \<Longrightarrow> StrStartWith arg ''-''" "flag_option arg = Some k \<Longrightarrow> StrStartWith arg ''-''"
  by (auto simp: value_option_def flag_option_def StrStartWith_def split: if_splits)

text \<open>
  Options take effect from left to right: when a first part of the command line is accepted as a
  whole, the rest is read with the properties and the file name it leaves, so a later option or
  property file overrides an earlier one.
\<close>

lemma parse_options_in_order:
  assumes "parse_options files xs filename p = Inr (p', filename', [])"
  shows "parse_options files (xs @ ys) filename p = parse_options files ys filename' p'"
  using assms
  by (induction files xs filename p rule: parse_options.induct)
    (auto split: if_splits option.splits list.splits sum.splits)

lemma option_examples:
  "parse_options files [] f p = Inr (p, f, [])"
  "parse_options files (''-db'' # v # rest) f p = parse_options files rest f (p(''dbname'' \<mapsto> v))"
  "parse_options files (''-migrate-rr'' # rest) f p = parse_options files rest f (p(''migrate-rr'' \<mapsto> ''1''))"
  "parse_options files (''-disperse'' # rest) f p = parse_options files rest f (p(''disperse'' \<mapsto> ''1''))"
  "parse_options files (''-P'' # v # rest) f p =
     (case Load (files v) p of Inl e \<Rightarrow> Inl e | Inr p' \<Rightarrow> parse_options files rest v p')"
  by (simp_all add: StrStartWith_def value_option_def flag_option_def SetProperty_def)

text \<open>
  A command line that is accepted asks for dispersed CPUs only together with round-robin
  migration and with one of the two backends that run a server thread.
\<close>

theorem ParseCommandLine_disperse:
  assumes "ParseCommandLine files args p = Inr (p', filename)" and "p' ''disperse'' \<noteq> None"
  shows "p' ''migrate-rr'' \<noteq> None \<and> (p' ''dbname'' = Some ''sqlite_ipc'' \<or> p' ''dbname'' = Some ''sqlite_shm'')"
  using assms
  by (auto simp: ParseCommandLine_def sum_bind_Inr Let_def GetProperty_def split: if_splits option.splits)

theorem ParseCommandLine_disperse_witness:
  "\<exists>p f. ParseCommandLine (\<lambda>_. None) [''-db'', ''sqlite_ipc'', ''-migrate-rr'', ''-disperse''] Map.empty = Inr (p, f) \<and>
     p ''migrate-rr'' \<noteq> None"
proof -
  obtain p f where r: "ParseCommandLine (\<lambda>_. None) [''-db'', ''sqlite_ipc'', ''-migrate-rr'', ''-disperse''] Map.empty = Inr (p, f)"
      and p: "p ''disperse'' \<noteq> None"
    by (simp add: ParseCommandLine_def sum_bind_def option_examples GetProperty_def
        del: parse_options.simps)
  from ParseCommandLine_disperse [OF r p] r show ?thesis by blast
qed

definition cpu_online :: "(nat \<Rightarrow> u64) \<Rightarrow> nat \<Rightarrow> nat \<Rightarrow> bool" where
  "cpu_online info cpu_max c \<longleftrightarrow>
     64 * (c div 64) < cpu_max \<and> bit (info (64 * (c div 64))) (c mod 64)"

lemma set_map_cpus:
  "set (map_cpus m (64 * j)) = {c. c div 64 = j \<and> bit m (c mod 64)}"
proof -
  have "c \<in> set (map_cpus m (64 * j))" if "c div 64 = j" "bit m (c mod 64)" for c
  proof -
    have "c = 64 * j + c mod 64" using that(1) by (metis mult_div_mod_eq)
    then show ?thesis using that(2) by (auto simp: map_cpus_def intro!: image_eqI [of _ _ "c mod 64"])
  qed
  then show ?thesis by (auto simp: map_cpus_def)
qed

lemma block_of: "c div 64 = j \<longleftrightarrow> 64 * j \<le> c \<and> c < 64 * j + 64" for c j :: nat
proof -
  have "j \<le> c div 64 \<longleftrightarrow> 64 * j \<le> c" by (simp add: less_eq_div_iff_mult_less_eq mult.commute)
  moreover have "c div 64 < Suc j \<longleftrightarrow> c < 64 * j + 64"
    by (simp add: div_less_iff_less_mult algebra_simps)
  ultimately show ?thesis by linarith
qed

lemma sorted_map_cpus:
  "sorted_wrt (<) (map_cpus m off)" "c \<in> set (map_cpus m off) \<Longrightarrow> off \<le> c \<and> c < off + 64"
  by (auto simp: map_cpus_def sorted_wrt_map intro: sorted_wrt_filter)

lemma online_from_set:
  "off = 64 * j \<Longrightarrow>
     set (online_from info cpu_max off cpus) = set cpus \<union> {c. off \<le> c \<and> cpu_online info cpu_max c}"
proof (induction info cpu_max off cpus arbitrary: j rule: online_from.induct)
  case (1 info cpu_max off cpus)
  have beyond: "off \<le> c \<Longrightarrow> off \<le> 64 * (c div 64)" for c
    unfolding 1(2) by (simp add: less_eq_div_iff_mult_less_eq mult.commute)
  show ?case
  proof (cases "off < cpu_max")
    case False
    then have "\<not> cpu_online info cpu_max c" if "off \<le> c" for c
      using beyond [OF that] by (simp add: cpu_online_def)
    with False show ?thesis by (subst online_from.simps) auto
  next
    case True
    have "set (online_from info cpu_max (off + 64) (cpus @ map_cpus (info off) off)) =
        set (cpus @ map_cpus (info off) off) \<union> {c. off + 64 \<le> c \<and> cpu_online info cpu_max c}"
      by (rule "1.IH" [OF True, of "Suc j"]) (simp add: 1(2))
    moreover have "set (map_cpus (info off) off) = {c. off \<le> c \<and> c < off + 64 \<and> cpu_online info cpu_max c}"
    proof -
      have "c div 64 = j \<and> bit (info off) (c mod 64) \<longleftrightarrow>
          off \<le> c \<and> c < off + 64 \<and> cpu_online info cpu_max c" for c
        using True block_of [of c j] unfolding 1(2) cpu_online_def
        by (cases "c div 64 = j") (simp, blast)
      then show ?thesis unfolding 1(2) set_map_cpus by blast
    qed
    moreover have "{c. off \<le> c \<and> cpu_online info cpu_max c} =
        {c. off \<le> c \<and> c < off + 64 \<and> cpu_online info cpu_max c} \<union>
        {c. off + 64 \<le> c \<and> cpu_online info cpu_max c}" by (rule set_eqI) (simp, linarith)
    moreover have "online_from info cpu_max off cpus =
        online_from info cpu_max (off + 64) (cpus @ map_cpus (info off) off)"
      using True by (subst online_from.simps) simp
    ultimately show ?thesis by (simp only: set_append Un_assoc)
  qed
qed

lemma online_from_sorted:
  "sorted_wrt (<) cpus \<Longrightarrow> \<forall>c \<in> set cpus. c < off \<Longrightarrow>
     sorted_wrt (<) (online_from info cpu_max off cpus)"
proof (induction info cpu_max off cpus rule: online_from.induct)
  case (1 info cpu_max off cpus)
  note block = sorted_map_cpus [where m = "info off" and off = off]
  have "sorted_wrt (<) (cpus @ map_cpus (info off) off)"
    using 1(2,3) block by (fastforce simp: sorted_wrt_append)
  moreover have "\<forall>c \<in> set (cpus @ map_cpus (info off) off). c < off + 64"
    using 1(3) block(2) by fastforce
  ultimately show ?case using 1 by (subst online_from.simps) auto
qed

text \<open>
  The list of online CPUs is strictly ascending and contains exactly the CPUs whose bit is set
  in a map that covers a CPU number below the maximum.
\<close>

theorem online_cpus_exact:
  "sorted_wrt (<) (online_cpus info cpu_max) \<and>
   set (online_cpus info cpu_max) = {c. cpu_online info cpu_max c}"
  using online_from_set [of 0 0 info cpu_max "[]"] online_from_sorted [of "[]" 0 info cpu_max]
  by (simp add: online_cpus_def)


lemma usable_cpus_members: "set (usable_cpus avoid rr cpus) \<subseteq> set cpus"
  by (cases cpus) (auto simp: usable_cpus_def Let_def dest: in_set_takeD)

lemma usable_cpus_nonempty: "cpus \<noteq> [] \<Longrightarrow> usable_cpus avoid rr cpus \<noteq> []"
  by (cases cpus) (auto simp: usable_cpus_def Let_def)

lemma select_cpus_members:
  "cpus \<noteq> [] \<Longrightarrow> fst (select_cpus d cpus i) \<in> set cpus \<and> snd (select_cpus d cpus i) \<in> set cpus"
  by (simp add: select_cpus_def Let_def)

text \<open>
  Threads are placed on online CPUs, as the options ask: the client and the server of a thread
  share a CPU unless they are dispersed, and are on different CPUs when they are and two are usable;
  the boot CPU is left out when it is to be avoided and another CPU is online; without round-robin
  migration every thread gets the first usable CPU.
\<close>

theorem cpu_placement:
  assumes "cpus \<noteq> []" and "distinct cpus" and "us = usable_cpus avoid rr cpus"
    and "select_cpus disperse us i = (client_cpu, server_cpu)"
  shows "client_cpu \<in> set cpus \<and> server_cpu \<in> set cpus \<and>
    (\<not> disperse \<longrightarrow> client_cpu = server_cpu) \<and>
    (disperse \<and> 2 \<le> length us \<longrightarrow> client_cpu \<noteq> server_cpu) \<and>
    (avoid \<and> 2 \<le> length cpus \<longrightarrow> client_cpu \<noteq> hd cpus \<and> server_cpu \<noteq> hd cpus) \<and>
    (\<not> rr \<longrightarrow> client_cpu = hd us \<and> server_cpu = hd us)"
proof -
  have us: "us \<noteq> []" using assms(1,3) usable_cpus_nonempty by simp
  have mem: "client_cpu \<in> set us" "server_cpu \<in> set us"
    using select_cpus_members [OF us, of disperse i] assms(4) by simp_all
  have dist: "distinct us" using assms(2,3) by (simp add: usable_cpus_def Let_def distinct_tl)
  have differ: "client_cpu \<noteq> server_cpu" if "disperse" "2 \<le> length us"
  proof -
    have "(2 * i) mod length us \<noteq> (2 * i + 1) mod length us"
      using that(2) by (simp add: mod_Suc)
    then show ?thesis using that assms(4) dist us
      by (auto simp: select_cpus_def nth_eq_iff_index_eq)
  qed
  have boot: "hd cpus \<notin> set us" if "avoid" "2 \<le> length cpus"
    using that assms(2,3) by (cases cpus) (auto simp: usable_cpus_def Let_def dest: in_set_takeD)
  have single: "us = [hd us]" if "\<not> rr"
    using that us assms(3) by (cases us) (auto simp: usable_cpus_def Let_def take_Suc split: if_splits)
  have "client_cpu \<in> set cpus \<and> server_cpu \<in> set cpus"
    using mem assms(3) usable_cpus_members by fastforce
  moreover have "\<not> disperse \<longrightarrow> client_cpu = server_cpu"
    using assms(4) by (auto simp: select_cpus_def Let_def)
  moreover have "\<not> rr \<longrightarrow> client_cpu = hd us \<and> server_cpu = hd us"
    using mem single by (metis empty_iff empty_set set_ConsD)
  ultimately show ?thesis using differ boot mem by blast
qed

theorem cpu_placement_witness:
  "fst (select_cpus True (usable_cpus True True [0, 1, 2, 3]) 4) \<noteq> snd (select_cpus True (usable_cpus True True [0, 1, 2, 3]) 4)"
proof -
  have us: "[1, 2, 3] = usable_cpus True True [0, 1, 2, 3]" by (simp add: usable_cpus_def Let_def)
  obtain c v where s: "select_cpus True [1, 2, 3] 4 = (c, v)" by fastforce
  from cpu_placement [OF _ _ us s] s show ?thesis unfolding us [symmetric] by simp
qed

lemma thread_plan_sum:
  assumes "thread_plan disperse cpus num_threads total_ops = Inr plan"
  shows "int (length plan) = num_threads \<and>
    (\<Sum>(n, _) \<leftarrow> plan. n) = num_threads * (sgn total_ops * (\<bar>total_ops\<bar> div num_threads))"
proof -
  have "0 \<le> num_threads" and plan: "plan = map (\<lambda>i. (sgn total_ops * (\<bar>total_ops\<bar> div num_threads),
      select_cpus disperse cpus i)) [0 ..< nat num_threads]"
    using assms by (auto simp: thread_plan_def Let_def split: if_splits)
  moreover have "(\<Sum>(n, _) \<leftarrow> map (\<lambda>i. (k, f i)) [0 ..< m]. n) = int m * k"
    for k and f :: "nat \<Rightarrow> nat \<times> nat" and m
    by (induction m) (simp_all add: algebra_simps)
  ultimately show ?thesis by simp
qed

lemma thread_plan_cpus:
  assumes "thread_plan disperse cpus num_threads total_ops = Inr plan" and "(n, c, v) \<in> set plan"
  shows "\<exists>i. c = fst (select_cpus disperse cpus i) \<and> v = snd (select_cpus disperse cpus i)"
  using assms by (auto simp: thread_plan_def Let_def split: if_splits) (metis fst_conv snd_conv)

text \<open>
  A phase of a run starts the configured number of threads and gives each the same share of the
  operations; together they do the configured number less its remainder by the number of threads,
  which nobody does. Negative thread counts end in the failed assertion.
\<close>

theorem thread_plan_total:
  assumes "0 < num_threads" and "0 \<le> total_ops"
  shows "\<exists>plan. thread_plan disperse cpus num_threads total_ops = Inr plan \<and>
    int (length plan) = num_threads \<and>
    (\<forall>(n, _) \<in> set plan. n = total_ops div num_threads) \<and>
    (\<Sum>(n, _) \<leftarrow> plan. n) = total_ops - total_ops mod num_threads \<and>
    (\<forall>m < 0. thread_plan disperse cpus m total_ops = Inl AssertFailed)"
proof -
  obtain plan where plan: "thread_plan disperse cpus num_threads total_ops = Inr plan"
    using assms(1) by (simp add: thread_plan_def Let_def)
  have share: "sgn total_ops * (\<bar>total_ops\<bar> div num_threads) = total_ops div num_threads"
    using assms(2) by (cases "total_ops = 0") simp_all
  have "(\<Sum>(n, _) \<leftarrow> plan. n) = total_ops - total_ops mod num_threads"
    using thread_plan_sum [OF plan] share by (simp add: minus_mod_eq_mult_div)
  moreover have "\<forall>(n, _) \<in> set plan. n = total_ops div num_threads"
    using plan share by (auto simp: thread_plan_def Let_def split: if_splits)
  ultimately show ?thesis
    using plan thread_plan_sum [OF plan] by (auto simp: thread_plan_def Let_def)
qed

theorem thread_plan_total_witness:
  "\<exists>plan. thread_plan False [0] 3 1000 = Inr plan \<and> (\<Sum>(n, _) \<leftarrow> plan. n) = 999"
  using thread_plan_total [of 3 1000 False "[0]"] by auto

text \<open>
  C40: A run that starts names a known backend, has an online CPU for every client and server thread
  of both phases, and starts the same number of threads for loading as for the transactions.
\<close>

theorem main_plan_sound:
  assumes "main_plan files setup info cpu_max avoid0 rr0 disperse0 args = Inr plan"
  shows "length (rp_load plan) = length (rp_run plan) \<and>
    (\<forall>(n, client_cpu, server_cpu) \<in> set (rp_load plan) \<union> set (rp_run plan).
       cpu_online info cpu_max client_cpu \<and> cpu_online info cpu_max server_cpu) \<and>
    (\<exists>p file_name. ParseCommandLine files args Map.empty = Inr (p, file_name) \<and>
       CreateDB p = Inr (Some (rp_kind plan)))"
proof -
  from assms obtain p file_name db num_threads records operations where
      cmd: "ParseCommandLine files args Map.empty = Inr (p, file_name)"
      and kind: "CreateDB p = Inr (Some (rp_kind plan))" and on: "online_cpus info cpu_max \<noteq> []"
      and plans: "thread_plan db (usable_cpus (stream_bool avoid0 (GetProperty p ''avoid-boot-cpu'' ''0''))
            (stream_bool rr0 (GetProperty p ''migrate-rr'' ''0'')) (online_cpus info cpu_max))
          num_threads records = Inr (rp_load plan)"
        "thread_plan db (usable_cpus (stream_bool avoid0 (GetProperty p ''avoid-boot-cpu'' ''0''))
            (stream_bool rr0 (GetProperty p ''migrate-rr'' ''0'')) (online_cpus info cpu_max))
          num_threads operations = Inr (rp_run plan)"
    by (fastforce simp: main_plan_def sum_bind_Inr Let_def split: if_splits option.splits)
  have "cpu_online info cpu_max (fst (select_cpus db (usable_cpus avoid rr (online_cpus info cpu_max)) i)) \<and>
      cpu_online info cpu_max (snd (select_cpus db (usable_cpus avoid rr (online_cpus info cpu_max)) i))"
    for avoid rr i
    using select_cpus_members [OF usable_cpus_nonempty [OF on], of db avoid rr i]
      usable_cpus_members [of avoid rr "online_cpus info cpu_max"] online_from_set [of 0 0 info cpu_max "[]"]
    by (auto simp: online_cpus_def)
  then have "\<forall>(n, c, v) \<in> set (rp_load plan) \<union> set (rp_run plan).
      cpu_online info cpu_max c \<and> cpu_online info cpu_max v"
    using thread_plan_cpus [OF plans(1)] thread_plan_cpus [OF plans(2)] by fastforce
  then show ?thesis
    using cmd kind thread_plan_sum [OF plans(1)] thread_plan_sum [OF plans(2)] by auto
qed

theorem main_plan_sound_witness:
  "\<exists>plan. main_plan (\<lambda>_. Some (render [(''recordcount'', ''10''), (''operationcount'', ''20'')]))
       (\<lambda>_. Inr ()) (\<lambda>_. 5) 8 False False False [''-db'', ''basic'', ''-P'', ''w''] = Inr plan \<and>
     length (rp_load plan) = length (rp_run plan)"
proof -
  have load: "Load (Some (render [(''recordcount'', ''10''), (''operationcount'', ''20'')])) p =
      Inr (p(''recordcount'' \<mapsto> ''10'', ''operationcount'' \<mapsto> ''20''))" for p
    by (simp add: Load_def load_loop_assignments assignments_render plain_entry_def trimmed_def
        is_space_def char_code_def)
  have nums: "stoi ''10'' = Inr 10" "stoi ''20'' = Inr 20" "stoi ''1'' = Inr 1"
    by (simp_all add: stoi_def is_space_def is_digit_def char_code_def dec_val_def int_min_def int_max_def)
  have "cpu_online (\<lambda>_. 5) 8 0" by (simp add: cpu_online_def)
  then have on: "online_cpus (\<lambda>_. 5) 8 \<noteq> []"
    using online_from_set [of 0 0 "\<lambda>_. 5" 8 "[]"] by (auto simp: online_cpus_def)
  obtain plan where r: "main_plan (\<lambda>_. Some (render [(''recordcount'', ''10''), (''operationcount'', ''20'')]))
       (\<lambda>_. Inr ()) (\<lambda>_. 5) 8 False False False [''-db'', ''basic'', ''-P'', ''w''] = Inr plan"
    by (simp add: main_plan_def ParseCommandLine_def sum_bind_def option_examples load GetProperty_def
        CreateDB_def prop_at_def nums on thread_plan_def Let_def
        del: parse_options.simps)
  from main_plan_sound [OF r] r show ?thesis by blast
qed

end
