(* ===== verification/LoadPhase.thy ===== *)
theory LoadPhase
  imports Client HashtableDB Driver
begin

text \<open>
  The loading phase of \<open>main\<close> with the \<open>lock_stl\<close> backend: the threads that \<open>DelegateClient\<close> starts
  share one workload and one database. A turn of \<open>DoInsert\<close> touches them three times. It draws a
  number from the atomic counter, it builds a record, and it inserts the record under the lock.
  \<open>load_step\<close> interleaves these steps of all threads in any order.
\<close>

section \<open>The threads\<close>

text \<open>
  Where a thread stands in \<open>DoInsert\<close>, with what it holds in local variables; the rounds it has not
  begun, and its count of successes. A fault ends the thread.
\<close>

datatype loader_at =
    LoadIdle
  | LoadKey string
  | LoadValues string fieldvals
  | LoadFault string fault

record loader =
  ld_left :: nat
  ld_at :: loader_at
  ld_oks :: int

record load =
  load_counter :: u64
  load_db :: key_table
  loaders :: "loader list"

definition is_loader :: "load \<Rightarrow> nat \<Rightarrow> loader \<Rightarrow> bool" where
  "is_loader s i t \<longleftrightarrow> i < length (loaders s) \<and> loaders s ! i = t"

definition set_loader :: "nat \<Rightarrow> loader \<Rightarrow> load \<Rightarrow> load" where
  "set_loader i t s = s\<lparr>loaders := (loaders s)[i := t]\<rparr>"

text \<open>
  The steps. Other threads advance the generators that \<open>BuildValues\<close> draws from, so a record is built
  from any state \<open>w'\<close> of the workload with the configuration of \<open>w\<close> and from any state of the
  random engines. The layout of the hash table may differ from insertion to insertion.
\<close>

inductive load_step :: "'d fp \<Rightarrow> 'd workload \<Rightarrow> load \<Rightarrow> load \<Rightarrow> bool" for fp w where
  load_draw: "is_loader s i t \<Longrightarrow> ld_at t = LoadIdle \<Longrightarrow> ld_left t = Suc n \<Longrightarrow>
    counter_Next (load_counter s) = (k, c) \<Longrightarrow>
    load_step fp w s
      (set_loader i (t\<lparr>ld_left := n, ld_at := LoadKey (BuildKeyName w k)\<rparr>) (s\<lparr>load_counter := c\<rparr>))"
| load_build: "is_loader s i t \<Longrightarrow> ld_at t = LoadKey key \<Longrightarrow> same_config w w' \<Longrightarrow>
    BuildValues fp (w', e) = (Inr vs, st) \<Longrightarrow>
    load_step fp w s (set_loader i (t\<lparr>ld_at := LoadValues key vs\<rparr>) s)"
| load_fault: "is_loader s i t \<Longrightarrow> ld_at t = LoadKey key \<Longrightarrow> same_config w w' \<Longrightarrow>
    BuildValues fp (w', e) = (Inl err, st) \<Longrightarrow>
    load_step fp w s (set_loader i (t\<lparr>ld_at := LoadFault key err\<rparr>) s)"
| load_insert: "is_loader s i t \<Longrightarrow> ld_at t = LoadValues key vs \<Longrightarrow>
    hdb_Insert lay (wl_table w) key vs (load_db s) = (rc, db) \<Longrightarrow>
    load_step fp w s
      (set_loader i (t\<lparr>ld_at := LoadIdle, ld_oks := ld_oks t + (if rc = kOK then 1 else 0)\<rparr>)
        (s\<lparr>load_db := db\<rparr>))"

text \<open>
  The start: an empty database, the counter at its start, one thread for each entry of the plan. The
  end: every thread has done its rounds. \<open>sum\<close> of \<open>main\<close> adds up the results of the threads.
\<close>

definition load_init :: "u64 \<Rightarrow> (int \<times> nat \<times> nat) list \<Rightarrow> load" where
  "load_init start plan =
     \<lparr>load_counter = start, load_db = [],
      loaders = map (\<lambda>(n, _). \<lparr>ld_left = nat n, ld_at = LoadIdle, ld_oks = 0\<rparr>) plan\<rparr>"

definition all_loaded :: "load \<Rightarrow> bool" where
  "all_loaded s \<longleftrightarrow> list_all (\<lambda>t. ld_left t = 0 \<and> ld_at t = LoadIdle) (loaders s)"

definition load_sum :: "load \<Rightarrow> int" where
  "load_sum s = (\<Sum>t \<leftarrow> loaders s. ld_oks t)"

lemma loader_simps [simp]:
  "load_counter (set_loader i t s) = load_counter s" "load_db (set_loader i t s) = load_db s"
  "loaders (set_loader i t s) = (loaders s)[i := t]"
  by (simp_all add: set_loader_def)

text \<open>Sums over the threads when one of them changes.\<close>

lemma sum_list_upd:
  fixes f :: "'a \<Rightarrow> 'b::comm_monoid_add"
  shows "i < length xs \<Longrightarrow>
    (\<Sum>x \<leftarrow> xs[i := y]. f x) + f (xs ! i) = (\<Sum>x \<leftarrow> xs. f x) + f y"
  by (induction xs arbitrary: i) (auto simp: ac_simps split: nat.splits)

lemma is_loader_sum:
  fixes f :: "loader \<Rightarrow> 'b::comm_monoid_add"
  shows "is_loader s i t \<Longrightarrow>
    (\<Sum>x \<leftarrow> (loaders s)[i := y]. f x) + f t = (\<Sum>x \<leftarrow> loaders s. f x) + f y"
  using sum_list_upd [of i "loaders s" f y] by (simp add: is_loader_def)

section \<open>One turn of a client is three steps of its thread\<close>

lemma BuildValues_key_gen:
  "BuildValues fp s = (Inr vs, t) \<Longrightarrow> wl_key_gen (fst t) = wl_key_gen (fst s)"
  unfolding BuildValues_def using build_fields_run by blast

lemma sequence_counter:
  assumes "wl_key_gen w = CounterGenerator k"
  shows "NextSequenceKey fp (w, e) =
    (Inr (BuildKeyName w k), (w\<lparr>wl_key_gen := CounterGenerator (k + 1)\<rparr>, e))"
  using assms
  by (simp add: NextSequenceKey_def draw_sequence_def wl_draw_def gen_Next_def counter_Next_def bindM_def
      getM_def BuildKeyName_def)

lemma stl_insert_op:
  "op_Insert (stl_db_ops lay) table key vs db =
     (Inr (fst (hdb_Insert lay table key vs db)), snd (hdb_Insert lay table key vs db))"
  by (simp add: stl_db_ops_def split: prod.splits)

lemma DoInsert_run:
  assumes "DoInsert fp (stl_db_ops lay) c = (Inr ok, c')"
    and "wl_key_gen (c_wl c) = CounterGenerator k"
  shows "\<exists>w1 e1 vs rc db.
    BuildValues fp ((c_wl c)\<lparr>wl_key_gen := CounterGenerator (k + 1)\<rparr>, c_env c) = (Inr vs, (w1, e1)) \<and>
    hdb_Insert lay (wl_table w1) (BuildKeyName (c_wl c) k) vs (c_db c) = (rc, db) \<and>
    ok = (rc = kOK) \<and> c' = c\<lparr>c_wl := w1, c_env := e1, c_db := db\<rparr>"
  using assms(1)
  by (auto simp: DoInsert_def bindM_result_Inr retM_def on_wl_def on_db_def onM_def NextTable_def getM_def
      sequence_counter [OF assms(2)] stl_insert_op split: prod.splits) (metis prod.collapse)+

lemma load_three_steps:
  assumes t: "is_loader s i t" "ld_at t = LoadIdle" "ld_left t = Suc n"
    and conf: "same_config w w'" and build: "BuildValues fp (w', e) = (Inr vs, st)"
    and ins: "hdb_Insert lay (wl_table w) (BuildKeyName w (load_counter s)) vs (load_db s) = (rc, d)"
  shows "(load_step fp w ^^ 3) s
    (set_loader i (t\<lparr>ld_left := n, ld_oks := ld_oks t + (if rc = kOK then 1 else 0)\<rparr>)
      (s\<lparr>load_counter := load_counter s + 1, load_db := d\<rparr>))" (is "(_ ^^ 3) s ?s'")
proof -
  let ?k = "load_counter s"
  have i: "i < length (loaders s)" using t(1) by (simp add: is_loader_def)
  let ?t1 = "t\<lparr>ld_left := n, ld_at := LoadKey (BuildKeyName w ?k)\<rparr>"
  let ?s1 = "set_loader i ?t1 (s\<lparr>load_counter := ?k + 1\<rparr>)"
  let ?t2 = "?t1\<lparr>ld_at := LoadValues (BuildKeyName w ?k) vs\<rparr>"
  let ?s2 = "set_loader i ?t2 ?s1"
  let ?s3 = "set_loader i (?t2\<lparr>ld_at := LoadIdle, ld_oks := ld_oks ?t2 + (if rc = kOK then 1 else 0)\<rparr>)
    (?s2\<lparr>load_db := d\<rparr>)"
  have one: "load_step fp w s ?s1" using t by (rule load_draw) (simp add: counter_Next_def)
  have two: "load_step fp w ?s1 ?s2"
    using i build by (intro load_build [OF _ _ conf, of _ _ ?t1]) (simp_all add: is_loader_def)
  have three: "load_step fp w ?s2 ?s3"
    using i ins by (intro load_insert [of _ _ ?t2]) (simp_all add: is_loader_def set_loader_def)
  have "?s3 = ?s'" using t(2) by (cases t) (simp add: set_loader_def)
  moreover note comp = relpowp_Suc_I [where P = "load_step fp w"]
  have "(load_step fp w ^^ Suc (Suc (Suc 0))) s ?s3"
    by (rule comp [OF comp [OF comp [OF relpowp_0_I one] two] three])
  ultimately show ?thesis by (simp only: numeral_3_eq_3)
qed

lemma load_turn:
  assumes run: "DoInsert fp (stl_db_ops lay) c = (Inr ok, c')"
    and gen: "wl_key_gen (c_wl c) = CounterGenerator (load_counter s)"
    and conf: "same_config w (c_wl c)" and db: "c_db c = load_db s"
    and t: "is_loader s i t" "ld_at t = LoadIdle" "ld_left t = Suc n"
  shows "\<exists>s'. (load_step fp w)\<^sup>*\<^sup>* s s' \<and>
    loaders s' = (loaders s)[i := t\<lparr>ld_left := n, ld_oks := ld_oks t + (if ok then 1 else 0)\<rparr>] \<and>
    load_db s' = c_db c' \<and> wl_key_gen (c_wl c') = CounterGenerator (load_counter s')"
proof -
  let ?k = "load_counter s" and ?w = "(c_wl c)\<lparr>wl_key_gen := CounterGenerator (load_counter s + 1)\<rparr>"
  obtain w1 e1 vs rc d where build: "BuildValues fp (?w, c_env c) = (Inr vs, (w1, e1))"
    and ins: "hdb_Insert lay (wl_table w1) (BuildKeyName (c_wl c) ?k) vs (c_db c) = (rc, d)"
    and ok: "ok = (rc = kOK)" and c': "c' = c\<lparr>c_wl := w1, c_env := e1, c_db := d\<rparr>"
    using DoInsert_run [OF run gen] by blast
  have drawn: "same_config w ?w"
    using keepsD [OF keeps_draws(2) [of fp], of "(c_wl c, c_env c)"] same_config_trans [OF conf]
      gen by (fastforce simp: draw_sequence_def wl_draw_def gen_Next_def counter_Next_def)
  have "same_config w w1" using same_config_trans [OF drawn] keepsD [OF keeps_BuildValues build] by simp
  with ins db have ins: "hdb_Insert lay (wl_table w) (BuildKeyName w ?k) vs (load_db s) = (rc, d)"
    using BuildKeyName_config [OF conf] by (simp add: same_config_def)
  show ?thesis
    using relpowp_imp_rtranclp [OF load_three_steps [OF t drawn build ins]] c' ok BuildValues_key_gen [OF build]
    by (intro exI conjI) (assumption | simp)+
qed

text \<open>The loop of one thread that is never interrupted is one of the schedules.\<close>

lemma load_client_loop:
  assumes "client_loop (DoInsert fp (stl_db_ops lay)) n oks c = (Inr r, c')"
    and "wl_key_gen (c_wl c) = CounterGenerator (load_counter s)"
    and "same_config w (c_wl c)" and "c_db c = load_db s"
    and "is_loader s i t" and "ld_at t = LoadIdle" and "ld_left t = n" and "ld_oks t = oks"
  shows "\<exists>s'. (load_step fp w)\<^sup>*\<^sup>* s s' \<and> loaders s' = (loaders s)[i := t\<lparr>ld_left := 0, ld_oks := r\<rparr>] \<and>
    load_db s' = c_db c'"
  using assms
proof (induction n arbitrary: oks c s t)
  case 0
  then have "t\<lparr>ld_left := 0, ld_oks := r\<rparr> = t" "c' = c" by (auto simp: retM_def)
  with 0 show ?case by (intro exI [of _ s]) (auto simp: is_loader_def)
next
  case (Suc n)
  from Suc.prems(1) obtain ok d where turn: "DoInsert fp (stl_db_ops lay) c = (Inr ok, d)"
    and rest: "client_loop (DoInsert fp (stl_db_ops lay)) n (oks + (if ok then 1 else 0)) d = (Inr r, c')"
    by (auto simp: bindM_result_Inr)
  let ?t = "t\<lparr>ld_left := n, ld_oks := ld_oks t + (if ok then 1 else 0)\<rparr>"
  obtain s1 where s1: "(load_step fp w)\<^sup>*\<^sup>* s s1" "loaders s1 = (loaders s)[i := ?t]"
      "load_db s1 = c_db d" "wl_key_gen (c_wl d) = CounterGenerator (load_counter s1)"
    using load_turn [OF turn Suc.prems(2-7)] by blast
  have "same_config w (c_wl d)"
    using same_config_trans [OF Suc.prems(3)] client_keepsD [OF client_keeps_turns(1) turn] by blast
  moreover have "is_loader s1 i ?t" using Suc.prems(5) s1(2) by (simp add: is_loader_def)
  ultimately obtain s2 where "(load_step fp w)\<^sup>*\<^sup>* s1 s2" "load_db s2 = c_db c'"
      "loaders s2 = (loaders s1)[i := ?t\<lparr>ld_left := 0, ld_oks := r\<rparr>]"
    using Suc.IH [OF rest s1(4) _ s1(3) [symmetric], of ?t] Suc.prems(6,8) by auto
  with s1(1,2) show ?case by (intro exI [of _ s2]) (auto intro: rtranclp_trans)
qed

text \<open>So is a whole thread: on this backend \<open>Init\<close> and \<open>Close\<close> do nothing.\<close>

lemma load_delegate:
  assumes "DelegateClient fp fuel (stl_db_ops lay) run_thread (DB_Init_on DB_Init) DB_Close n True cpu db_cpu c = (Inr r, c')"
    and "wl_key_gen (c_wl c) = CounterGenerator (load_counter s)"
    and "same_config w (c_wl c)" and "c_db c = load_db s"
    and "is_loader s i t" and "ld_at t = LoadIdle" and "ld_left t = nat n" and "ld_oks t = 0"
  shows "\<exists>s'. (load_step fp w)\<^sup>*\<^sup>* s s' \<and> loaders s' = (loaders s)[i := t\<lparr>ld_left := 0, ld_oks := r\<rparr>] \<and>
    load_db s' = c_db c'"
proof -
  have "client_loop (DoInsert fp (stl_db_ops lay)) (nat n) 0 c = (Inr r, c')"
    using assms(1)
    by (auto simp: DelegateClient_def turn_def thenM_def bindM_result_Inr on_db_def onM_def DB_Init_on_def DB_Init_def
        DB_Close_def migrate_def op_run split: if_splits)
  from load_client_loop [OF this assms(2-8)] show ?thesis .
qed

section \<open>The invariant\<close>

text \<open>
  The keys that were drawn, a key that a thread holds, and what the database holds once the keys
  \<open>done\<close> were inserted with \<open>oks\<close> successes.
\<close>

definition drawn_keys :: "'d workload \<Rightarrow> u64 \<Rightarrow> nat \<Rightarrow> string list" where
  "drawn_keys w start n = map (\<lambda>i. BuildKeyName w (start + of_nat i)) [0..<n]"

definition held :: "loader \<Rightarrow> string multiset" where
  "held t =
     (case ld_at t of LoadIdle \<Rightarrow> {#} | LoadKey key \<Rightarrow> {#key#} | LoadValues key _ \<Rightarrow> {#key#}
      | LoadFault key _ \<Rightarrow> {#key#})"

definition columns :: "'d workload \<Rightarrow> string list" where
  "columns w = map field_name [0..<nat (wl_field_count w)]"

definition record_ok :: "'d workload \<Rightarrow> fieldvals \<Rightarrow> bool" where
  "record_ok w vs \<longleftrightarrow> no_nuls vs \<and> map fst vs = columns w"

definition loader_ok :: "'d workload \<Rightarrow> loader \<Rightarrow> bool" where
  "loader_ok w t \<longleftrightarrow> (\<forall>key vs. ld_at t = LoadValues key vs \<longrightarrow> record_ok w vs)"

definition stored :: "'d workload \<Rightarrow> string set \<Rightarrow> int \<Rightarrow> key_table \<Rightarrow> bool" where
  "stored w keys oks db \<longleftrightarrow>
     hdb_inv db \<and> dom (hdb_view db) = hdb_idx (wl_table w) ` keys \<and>
     (\<forall>k m. hdb_view db k = Some m \<longrightarrow> dom m = set (columns w)) \<and>
     oks = int (card (dom (hdb_view db)))"

definition load_inv :: "'d workload \<Rightarrow> u64 \<Rightarrow> nat \<Rightarrow> load \<Rightarrow> bool" where
  "load_inv w start N s \<longleftrightarrow>
     (\<exists>n ins. load_counter s = start + of_nat n \<and> n + (\<Sum>t \<leftarrow> loaders s. ld_left t) = N \<and>
       (\<Sum>t \<leftarrow> loaders s. held t) + ins = mset (drawn_keys w start n) \<and>
       (\<forall>t \<in> set (loaders s). loader_ok w t) \<and>
       stored w (set_mset ins) (load_sum s) (load_db s))"

lemma BuildValues_record:
  assumes "BuildValues fp (w', e) = (Inr vs, st)" and "same_config w w'"
  shows "record_ok w vs"
proof -
  have "map fst vs = columns w'"
    using assms(1) build_fields_names unfolding BuildValues_def columns_def by fastforce
  moreover have "columns w' = columns w" using assms(2) by (simp add: columns_def same_config_def)
  moreover have "CHR 0x00 \<notin> set (field_name i)" for i
    using nat_dec_chars [of "CHR 0x00" i] by (auto simp: field_name_def is_digit_def char_code_def)
  then have "CHR 0x00 \<notin> set f" if "f \<in> set (columns w)" for f using that by (auto simp: columns_def)
  ultimately have "\<forall>p \<in> set vs. CHR 0x00 \<notin> set (fst p)"
    by (metis image_eqI list.set_map)
  moreover have "\<forall>p \<in> set vs. CHR 0x00 \<notin> set (snd p)"
    using assms(1) build_fields_run unfolding BuildValues_def by blast
  ultimately show ?thesis
    using \<open>map fst vs = columns w'\<close> \<open>columns w' = columns w\<close>
    by (simp add: record_ok_def no_nuls_def list_all_iff)
qed

text \<open>
  Inserting a record: the first one of a key is stored and counted, a second one is refused at its
  first field and changes nothing.
\<close>

lemma stored_insert:
  assumes st: "stored w keys oks db" and vs: "record_ok w vs" and cols: "0 < wl_field_count w"
    and ins: "hdb_Insert lay (wl_table w) key vs db = (rc, db')"
  shows "stored w (insert key keys) (oks + (if rc = kOK then 1 else 0)) db'"
proof -
  let ?k = "hdb_idx (wl_table w) key"
  have inv: "hdb_inv db" and view: "dom (hdb_view db) = hdb_idx (wl_table w) ` keys"
    and oks: "oks = int (card (dom (hdb_view db)))" using st by (simp_all add: stored_def)
  have fin: "finite (dom (hdb_view db))"
  proof -
    have "dom (hdb_view db) = dom (ht_map db)" by (auto simp: hdb_view_def)
    then show ?thesis by (simp add: ht_map_def finite_dom_map_of)
  qed
  show ?thesis
  proof (cases "hdb_view db ?k")
    case None
    have dist: "distinct (map fst vs)" using vs
      by (simp add: record_ok_def columns_def distinct_map inj_on_def)
    have spec: "insert_spec vs Map.empty = (kOK, map_of vs)"
      using insert_spec_fresh [of vs Map.empty] vs dist by (simp add: record_ok_def)
    have "dom (map_of vs) = set (columns w)"
      using vs by (metis dom_map_of_conv_image_fst list.set_map record_ok_def)
    moreover have "rc = kOK \<and> hdb_inv db' \<and> hdb_view db' = (hdb_view db)(?k \<mapsto> map_of vs)"
      using hdb_Insert_laws [OF inv, of vs "wl_table w" key kOK "map_of vs" lay] None spec ins by simp
    moreover have "card (insert ?k (hdb_idx (wl_table w) ` keys)) = Suc (card (hdb_idx (wl_table w) ` keys))"
      using fin view None by (metis card_insert_disjoint domIff)
    ultimately show ?thesis using st None view oks
      by (auto simp: stored_def split: if_splits)
  next
    case (Some m)
    then have m: "dom m = set (columns w)" using st by (simp add: stored_def)
    obtain p ps where p: "vs = p # ps"
      using vs cols by (cases vs) (auto simp: record_ok_def columns_def)
    then have "fst p \<in> set (columns w)" using vs by (metis list.set_intros(1) list.simps(9) record_ok_def)
    then have "m (c_str (fst p)) \<noteq> None" using m p vs
      by (auto simp: record_ok_def no_nuls_def c_str_id)
    then have spec: "insert_spec vs m = (kErrorConflict, m)" by (simp add: p)
    have "rc = kErrorConflict \<and> hdb_inv db' \<and> hdb_view db' = (hdb_view db)(?k \<mapsto> m)"
      using hdb_Insert_laws [OF inv, of vs "wl_table w" key kErrorConflict m lay] Some spec ins by simp
    moreover have "(hdb_view db)(?k \<mapsto> m) = hdb_view db" using Some by auto
    moreover have "kErrorConflict \<noteq> kOK" by (simp add: kErrorConflict_def kOK_def)
    ultimately show ?thesis using st Some view by (auto simp: stored_def)
  qed
qed

lemma drawn_keys_Suc:
  "mset (drawn_keys w start (Suc n)) =
     add_mset (BuildKeyName w (start + of_nat n)) (mset (drawn_keys w start n))"
  by (simp add: drawn_keys_def)

text \<open>One thread changes: what the three sums and the records in hand become.\<close>

lemma loaders_change:
  assumes "is_loader s i t"
  shows "(\<Sum>x \<leftarrow> (loaders s)[i := t']. ld_left x) + ld_left t = (\<Sum>x \<leftarrow> loaders s. ld_left x) + ld_left t'"
    and "(\<Sum>x \<leftarrow> (loaders s)[i := t']. held x) + held t = (\<Sum>x \<leftarrow> loaders s. held x) + held t'"
    and "load_sum (set_loader i t' s) + ld_oks t = load_sum s + ld_oks t'"
  using is_loader_sum [OF assms, of ld_left t'] is_loader_sum [OF assms, of held t']
    is_loader_sum [OF assms, of ld_oks t'] by (simp_all add: load_sum_def)

lemma loaders_ok:
  assumes "\<forall>x \<in> set (loaders s). loader_ok w x"
  shows "is_loader s i t \<Longrightarrow> loader_ok w t"
    and "loader_ok w t' \<Longrightarrow> \<forall>x \<in> set ((loaders s)[i := t']). loader_ok w x"
  using assms set_update_subset_insert [of "loaders s" i t'] by (auto simp: is_loader_def)

lemma load_sum_other [simp]:
  "load_sum (s\<lparr>load_counter := c\<rparr>) = load_sum s" "load_sum (s\<lparr>load_db := db\<rparr>) = load_sum s"
  "is_loader (s\<lparr>load_counter := c\<rparr>) i t = is_loader s i t" "is_loader (s\<lparr>load_db := db\<rparr>) i t = is_loader s i t"
  by (simp_all add: load_sum_def is_loader_def)

lemma load_inv_step:
  assumes cols: "0 < wl_field_count w" and step: "load_step fp w s s'" and inv: "load_inv w start N s"
  shows "load_inv w start N s'"
proof -
  obtain n ins where n: "load_counter s = start + of_nat n" "n + (\<Sum>t \<leftarrow> loaders s. ld_left t) = N"
    and keys: "(\<Sum>t \<leftarrow> loaders s. held t) + ins = mset (drawn_keys w start n)"
    and oks: "\<forall>t \<in> set (loaders s). loader_ok w t"
    and st: "stored w (set_mset ins) (load_sum s) (load_db s)"
    using inv unfolding load_inv_def by blast
  from step show ?thesis
  proof cases
    case (load_draw i t m k c)
    let ?t = "t\<lparr>ld_left := m, ld_at := LoadKey (BuildKeyName w k)\<rparr>"
    note change = loaders_change [OF load_draw(2), where t' = ?t]
    have k: "k = start + of_nat n" "c = start + of_nat (Suc n)"
      using load_draw(5) n(1) by (auto simp: counter_Next_def)
    have "held t = {#}" "held ?t = {#BuildKeyName w k#}" "loader_ok w ?t"
      using load_draw(3) by (simp_all add: held_def loader_ok_def)
    then have "(\<Sum>x \<leftarrow> (loaders s)[i := ?t]. held x) + ins = mset (drawn_keys w start (Suc n))"
      using change(2) keys k(1) unfolding drawn_keys_Suc by simp
    moreover have "Suc n + (\<Sum>x \<leftarrow> (loaders s)[i := ?t]. ld_left x) = N"
      using change(1) n(2) load_draw(4) by simp
    moreover have "load_sum s' = load_sum s"
      using loaders_change(3) [where s = "s\<lparr>load_counter := c\<rparr>" and i = i and t = t and t' = ?t] load_draw(1,2) by simp
    ultimately show ?thesis
      using k(2) st loaders_ok(2) [OF oks \<open>loader_ok w ?t\<close>] unfolding load_inv_def load_draw(1)
      by (intro exI [of _ "Suc n"] exI [of _ ins]) simp
  next
    case (load_build i t key w' e vs st')
    let ?t = "t\<lparr>ld_at := LoadValues key vs\<rparr>"
    note change = loaders_change [OF load_build(2), where t' = ?t]
    have ok: "loader_ok w ?t" using BuildValues_record [OF load_build(5,4)] by (simp add: loader_ok_def)
    have "held ?t = held t" using load_build(3) by (simp add: held_def)
    with change n keys st loaders_ok(2) [OF oks ok] show ?thesis unfolding load_inv_def load_build(1)
      by (intro exI [of _ n] exI [of _ ins]) simp
  next
    case (load_fault i t key w' e err st')
    let ?t = "t\<lparr>ld_at := LoadFault key err\<rparr>"
    note change = loaders_change [OF load_fault(2), where t' = ?t]
    have ok: "loader_ok w ?t" by (simp add: loader_ok_def)
    have "held ?t = held t" using load_fault(3) by (simp add: held_def)
    with change n keys st loaders_ok(2) [OF oks ok] show ?thesis unfolding load_inv_def load_fault(1)
      by (intro exI [of _ n] exI [of _ ins]) simp
  next
    case (load_insert i t key vs lay rc db)
    define one :: int where "one = (if rc = kOK then 1 else 0)"
    define u where "u = t\<lparr>ld_at := LoadIdle, ld_oks := ld_oks t + one\<rparr>"
    have s': "s' = set_loader i u (s\<lparr>load_db := db\<rparr>)" using load_insert(1) by (simp add: u_def one_def)
    note change = loaders_change [OF load_insert(2), where t' = u]
    have u: "held t = {#key#}" "held u = {#}" "ld_left u = ld_left t" "ld_oks u = ld_oks t + one" "loader_ok w u"
      using load_insert(3) by (simp_all add: u_def held_def loader_ok_def)
    have "record_ok w vs" using loaders_ok(1) [OF oks load_insert(2)] load_insert(3) by (auto simp: loader_ok_def)
    from stored_insert [OF st this cols load_insert(4)]
    have "stored w (set_mset (add_mset key ins)) (load_sum s + one) db" by (simp add: one_def)
    moreover have "load_sum s' = load_sum s + one"
      using loaders_change(3) [where s = "s\<lparr>load_db := db\<rparr>" and i = i and t = t and t' = u] load_insert(2) u(4)
      by (simp add: s')
    moreover have "(\<Sum>x \<leftarrow> (loaders s)[i := u]. held x) + add_mset key ins = mset (drawn_keys w start n)"
      using keys unfolding change(2) [unfolded u(1,2), simplified, symmetric] by simp
    ultimately show ?thesis using n change(1) u(3) loaders_ok(2) [OF oks u(5)] unfolding load_inv_def
      by (intro exI [of _ n] exI [of _ "add_mset key ins"]) (simp add: s')
  qed
qed

section \<open>The end of the phase\<close>

lemma load_inv_init: "load_inv w start (\<Sum>(n, _) \<leftarrow> plan. nat n) (load_init start plan)"
proof -
  have sums: "(\<Sum>t \<leftarrow> loaders (load_init start plan). ld_left t) = (\<Sum>(n, _) \<leftarrow> plan. nat n)"
    "(\<Sum>t \<leftarrow> loaders (load_init start plan). held t) = {#}" "load_sum (load_init start plan) = 0"
    by (induction plan) (simp_all add: load_init_def load_sum_def held_def split: prod.splits)
  moreover have "stored w {} 0 []" by (simp add: stored_def hdb_inv_def hdb_view_def dom_def)
  moreover have "\<forall>t \<in> set (loaders (load_init start plan)). loader_ok w t"
    by (auto simp: load_init_def loader_ok_def)
  ultimately show ?thesis unfolding load_inv_def
    by (intro exI [of _ 0] exI [of _ "{#}"]) (simp add: drawn_keys_def load_init_def)
qed

lemma load_inv_reachable:
  assumes "0 < wl_field_count w" and "(load_step fp w)\<^sup>*\<^sup>* (load_init start plan) s"
  shows "load_inv w start (\<Sum>(n, _) \<leftarrow> plan. nat n) s"
  using assms(2) by (induction rule: rtranclp_induct) (auto intro: load_inv_init load_inv_step [OF assms(1)])

lemma load_inv_done:
  assumes "load_inv w start N s" and "all_loaded s"
  shows "stored w (set (drawn_keys w start N)) (load_sum s) (load_db s)"
proof -
  have "\<forall>t \<in> set (loaders s). ld_left t = 0" "\<forall>t \<in> set (loaders s). held t = {#}"
    using assms(2) by (auto simp: all_loaded_def list_all_iff held_def)
  then have "(\<Sum>t \<leftarrow> loaders s. ld_left t) = 0" "(\<Sum>t \<leftarrow> loaders s. held t) = {#}"
    by (simp_all cong: map_cong add: sum_list_0)
  with assms(1) show ?thesis unfolding load_inv_def by (auto simp flip: set_mset_mset)
qed
lemma drawn_keys_distinct:
  assumes "wl_ordered w" and "N \<le> 2 ^ 64"
  shows "distinct (drawn_keys w start N)"
proof -
  have "i = j" if "i < N" "j < N" "(of_nat i :: u64) = of_nat j" for i j
    using arg_cong [OF that(3), of unat] that(1,2) assms(2) by (simp add: unat_of_nat)
  then show ?thesis using assms(1)
    by (auto simp: drawn_keys_def distinct_map inj_on_def BuildKeyName_digits)
qed

lemma stored_all_counted:
  assumes "stored w (set (drawn_keys w start N)) oks db"
    and "wl_ordered w" and "CHR 0x00 \<notin> set (wl_table w)" and "N \<le> 2 ^ 64"
  shows "oks = int N"
proof -
  have "hdb_idx (wl_table w) k = wl_table w @ k" if "k \<in> set (drawn_keys w start N)" for k
    using that assms(3) by (auto simp: drawn_keys_def hdb_idx_def key_index_def c_str_id)
  then have "inj_on (hdb_idx (wl_table w)) (set (drawn_keys w start N))" by (simp add: inj_on_def)
  then have "card (hdb_idx (wl_table w) ` set (drawn_keys w start N)) = N"
    using drawn_keys_distinct [OF assms(2,4), of start]
    by (simp add: card_image distinct_card) (simp add: drawn_keys_def)
  with assms(1) show ?thesis by (simp add: stored_def)
qed

lemma plan_total:
  assumes "thread_plan disperse cpus num_threads ops = Inr plan" and "0 < num_threads" and "0 \<le> ops"
  shows "(\<Sum>(n, _) \<leftarrow> plan. nat n) = nat (ops - ops mod num_threads)"
proof -
  have nonneg: "\<forall>(n, _) \<in> set plan. 0 \<le> n"
    using assms by (cases "ops = 0") (auto simp: thread_plan_def Let_def pos_imp_zdiv_nonneg_iff split: if_splits)
  then have "int (\<Sum>(n, _) \<leftarrow> plan. nat n) = (\<Sum>(n, _) \<leftarrow> plan. n)"
    by (induction plan) auto
  also have "\<dots> = ops - ops mod num_threads"
    using thread_plan_sum [OF assms(1)] assms(2,3)
    by (cases "ops = 0") (simp_all add: minus_mod_eq_mult_div)
  finally show ?thesis by simp
qed

text \<open>
  C3: The loading phase loads what it counts, in every interleaving of its threads. When all threads
  of the plan have done their rounds, the records of the database are those of the keys numbered from the start
  of the counter on, as many as the threads were given, which is the configured number less its
  remainder by the number of threads; every record has exactly the columns of the table as its
  fields; and the sum of the successes that \<open>main\<close> prints is the number of records. With ordered
  keys no two threads ever get the same key, so every insertion succeeds.
\<close>

theorem load_phase_complete:
  assumes "thread_plan disperse cpus num_threads records = Inr plan"
    and "0 < num_threads" and "0 \<le> records" and "records \<le> int_max"
    and "0 < wl_field_count w"
    and "(load_step fp w)\<^sup>*\<^sup>* (load_init start plan) s" and "all_loaded s"
  shows "let N = records - records mod num_threads; keys = drawn_keys w start (nat N) in
    dom (hdb_view (load_db s)) = hdb_idx (wl_table w) ` set keys \<and>
    (\<forall>k m. hdb_view (load_db s) k = Some m \<longrightarrow> dom m = set (table_columns (hd (Tables w)))) \<and>
    load_sum s = int (card (dom (hdb_view (load_db s)))) \<and>
    (wl_ordered w \<and> CHR 0x00 \<notin> set (wl_table w) \<longrightarrow> load_sum s = N)"
proof -
  let ?N = "records - records mod num_threads"
  have st: "stored w (set (drawn_keys w start (nat ?N))) (load_sum s) (load_db s)"
    using load_inv_done [OF load_inv_reachable [OF assms(5,6)] assms(7)] plan_total [OF assms(1-3)] by simp
  have "0 \<le> ?N" "?N \<le> records" using assms(2,3) by (simp_all add: zmod_le_nonneg_dividend)
  then have "load_sum s = ?N" if "wl_ordered w" "CHR 0x00 \<notin> set (wl_table w)"
    using stored_all_counted [OF st that] assms(4) by (simp add: int_max_def nat_le_iff)
  with st show ?thesis by (simp add: stored_def columns_def Tables_def Let_def)
qed

text \<open>The steps that a thread has left.\<close>

definition load_rank :: "loader \<Rightarrow> nat" where
  "load_rank t = 3 * ld_left t +
     (case ld_at t of LoadKey _ \<Rightarrow> 2 | LoadValues _ _ \<Rightarrow> 1 | _ \<Rightarrow> 0)"

lemma load_step_rank:
  assumes "load_step fp w s s'"
  shows "(\<Sum>t \<leftarrow> loaders s'. load_rank t) < (\<Sum>t \<leftarrow> loaders s. load_rank t)"
  using assms
proof cases
  case (load_draw i t n k c)
  then show ?thesis using is_loader_sum [OF load_draw(2), of load_rank "t\<lparr>ld_left := n, ld_at := LoadKey (BuildKeyName w k)\<rparr>"]
    by (simp add: load_rank_def)
next
  case (load_build i t key w' e vs st)
  then show ?thesis using is_loader_sum [OF load_build(2), of load_rank "t\<lparr>ld_at := LoadValues key vs\<rparr>"]
    by (simp add: load_rank_def)
next
  case (load_fault i t key w' e err st)
  then show ?thesis using is_loader_sum [OF load_fault(2), of load_rank "t\<lparr>ld_at := LoadFault key err\<rparr>"]
    by (simp add: load_rank_def)
next
  case (load_insert i t key vs lay rc db)
  define u where "u = t\<lparr>ld_at := LoadIdle, ld_oks := ld_oks t + (if rc = kOK then 1 else 0)\<rparr>"
  have "load_rank u < load_rank t" using load_insert(3) by (simp add: u_def load_rank_def)
  then show ?thesis using is_loader_sum [OF load_insert(2), of load_rank u]
    by (simp add: load_insert(1) flip: u_def)
qed

lemma load_steps_rank:
  "(load_step fp w ^^ k) s s' \<Longrightarrow> k + (\<Sum>t \<leftarrow> loaders s'. load_rank t) \<le> (\<Sum>t \<leftarrow> loaders s. load_rank t)"
proof (induction k arbitrary: s')
  case (Suc k)
  then obtain m where "(load_step fp w ^^ k) s m" "load_step fp w m s'" by auto
  with Suc.IH [of m] load_step_rank show ?case by fastforce
qed simp

text \<open>A thread that is neither done nor ended by a fault can take a step.\<close>

lemma load_progress:
  assumes t: "is_loader s i t" and "ld_left t \<noteq> 0 \<or> ld_at t \<noteq> LoadIdle" and "\<nexists>key err. ld_at t = LoadFault key err"
  shows "\<exists>s'. load_step fp w s s'"
proof (cases "ld_at t")
  case LoadIdle
  then obtain n where "ld_left t = Suc n" using assms(2) by (cases "ld_left t") simp_all
  from load_draw [OF t LoadIdle this] show ?thesis by (metis counter_Next_def)
next
  case (LoadKey key)
  obtain r st where r: "BuildValues fp (w, undefined) = (r, st)" by (metis surj_pair)
  show ?thesis
  proof (cases r)
    case (Inl err)
    from load_fault [OF t LoadKey same_config_refl r [unfolded Inl]] show ?thesis by blast
  next
    case (Inr vs)
    from load_build [OF t LoadKey same_config_refl r [unfolded Inr]] show ?thesis by blast
  qed
next
  case (LoadValues key vs)
  obtain rc db where "hdb_Insert (\<lambda>_ _. 0) (wl_table w) key vs (load_db s) = (rc, db)" by (metis surj_pair)
  from load_insert [OF t LoadValues this] show ?thesis by blast
next
  case (LoadFault key err)
  with assms(3) show ?thesis by blast
qed

text \<open>Two threads that load three records, for examples.\<close>

definition two_loaders :: load where
  "two_loaders = load_init 0 [(1, 0, 0), (1, 0, 0)]"

lemma two_loaders_plan: "thread_plan False [0] 2 3 = Inr [(1, 0, 0), (1, 0, 0)]"
  by (simp add: thread_plan_def select_cpus_def Let_def upt_rec)

lemma toy_BuildValues: "\<exists>vs st. BuildValues toy_fp (toy_workload, toy_env) = (Inr vs, st)"
  by (simp add: toy_workload_def BuildValues_def upt_rec bindM_def random_value_def draw_field_len_def
      wl_draw_def gen_Next_def draw_char_def onM_def NextPrintChar_def retM_def Let_def)

lemma two_loaders_run:
  "\<exists>s. (load_step toy_fp toy_workload ^^ 6) two_loaders s \<and> all_loaded s"
proof -
  let ?idle = "\<lambda>n. \<lparr>ld_left = n, ld_at = LoadIdle, ld_oks = 0\<rparr>"
  obtain vs st where vs: "BuildValues toy_fp (toy_workload, toy_env) = (Inr vs, st)"
    using toy_BuildValues by blast
  obtain rc d where d: "hdb_Insert (\<lambda>_ _. 0) (wl_table toy_workload) (BuildKeyName toy_workload 0) vs [] = (rc, d)"
    by (metis surj_pair)
  define s1 where "s1 = \<lparr>load_counter = 1, load_db = d,
    loaders = [(?idle 0)\<lparr>ld_oks := 0 + (if rc = kOK then 1 else 0)\<rparr>, ?idle 1]\<rparr>"
  have "(load_step toy_fp toy_workload ^^ 3) two_loaders s1"
    using load_three_steps [of two_loaders 0 "?idle 1" 0, OF _ _ _ same_config_refl vs] d
    by (simp add: two_loaders_def load_init_def is_loader_def set_loader_def s1_def)
  moreover obtain rc' d' where d': "hdb_Insert (\<lambda>_ _. 0) (wl_table toy_workload) (BuildKeyName toy_workload 1) vs d = (rc', d')"
    by (metis surj_pair)
  define s2 where "s2 = \<lparr>load_counter = 2, load_db = d',
    loaders = [(?idle 0)\<lparr>ld_oks := 0 + (if rc = kOK then 1 else 0)\<rparr>,
      (?idle 0)\<lparr>ld_oks := 0 + (if rc' = kOK then 1 else 0)\<rparr>]\<rparr>"
  have "(load_step toy_fp toy_workload ^^ 3) s1 s2"
    using load_three_steps [of s1 1 "?idle 1" 0, OF _ _ _ same_config_refl vs] d'
    by (simp add: s1_def s2_def is_loader_def set_loader_def)
  ultimately have "(load_step toy_fp toy_workload ^^ (3 + 3)) two_loaders s2" by (metis relpowp_trans)
  moreover have "all_loaded s2" by (simp add: s2_def all_loaded_def)
  ultimately show ?thesis by auto
qed

theorem load_phase_complete_witness:
  "\<exists>s. (load_step toy_fp toy_workload)\<^sup>*\<^sup>* two_loaders s \<and> all_loaded s \<and>
     hdb_view (load_db s) (hdb_idx ''usertable'' (BuildKeyName toy_workload 1)) \<noteq> None"
proof -
  obtain s where s: "(load_step toy_fp toy_workload)\<^sup>*\<^sup>* two_loaders s" "all_loaded s"
    using two_loaders_run relpowp_imp_rtranclp by metis
  have "0 < wl_field_count toy_workload" "wl_table toy_workload = ''usertable''"
    by (simp_all add: toy_workload_def)
  with load_phase_complete [OF two_loaders_plan _ _ _ _ s(1) [unfolded two_loaders_def] s(2)]
  have "dom (hdb_view (load_db s)) = hdb_idx ''usertable'' ` set (drawn_keys toy_workload 0 2)"
    by (simp add: int_max_def Let_def)
  moreover have "BuildKeyName toy_workload 1 \<in> set (drawn_keys toy_workload 0 2)"
    by (simp add: drawn_keys_def upt_rec)
  ultimately show ?thesis using s by blast
qed

lemma load_init_rank: "(\<Sum>t \<leftarrow> loaders (load_init start plan). load_rank t) = 3 * (\<Sum>(n, _) \<leftarrow> plan. nat n)"
  by (induction plan) (simp_all add: load_init_def load_rank_def split: prod.splits)

text \<open>
  The loading phase ends. The threads take at most three steps for each round of the plan, in
  any order; and as long as a step is possible the phase goes on, so where no thread can take one,
  each has done its rounds or was ended by a fault of a generator. No thread ever waits for another one.
\<close>

theorem load_phase_ends:
  assumes "(load_step fp w ^^ k) (load_init start plan) s"
  shows "k \<le> 3 * (\<Sum>(n, _) \<leftarrow> plan. nat n) \<and>
    ((\<nexists>s'. load_step fp w s s') \<longrightarrow>
      (\<forall>t \<in> set (loaders s). ld_left t = 0 \<and> ld_at t = LoadIdle \<or> (\<exists>key err. ld_at t = LoadFault key err)))"
proof (intro conjI impI ballI)
  show "k \<le> 3 * (\<Sum>(n, _) \<leftarrow> plan. nat n)" using load_steps_rank [OF assms] by (simp add: load_init_rank)
next
  fix t
  assume stuck: "\<nexists>s'. load_step fp w s s'" and "t \<in> set (loaders s)"
  then obtain i where "is_loader s i t" by (auto simp: is_loader_def in_set_conv_nth)
  with load_progress stuck show "ld_left t = 0 \<and> ld_at t = LoadIdle \<or> (\<exists>key err. ld_at t = LoadFault key err)"
    by blast
qed

theorem load_phase_ends_witness:
  "\<exists>s. (load_step toy_fp toy_workload ^^ 6) two_loaders s \<and> 6 \<le> 3 * (\<Sum>(n, _) \<leftarrow> [(1::int, 0::nat, 0::nat), (1, 0, 0)]. nat n)"
proof -
  obtain s where s: "(load_step toy_fp toy_workload ^^ 6) two_loaders s" using two_loaders_run by blast
  from load_phase_ends [OF s [unfolded two_loaders_def]] s show ?thesis by blast
qed

end
