(* ===== verification/RunPhase.thy ===== *)
theory RunPhase
  imports LoadPhase
begin

text \<open>
  The transaction phase of \<open>main\<close> with the \<open>lock_stl\<close> backend. After the loading phase \<open>main\<close> starts the
  threads again on the same workload and database. A transaction asks the workload several times and
  calls the database once or twice; \<open>run_step\<close> interleaves these calls of all threads in any order.
\<close>

section \<open>The threads\<close>

text \<open>
  Where a thread stands in \<open>DoTransaction\<close>: what it has drawn, and between the two calls of a
  read-modify-write \<open>RunRead\<close>.
\<close>

datatype runner_at =
    RunIdle
  | RunOper operation
  | RunKey operation string
  | RunLen string u64
  | RunFields operation string u64 "string list option"
  | RunRead string
  | RunValues operation string fieldvals
  | RunFault fault

record runner =
  rn_left :: nat
  rn_at :: runner_at
  rn_oks :: int

record run =
  run_counter :: u64
  run_db :: key_table
  runners :: "runner list"

definition is_runner :: "run \<Rightarrow> nat \<Rightarrow> runner \<Rightarrow> bool" where
  "is_runner s i t \<longleftrightarrow> i < length (runners s) \<and> runners s ! i = t"

definition set_runner :: "nat \<Rightarrow> runner \<Rightarrow> run \<Rightarrow> run" where
  "set_runner i t s = s\<lparr>runners := (runners s)[i := t]\<rparr>"

text \<open>
  The calls of the workload that a transaction makes from one place to the next, except for the drawing
  of a key to insert. \<open>NextTransactionKey\<close> has rounds for its retry loop.
\<close>

fun wl_call :: "'d fp \<Rightarrow> nat \<Rightarrow> runner_at \<Rightarrow> ('d, key_table, runner_at) client_op option" where
  "wl_call fp fuel (RunOper oper) =
     (if oper = INSERT then None
      else Some (bindM (on_wl (NextTransactionKey fp fuel)) (\<lambda>key. retM (RunKey oper key))))"
| "wl_call fp fuel (RunKey oper key) =
     Some (case oper of
        READ \<Rightarrow> bindM (request_fields fp) (\<lambda>flds. retM (RunFields READ key 0 flds))
      | READMODIFYWRITE \<Rightarrow> bindM (request_fields fp) (\<lambda>flds. retM (RunFields READMODIFYWRITE key 0 flds))
      | SCAN \<Rightarrow> bindM (on_wl (NextScanLength fp)) (\<lambda>len. retM (RunLen key len))
      | UPDATE \<Rightarrow> bindM (request_values fp) (\<lambda>vs. retM (RunValues UPDATE key vs))
      | INSERT \<Rightarrow> bindM (on_wl (BuildValues fp)) (\<lambda>vs. retM (RunValues INSERT key vs)))"
| "wl_call fp fuel (RunLen key len) =
     Some (bindM (request_fields fp) (\<lambda>flds. retM (RunFields SCAN key len flds)))"
| "wl_call fp fuel (RunRead key) =
     Some (bindM (request_values fp) (\<lambda>vs. retM (RunValues READMODIFYWRITE key vs)))"
| "wl_call fp fuel a = None"

text \<open>The operation that a thread at a place has drawn.\<close>

fun oper_of :: "runner_at \<Rightarrow> operation option" where
  "oper_of RunIdle = None"
| "oper_of (RunOper oper) = Some oper"
| "oper_of (RunKey oper key) = Some oper"
| "oper_of (RunLen key len) = Some SCAN"
| "oper_of (RunFields oper key len flds) = Some oper"
| "oper_of (RunRead key) = Some READMODIFYWRITE"
| "oper_of (RunValues oper key vs) = Some oper"
| "oper_of (RunFault err) = None"

text \<open>
  The calls of the database: what it returns and holds afterwards. Every call ends its transaction with a
  status, except for the read of a read-modify-write, whose status is ignored.
\<close>

fun db_call :: "layout \<Rightarrow> string \<Rightarrow> runner_at \<Rightarrow> key_table \<Rightarrow> ((string + int) \<times> key_table) option" where
  "db_call lay table (RunFields oper key len flds) db =
     (case oper of
        READ \<Rightarrow> Some (Inr (fst (hdb_Read table key flds [] db)), db)
      | READMODIFYWRITE \<Rightarrow> Some (Inl key, db)
      | SCAN \<Rightarrow> Some (Inr (fst (hdb_Scan table key (size_to_int len) flds db)), db)
      | _ \<Rightarrow> None)"
| "db_call lay table (RunValues oper key vs) db =
     Some (apfst Inr (if oper = INSERT then hdb_Insert lay table key vs db else hdb_Update lay table key vs db))"
| "db_call lay table a db = None"

text \<open>The end of a transaction: the assertion on its status, and the count of successes.\<close>

definition finish_txn :: "int \<Rightarrow> runner \<Rightarrow> runner" where
  "finish_txn status t =
     (if status < 0 then t\<lparr>rn_at := RunFault AssertFailed\<rparr>
      else t\<lparr>rn_at := RunIdle, rn_oks := rn_oks t + (if status = kOK then 1 else 0)\<rparr>)"

text \<open>
  The steps. As in the loading phase, other threads advance the generators meanwhile, so a call of the
  workload starts from any state with the same configuration and from any state of the random engines.
\<close>

inductive run_step :: "'d fp \<Rightarrow> 'd workload \<Rightarrow> run \<Rightarrow> run \<Rightarrow> bool" for fp w where
  run_choose: "is_runner s i t \<Longrightarrow> rn_at t = RunIdle \<Longrightarrow> rn_left t = Suc n \<Longrightarrow> same_config w w' \<Longrightarrow>
    NextOperation fp (w', e) = (r, st) \<Longrightarrow>
    run_step fp w s (set_runner i (t\<lparr>rn_left := n,
      rn_at := (case r of Inl err \<Rightarrow> RunFault err | Inr oper \<Rightarrow> RunOper oper)\<rparr>) s)"
| run_sequence: "is_runner s i t \<Longrightarrow> rn_at t = RunOper INSERT \<Longrightarrow>
    counter_Next (run_counter s) = (k, c) \<Longrightarrow>
    run_step fp w s (set_runner i (t\<lparr>rn_at := RunKey INSERT (BuildKeyName w k)\<rparr>) (s\<lparr>run_counter := c\<rparr>))"
| run_ask: "is_runner s i t \<Longrightarrow> wl_call fp fuel (rn_at t) = Some m \<Longrightarrow> same_config w (c_wl c) \<Longrightarrow>
    m c = (Inr a, d) \<Longrightarrow>
    run_step fp w s (set_runner i (t\<lparr>rn_at := a\<rparr>) s)"
| run_fault: "is_runner s i t \<Longrightarrow> wl_call fp fuel (rn_at t) = Some m \<Longrightarrow> same_config w (c_wl c) \<Longrightarrow>
    m c = (Inl err, d) \<Longrightarrow> err \<noteq> OutOfFuel \<Longrightarrow>
    run_step fp w s (set_runner i (t\<lparr>rn_at := RunFault err\<rparr>) s)"
| run_read: "is_runner s i t \<Longrightarrow> db_call lay (wl_table w) (rn_at t) (run_db s) = Some (Inl key, db) \<Longrightarrow>
    run_step fp w s (set_runner i (t\<lparr>rn_at := RunRead key\<rparr>) (s\<lparr>run_db := db\<rparr>))"
| run_call: "is_runner s i t \<Longrightarrow> db_call lay (wl_table w) (rn_at t) (run_db s) = Some (Inr status, db) \<Longrightarrow>
    run_step fp w s (set_runner i (finish_txn status t) (s\<lparr>run_db := db\<rparr>))"

text \<open>
  The phase starts with the counter and the database as the loading phase left them. \<open>run_sum\<close> is the sum
  over the threads that \<open>main\<close> takes.
\<close>

definition run_init :: "u64 \<Rightarrow> key_table \<Rightarrow> (int \<times> nat \<times> nat) list \<Rightarrow> run" where
  "run_init c db plan =
     \<lparr>run_counter = c, run_db = db,
      runners = map (\<lambda>(n, _). \<lparr>rn_left = nat n, rn_at = RunIdle, rn_oks = 0\<rparr>) plan\<rparr>"

definition all_run :: "run \<Rightarrow> bool" where
  "all_run s \<longleftrightarrow> list_all (\<lambda>t. rn_left t = 0 \<and> rn_at t = RunIdle) (runners s)"

definition run_sum :: "run \<Rightarrow> int" where
  "run_sum s = (\<Sum>t \<leftarrow> runners s. rn_oks t)"

lemma runner_simps [simp]:
  "run_counter (set_runner i t s) = run_counter s" "run_db (set_runner i t s) = run_db s"
  "runners (set_runner i t s) = (runners s)[i := t]"
  by (simp_all add: set_runner_def)

lemma is_runner_sum:
  fixes f :: "runner \<Rightarrow> 'b::comm_monoid_add"
  shows "is_runner s i t \<Longrightarrow>
    (\<Sum>x \<leftarrow> (runners s)[i := y]. f x) + f t = (\<Sum>x \<leftarrow> runners s. f x) + f y"
  using sum_list_upd [of i "runners s" f y] by (simp add: is_runner_def)

lemma is_runner_other [simp]:
  "is_runner (s\<lparr>run_counter := c\<rparr>) i t = is_runner s i t" "is_runner (s\<lparr>run_db := db\<rparr>) i t = is_runner s i t"
  by (simp_all add: is_runner_def)

section \<open>A transaction alone is some steps of its thread\<close>

text \<open>The workload operations that leave the counter of keys alone: all but the drawing of a key to insert.\<close>

definition quiet :: "('d, 'a) wl_op \<Rightarrow> bool" where
  "quiet m \<longleftrightarrow> (\<forall>s. wl_key_gen (fst (snd (m s))) = wl_key_gen (fst s))"

named_theorems quiet_rules \<open>workload operations that leave the counter alone\<close>

lemma quietD: "quiet m \<Longrightarrow> m s = (r, t) \<Longrightarrow> wl_key_gen (fst t) = wl_key_gen (fst s)"
  by (metis quiet_def snd_conv)

lemma quiet_pure [quiet_rules]: "quiet (retM x)" "quiet (getM f)" "quiet (throwM err)"
  by (simp_all add: quiet_def op_simps)

lemma quiet_bindM [quiet_rules]:
  assumes m: "quiet m" and f: "\<And>x. quiet (f x)"
  shows "quiet (bindM m f)"
  unfolding quiet_def
proof
  fix s :: "'a workload \<times> 'a env"
  obtain r t where r: "m s = (r, t)" by (metis surj_pair)
  from quietD [OF m r] f [unfolded quiet_def] show "wl_key_gen (fst (snd (bindM m f s))) = wl_key_gen (fst s)"
    by (cases r; cases t) (simp_all add: r bindM_def)
qed

lemma quiet_draws [quiet_rules]:
  "quiet (draw_key fp)" "quiet (draw_field fp)" "quiet (draw_field_len fp)" "quiet (draw_scan_len fp)" "quiet draw_char"
  by (auto simp: quiet_def draw_key_def draw_field_def draw_field_len_def draw_scan_len_def wl_draw_def draw_char_def
      onM_def split: prod.split)

lemma quiet_draw_until [quiet_rules]: "quiet m \<Longrightarrow> quiet (draw_until m p fuel)"
  by (induction fuel) (auto intro!: quiet_rules)

lemma quiet_calls [quiet_rules]:
  "quiet NextTable" "quiet (NextFieldName fp)" "quiet (NextScanLength fp)" "quiet (random_value fp)" "quiet (BuildUpdate fp)"
  unfolding NextTable_def NextFieldName_def NextScanLength_def random_value_def BuildUpdate_def by (intro quiet_rules)+

lemma quiet_build_fields [quiet_rules]: "quiet (build_fields fp is)"
  by (induction "is") (auto intro!: quiet_rules)

lemma quiet_own_state [quiet_rules]: "quiet (BuildValues fp)" "quiet (NextTransactionKey fp fuel)" "quiet (NextOperation fp)"
proof -
  show "quiet (BuildValues fp)"
    unfolding quiet_def BuildValues_def by (intro allI quiet_build_fields [unfolded quiet_def, rule_format])
  have "quiet (bindM (draw_until (draw_key fp) q fuel) (\<lambda>k. getM (\<lambda>(w, _). BuildKeyName w k)))" for q
    by (intro quiet_rules)
  then show "quiet (NextTransactionKey fp fuel)" by (simp add: quiet_def NextTransactionKey_def)
  show "quiet (NextOperation fp)"
    by (auto simp: quiet_def NextOperation_def discrete_Next_run Let_def split: prod.split option.split)
qed

text \<open>What a client keeps when it only asks the workload.\<close>

definition asks :: "('d, 'db) client \<Rightarrow> ('d, 'db) client \<Rightarrow> bool" where
  "asks c d \<longleftrightarrow> c_db d = c_db c \<and> same_config (c_wl c) (c_wl d) \<and> wl_key_gen (c_wl d) = wl_key_gen (c_wl c)"

lemma asks_refl [simp]: "asks c c"
  by (simp add: asks_def)

lemma on_wl_asks: "keeps_config m \<Longrightarrow> quiet m \<Longrightarrow> on_wl m c = (r, d) \<Longrightarrow> asks c d"
  using on_wl_keeps [of m c r d] quietD [of m "(c_wl c, c_env c)" r] by (auto simp: asks_def dest!: on_wl_result)

lemma request_asks:
  "request_fields fp c = (Inr flds, d) \<Longrightarrow> asks c d" "request_values fp c = (Inr vs, d) \<Longrightarrow> asks c d"
  using on_wl_asks [OF keeps_choices(3) quiet_calls(2), of fp c] on_wl_asks [OF keeps_BuildValues quiet_own_state(1), of fp c]
    on_wl_asks [OF keeps_BuildUpdate quiet_calls(5), of fp c]
  by (auto simp: request_fields_def request_values_def bindM_result_Inr getM_def retM_def split: if_splits)

lemma wl_call_asks:
  assumes "wl_call fp fuel a = Some m" and "m c = (Inr a', d)"
  shows "asks c d"
proof (cases a)
  case (RunOper oper)
  with assms show ?thesis
    by (auto simp: bindM_result_Inr retM_def split: if_splits dest: on_wl_asks [OF keeps_NextTransactionKey quiet_own_state(2)])
next
  case (RunKey oper key)
  with assms show ?thesis
    by (cases oper) (auto simp: bindM_result_Inr retM_def dest: request_asks
        on_wl_asks [OF keeps_choices(4) quiet_calls(3)] on_wl_asks [OF keeps_BuildValues quiet_own_state(1)])
qed (use assms in \<open>auto simp: bindM_result_Inr retM_def dest: request_asks\<close>)

text \<open>
  A thread \<open>i\<close> that stands at \<open>a\<close> with the state \<open>c\<close> of its client, and what the others see of a part of its
  turn.
\<close>

definition stands :: "'d workload \<Rightarrow> nat \<Rightarrow> runner \<Rightarrow> ('d, key_table) client \<Rightarrow> run \<Rightarrow> bool" where
  "stands w i t c s \<longleftrightarrow> is_runner s i t \<and> wl_key_gen (c_wl c) = CounterGenerator (run_counter s) \<and>
     same_config w (c_wl c) \<and> c_db c = run_db s"

definition part_of_turn ::
  "'d fp \<Rightarrow> 'd workload \<Rightarrow> nat \<Rightarrow> run \<Rightarrow> runner \<Rightarrow> ('d, key_table) client \<Rightarrow> run \<Rightarrow> bool" where
  "part_of_turn fp w i s t c s' \<longleftrightarrow> (run_step fp w)\<^sup>*\<^sup>* s s' \<and> stands w i t c s' \<and> i < length (runners s) \<and>
     runners s' = (runners s)[i := t]"

lemma part_start: "stands w i t c s \<Longrightarrow> part_of_turn fp w i s t c s"
  by (auto simp: part_of_turn_def stands_def is_runner_def)

lemma part_step:
  assumes "part_of_turn fp w i s t c s1" and "run_step fp w s1 s2" and "s2 = set_runner i t' (s1\<lparr>run_counter := k, run_db := b\<rparr>)"
    and "wl_key_gen (c_wl d) = CounterGenerator k" and "same_config w (c_wl d)" and "c_db d = b"
  shows "part_of_turn fp w i s t' d s2"
proof -
  have "(run_step fp w)\<^sup>*\<^sup>* s s2" using assms(1,2) by (auto simp: part_of_turn_def intro: rtranclp.rtrancl_into_rtrancl)
  with assms show ?thesis by (simp add: part_of_turn_def stands_def is_runner_def)
qed

lemma part_choose:
  assumes "stands w i t c s" and "rn_at t = RunIdle" and "rn_left t = Suc n" and "on_wl (NextOperation fp) c = (Inr oper, d)"
  shows "\<exists>s2. part_of_turn fp w i s (t\<lparr>rn_left := n, rn_at := RunOper oper\<rparr>) d s2"
proof -
  have t: "is_runner s i t" "same_config w (c_wl c)" using assms(1) by (simp_all add: stands_def)
  obtain w1 e1 where r: "NextOperation fp (c_wl c, c_env c) = (Inr oper, (w1, e1))" using on_wl_result [OF assms(4)] by blast
  from part_step [OF part_start [OF assms(1)] run_choose [OF t(1) assms(2,3) t(2) r], where k = "run_counter s" and b = "run_db s" and d = d]
    on_wl_asks [OF keeps_NextOperation quiet_own_state(3) assms(4)] assms(1) same_config_trans [OF t(2)]
  show ?thesis by (auto simp: asks_def stands_def)
qed

lemma part_ask:
  assumes "part_of_turn fp w i s t c s1" and "wl_call fp fuel (rn_at t) = Some m" and "m c = (Inr a, d)"
  shows "\<exists>s2. part_of_turn fp w i s (t\<lparr>rn_at := a\<rparr>) d s2"
proof -
  have t: "is_runner s1 i t" "same_config w (c_wl c)" "stands w i t c s1" using assms(1) by (simp_all add: part_of_turn_def stands_def)
  from part_step [OF assms(1) run_ask [OF t(1) assms(2) t(2) assms(3)], where k = "run_counter s1" and b = "run_db s1" and d = d]
    wl_call_asks [OF assms(2,3)] t(3) same_config_trans [OF t(2)]
  show ?thesis by (auto simp: asks_def stands_def)
qed

lemma part_sequence:
  assumes "part_of_turn fp w i s t c s1" and "rn_at t = RunOper INSERT" and "on_wl (NextSequenceKey fp) c = (Inr key, d)"
  shows "\<exists>s2. part_of_turn fp w i s (t\<lparr>rn_at := RunKey INSERT key\<rparr>) d s2"
proof -
  have t: "is_runner s1 i t" "same_config w (c_wl c)" "wl_key_gen (c_wl c) = CounterGenerator (run_counter s1)" "stands w i t c s1"
    using assms(1) by (simp_all add: part_of_turn_def stands_def)
  let ?k = "run_counter s1"
  from sequence_counter [OF t(3)] assms(3)
  have key: "key = BuildKeyName w ?k" and d: "d = c\<lparr>c_wl := (c_wl c)\<lparr>wl_key_gen := CounterGenerator (?k + 1)\<rparr>\<rparr>"
    using BuildKeyName_config [OF t(2)] by (auto simp: on_wl_def onM_def)
  have "same_config w (c_wl d)"
    using same_config_trans [OF t(2)] on_wl_keeps [OF keeps_choices(2) assms(3)] by blast
  with part_step [OF assms(1) run_sequence [OF t(1) assms(2), of ?k "?k + 1"], where k = "?k + 1" and b = "run_db s1" and d = d] t(4)
  show ?thesis by (auto simp: counter_Next_def key d stands_def)
qed

lemma part_call:
  assumes "part_of_turn fp w i s t c s1" and "db_call lay (wl_table w) (rn_at t) (c_db c) = Some (res, db)"
  shows "\<exists>s2. part_of_turn fp w i s (case res of Inl key \<Rightarrow> t\<lparr>rn_at := RunRead key\<rparr> | Inr status \<Rightarrow> finish_txn status t)
    (c\<lparr>c_db := db\<rparr>) s2"
proof -
  have t: "is_runner s1 i t" "stands w i t c s1" and db: "db_call lay (wl_table w) (rn_at t) (run_db s1) = Some (res, db)"
    using assms by (simp_all add: part_of_turn_def stands_def)
  let ?t = "case res of Inl key \<Rightarrow> t\<lparr>rn_at := RunRead key\<rparr> | Inr status \<Rightarrow> finish_txn status t"
  have "run_step fp w s1 (set_runner i ?t (s1\<lparr>run_db := db\<rparr>))"
    using run_read [OF t(1), of lay w] run_call [OF t(1), of lay w] db by (cases res) simp_all
  from part_step [OF assms(1) this, where k = "run_counter s1" and b = db and d = "c\<lparr>c_db := db\<rparr>"] t(2) show ?thesis by (auto simp: stands_def)
qed

text \<open>
  Whatever a transaction does on its own, its thread can do in steps; so the schedules of \<open>run_step\<close> include
  those of \<open>DoTransaction\<close>.
\<close>

lemma transaction_steps:
  assumes run: "transaction fp fuel (stl_db_ops lay) oper c = (Inr status, c')"
    and part: "part_of_turn fp w i s t c s1" and at: "rn_at t = RunOper oper"
  shows "\<exists>s2 a. part_of_turn fp w i s (finish_txn status (t\<lparr>rn_at := a\<rparr>)) c' s2"
proof -
  have conf: "same_config w (c_wl c)" using part by (simp add: part_of_turn_def stands_def)
  have tab: "wl_table (c_wl c) = wl_table w" using conf by (simp add: same_config_def)
  have stl: "op_Read (stl_db_ops lay) tb key flds [] b = (Inr (hdb_Read tb key flds [] b), b)"
    "op_Scan (stl_db_ops lay) tb key len flds [] b = (Inr (hdb_Scan tb key len flds b), b)"
    "op_Update (stl_db_ops lay) tb key vs b = (Inr (fst (hdb_Update lay tb key vs b)), snd (hdb_Update lay tb key vs b))"
    for tb key flds len vs b by (simp_all add: stl_db_ops_def split: prod.split)
  have ask: "\<exists>s2. part_of_turn fp w i s (t\<lparr>rn_at := a'\<rparr>) d s2"
    if "part_of_turn fp w i s (t\<lparr>rn_at := a\<rparr>) c1 s1" "wl_call fp fuel a = Some m" "m c1 = (Inr a', d)" for a a' c1 d m s1
    using part_ask [OF that(1), of fuel m a' d] that(2,3) by simp
  have call: "\<exists>s2. part_of_turn fp w i s (finish_txn status (t\<lparr>rn_at := a\<rparr>)) (c1\<lparr>c_db := db\<rparr>) s2"
    if "part_of_turn fp w i s (t\<lparr>rn_at := a\<rparr>) c1 s1" "db_call lay (wl_table w) a (c_db c1) = Some (Inr status, db)" for a c1 db s1
    using part_call [OF that(1), of lay "Inr status" db] that(2) by simp
  have start: "part_of_turn fp w i s (t\<lparr>rn_at := RunOper oper\<rparr>) c s1" using part at by (cases t) simp
  have key: "\<exists>s2. part_of_turn fp w i s (t\<lparr>rn_at := RunKey oper key\<rparr>) d s2"
    if "on_wl (NextTransactionKey fp fuel) c = (Inr key, d)" "oper \<noteq> INSERT" for key d
    by (rule ask [OF start]) (simp add: that(2), simp add: that(1) bindM_Inr retM_def)
  show ?thesis
  proof (cases oper)
    case READ
    with run obtain key c1 flds c2 rc where "on_wl (NextTransactionKey fp fuel) c = (Inr key, c1)"
      and f: "request_fields fp c1 = (Inr flds, c2)" and c': "c' = c2" "status = fst (hdb_Read (wl_table w) key flds [] (c_db c2))"
      by (auto simp: transaction_def TransactionRead_def bindM_result_Inr retM_def tab on_db_def onM_def stl split_beta dest!: NextTable_result)
    then obtain s2 where "part_of_turn fp w i s (t\<lparr>rn_at := RunKey READ key\<rparr>) c1 s2" using key READ by blast
    from ask [OF this] f obtain s3 where "part_of_turn fp w i s (t\<lparr>rn_at := RunFields READ key 0 flds\<rparr>) c2 s3"
      by (fastforce simp: bindM_Inr retM_def)
    from call [OF this, of "c_db c2"] c' show ?thesis by auto
  next
    case SCAN
    with run obtain key c1 len c2 flds c3 where "on_wl (NextTransactionKey fp fuel) c = (Inr key, c1)"
      and l: "on_wl (NextScanLength fp) c1 = (Inr len, c2)" and f: "request_fields fp c2 = (Inr flds, c3)"
      and c': "c' = c3" "status = fst (hdb_Scan (wl_table w) key (size_to_int len) flds (c_db c3))"
      by (auto simp: transaction_def TransactionScan_def bindM_result_Inr retM_def tab on_db_def onM_def stl split_beta dest!: NextTable_result)
    then obtain s2 where "part_of_turn fp w i s (t\<lparr>rn_at := RunKey SCAN key\<rparr>) c1 s2" using key SCAN by blast
    from ask [OF this] l obtain s3 where "part_of_turn fp w i s (t\<lparr>rn_at := RunLen key len\<rparr>) c2 s3"
      by (fastforce simp: bindM_Inr retM_def)
    from ask [OF this] f obtain s4 where "part_of_turn fp w i s (t\<lparr>rn_at := RunFields SCAN key len flds\<rparr>) c3 s4"
      by (fastforce simp: bindM_Inr retM_def)
    from call [OF this, of "c_db c3"] c' show ?thesis by auto
  next
    case UPDATE
    with run obtain key c1 vs c2 where "on_wl (NextTransactionKey fp fuel) c = (Inr key, c1)"
      and v: "request_values fp c1 = (Inr vs, c2)"
      and c': "c' = c2\<lparr>c_db := snd (hdb_Update lay (wl_table w) key vs (c_db c2))\<rparr>"
        "status = fst (hdb_Update lay (wl_table w) key vs (c_db c2))"
      by (auto simp: transaction_def TransactionUpdate_def bindM_result_Inr retM_def tab on_db_def onM_def stl split_beta dest!: NextTable_result)
    then obtain s2 where "part_of_turn fp w i s (t\<lparr>rn_at := RunKey UPDATE key\<rparr>) c1 s2" using key UPDATE by blast
    from ask [OF this] v obtain s3 where "part_of_turn fp w i s (t\<lparr>rn_at := RunValues UPDATE key vs\<rparr>) c2 s3"
      by (fastforce simp: bindM_Inr retM_def)
    from call [OF this] c' show ?thesis by (fastforce simp: apfst_def map_prod_def split_beta)
  next
    case READMODIFYWRITE
    with run obtain key c1 flds c2 vs c3 where "on_wl (NextTransactionKey fp fuel) c = (Inr key, c1)"
      and f: "request_fields fp c1 = (Inr flds, c2)" and v: "request_values fp c2 = (Inr vs, c3)"
      and c': "c' = c3\<lparr>c_db := snd (hdb_Update lay (wl_table w) key vs (c_db c3))\<rparr>"
        "status = fst (hdb_Update lay (wl_table w) key vs (c_db c3))"
      by (auto simp: transaction_def TransactionReadModifyWrite_def bindM_result_Inr retM_def tab on_db_def onM_def stl split_beta
          dest!: NextTable_result)
    then obtain s2 where "part_of_turn fp w i s (t\<lparr>rn_at := RunKey READMODIFYWRITE key\<rparr>) c1 s2" using key READMODIFYWRITE by blast
    from ask [OF this] f obtain s3 where "part_of_turn fp w i s (t\<lparr>rn_at := RunFields READMODIFYWRITE key 0 flds\<rparr>) c2 s3"
      by (fastforce simp: bindM_Inr retM_def)
    from part_call [OF this, of lay "Inl key" "c_db c2"] obtain s4 where
      "part_of_turn fp w i s (t\<lparr>rn_at := RunRead key\<rparr>) c2 s4" by auto
    from ask [OF this] v obtain s5 where "part_of_turn fp w i s (t\<lparr>rn_at := RunValues READMODIFYWRITE key vs\<rparr>) c3 s5"
      by (fastforce simp: bindM_Inr retM_def)
    from call [OF this] c' show ?thesis by (fastforce simp: apfst_def map_prod_def split_beta)
  next
    case INSERT
    with run obtain key c1 vs c2 where k: "on_wl (NextSequenceKey fp) c = (Inr key, c1)"
      and v: "on_wl (BuildValues fp) c1 = (Inr vs, c2)"
      and c': "c' = c2\<lparr>c_db := snd (hdb_Insert lay (wl_table w) key vs (c_db c2))\<rparr>"
        "status = fst (hdb_Insert lay (wl_table w) key vs (c_db c2))"
      by (auto simp: transaction_def TransactionInsert_def bindM_result_Inr retM_def tab on_db_def onM_def stl_insert_op
          dest!: NextTable_result)
    obtain s2 where "part_of_turn fp w i s (t\<lparr>rn_at := RunKey INSERT key\<rparr>) c1 s2"
      using part_sequence [OF start _ k] INSERT by auto
    from ask [OF this] v obtain s3 where "part_of_turn fp w i s (t\<lparr>rn_at := RunValues INSERT key vs\<rparr>) c2 s3"
      by (fastforce simp: bindM_Inr retM_def)
    from call [OF this] c' show ?thesis by (fastforce simp: apfst_def map_prod_def split_beta)
  qed
qed

lemma run_turn:
  assumes run: "DoTransaction fp fuel (stl_db_ops lay) c = (Inr ok, c')"
    and t: "stands w i t c s" "rn_at t = RunIdle" "rn_left t = Suc n"
  shows "\<exists>s'. part_of_turn fp w i s (t\<lparr>rn_left := n, rn_oks := rn_oks t + (if ok then 1 else 0)\<rparr>) c' s'"
proof -
  from run obtain oper c1 status where oper: "on_wl (NextOperation fp) c = (Inr oper, c1)"
    and tr: "transaction fp fuel (stl_db_ops lay) oper c1 = (Inr status, c')" and ok: "0 \<le> status" "ok = (status = kOK)"
    by (auto simp: DoTransaction_def bindM_result_Inr throwM_def retM_def split: if_splits)
  from part_choose [OF t oper] obtain s1 where "part_of_turn fp w i s (t\<lparr>rn_left := n, rn_at := RunOper oper\<rparr>) c1 s1" by blast
  from transaction_steps [OF tr this] show ?thesis using t(2) ok by (cases t) (auto simp: finish_txn_def)
qed

text \<open>The loop of one thread that is never interrupted is one of the schedules.\<close>

lemma run_client_loop:
  assumes "client_loop (DoTransaction fp fuel (stl_db_ops lay)) n oks c = (Inr r, c')"
    and "stands w i t c s" and "rn_at t = RunIdle" and "rn_left t = n" and "rn_oks t = oks"
  shows "\<exists>s'. part_of_turn fp w i s (t\<lparr>rn_left := 0, rn_oks := r\<rparr>) c' s'"
  using assms
proof (induction n arbitrary: oks c s t)
  case 0
  then have "t\<lparr>rn_left := 0, rn_oks := r\<rparr> = t" "c' = c" by (auto simp: retM_def)
  with part_start [OF 0(2)] show ?case by auto
next
  case (Suc n)
  from Suc.prems(1) obtain ok d where turn: "DoTransaction fp fuel (stl_db_ops lay) c = (Inr ok, d)"
    and rest: "client_loop (DoTransaction fp fuel (stl_db_ops lay)) n (oks + (if ok then 1 else 0)) d = (Inr r, c')"
    by (auto simp: bindM_result_Inr)
  let ?t = "t\<lparr>rn_left := n, rn_oks := rn_oks t + (if ok then 1 else 0)\<rparr>"
  obtain s1 where s1: "part_of_turn fp w i s ?t d s1" using run_turn [OF turn Suc.prems(2-4)] by blast
  then have "stands w i ?t d s1" by (simp add: part_of_turn_def)
  from Suc.IH [OF rest this] Suc.prems(3,5) obtain s2 where "part_of_turn fp w i s1 (?t\<lparr>rn_left := 0, rn_oks := r\<rparr>) c' s2" by auto
  with s1 show ?case by (intro exI [of _ s2]) (auto simp: part_of_turn_def)
qed


section \<open>The invariant\<close>

text \<open>
  The key that a thread has drawn and not inserted yet, the transactions that it has begun and not ended, and
  those for which it may still draw a key.
\<close>

definition run_held :: "runner \<Rightarrow> string multiset" where
  "run_held t =
     (case rn_at t of
        RunKey oper key \<Rightarrow> if oper = INSERT then {#key#} else {#}
      | RunValues oper key _ \<Rightarrow> if oper = INSERT then {#key#} else {#}
      | _ \<Rightarrow> {#})"

definition rounds_left :: "runner \<Rightarrow> int" where
  "rounds_left t = int (rn_left t) + (if rn_at t = RunIdle then 0 else 1)"

definition draws_left :: "runner \<Rightarrow> nat" where
  "draws_left t = rn_left t + (case rn_at t of RunOper _ \<Rightarrow> 1 | _ \<Rightarrow> 0)"

text \<open>What a thread holds: keys that are in the database, and values that fit the table.\<close>

fun place_ok :: "'d workload \<Rightarrow> string set \<Rightarrow> runner_at \<Rightarrow> bool" where
  "place_ok w base (RunKey oper key) = (oper = INSERT \<or> key \<in> base)"
| "place_ok w base (RunLen key len) = (key \<in> base)"
| "place_ok w base (RunFields oper key len flds) = (oper \<noteq> INSERT \<and> key \<in> base)"
| "place_ok w base (RunRead key) = (key \<in> base)"
| "place_ok w base (RunValues oper key vs) =
     (if oper = INSERT then record_ok w vs else key \<in> base \<and> fst ` set vs \<subseteq> set (columns w))"
| "place_ok w base a = True"

definition runner_ok :: "bool \<Rightarrow> 'd workload \<Rightarrow> string set \<Rightarrow> runner \<Rightarrow> bool" where
  "runner_ok inserts w base t \<longleftrightarrow> place_ok w base (rn_at t) \<and> (oper_of (rn_at t) = Some INSERT \<longrightarrow> inserts)"

definition run_inv :: "bool \<Rightarrow> 'd workload \<Rightarrow> nat \<Rightarrow> nat \<Rightarrow> run \<Rightarrow> bool" where
  "run_inv inserts w N M s \<longleftrightarrow>
     (\<exists>n ins oks. run_counter s = of_nat (N + n) \<and> n + (\<Sum>t \<leftarrow> runners s. draws_left t) \<le> M \<and>
       (\<Sum>t \<leftarrow> runners s. run_held t) + ins \<subseteq># mset (drawn_keys w (of_nat N) n) \<and>
       (\<forall>t \<in> set (runners s). runner_ok inserts w (set (drawn_keys w 0 N)) t) \<and>
       stored w (set (drawn_keys w 0 N) \<union> set_mset ins) oks (run_db s) \<and>
       run_sum s + (\<Sum>t \<leftarrow> runners s. rounds_left t) = int M)"

text \<open>What the calls of the workload give.\<close>

lemma a_key_loaded:
  assumes "a_key w key" and "wl_insert_seq w = of_nat N" and "0 < N" and "N < 2 ^ 64"
  shows "key \<in> set (drawn_keys w 0 N)"
proof -
  from assms(1,2) obtain k where k: "k \<le> of_nat N - 1" "key = BuildKeyName w k" by (auto simp: a_key_def)
  obtain n where n: "N = Suc n" using assms(3) by (cases N) simp_all
  then have "(of_nat N - 1 :: u64) = of_nat n" by simp
  then have "unat (of_nat N - 1 :: u64) = N - 1" using n assms(4) by (simp add: unat_of_nat)
  with k(1) assms(3) have "unat k < N" by (simp add: word_le_nat_alt)
  with k(2) show ?thesis by (auto simp: drawn_keys_def intro!: image_eqI [of _ _ "unat k"])
qed

lemma field_name_no_nul: "CHR 0x00 \<notin> set (field_name i)"
  using nat_dec_chars [of "CHR 0x00" i] by (auto simp: field_name_def is_digit_def char_code_def)

lemma columns_config: "same_config w w' \<Longrightarrow> columns w' = columns w"
  by (simp add: columns_def same_config_def)

lemma request_values_columns:
  assumes "request_values fp c = (Inr vs, d)" and "wl_typed fp p w" and "same_config w (c_wl c)" and "0 < wl_field_count w"
  shows "fst ` set vs \<subseteq> set (columns w)"
proof -
  have w': "wl_typed fp p (c_wl c)" "0 < wl_field_count (c_wl c)" "set (table_columns (hd (Tables (c_wl c)))) = set (columns w)"
    using wl_typed_config [OF assms(3)] assms(2-4) by (simp_all add: Tables_def columns_def same_config_def)
  from assms(1) consider "on_wl (BuildValues fp) c = (Inr vs, d)" | "on_wl (BuildUpdate fp) c = (Inr vs, d)"
    by (auto simp: request_values_def bindM_def getM_def split: if_splits)
  then show ?thesis
  proof cases
    case 1
    from record_result [OF this] w'(3) show ?thesis by (simp add: Tables_def)
  next
    case 2
    from on_wl_result [OF this] obtain w1 e1 where "BuildUpdate fp (c_wl c, c_env c) = (Inr vs, (w1, e1))" by blast
    with built_fields_are_columns [OF w'(1,2)] w'(3) show ?thesis by fastforce
  qed
qed

text \<open>A call of the workload leaves a thread with what it holds, and puts it at a later place.\<close>

lemma wl_call_ok:
  assumes "wl_call fp fuel a = Some m" and "m c = (Inr a', d)" and "place_ok w base a"
    and "wl_typed fp p w" and "0 < wl_field_count w" and "same_config w (c_wl c)" and "\<And>key. a_key w key \<Longrightarrow> key \<in> base"
  shows "place_ok w base a' \<and> oper_of a' = oper_of a \<and> a' \<noteq> RunIdle \<and> (\<forall>oper. a' \<noteq> RunOper oper) \<and>
    run_held \<lparr>rn_left = l, rn_at = a', rn_oks = oks\<rparr> = run_held \<lparr>rn_left = l', rn_at = a, rn_oks = oks'\<rparr>"
proof -
  note res = bindM_result_Inr retM_def run_held_def
  have base: "key \<in> base" if "on_wl (NextTransactionKey fp fuel) c = (Inr key, d)" for key d
  proof -
    have "a_key (c_wl c) key" using key_result [OF that] unfolding a_key_def .
    then show ?thesis unfolding a_key_config [OF assms(6)] by (rule assms(7))
  qed
  have recs: "record_ok w vs" if "on_wl (BuildValues fp) c = (Inr vs, d)" for vs d
    using on_wl_result [OF that] BuildValues_record assms(6) by blast
  have upds: "fst ` set vs \<subseteq> set (columns w)" if "request_values fp c = (Inr vs, d)" for vs d
    by (rule request_values_columns [OF that assms(4,6,5)])
  show ?thesis
  proof (cases a)
    case (RunOper oper)
    with assms(1,2) base show ?thesis by (auto simp: res split: if_splits)
  next
    case (RunKey oper key)
    with assms(1-3) recs upds show ?thesis by (cases oper) (auto simp: res)
  next
    case (RunLen key len)
    with assms(1-3) show ?thesis by (auto simp: res)
  next
    case (RunRead key)
    with assms(1-3) upds show ?thesis by (auto simp: res)
  qed (use assms(1) in simp_all)
qed

text \<open>An update of a record that is present writes some of its columns.\<close>

lemma stored_update:
  assumes st: "stored w keys oks db" and "key \<in> keys" and vs: "fst ` set vs \<subseteq> set (columns w)"
    and up: "hdb_Update lay (wl_table w) key vs db = (rc, db')"
  shows "rc = kOK \<and> stored w keys oks db'"
proof -
  let ?k = "hdb_idx (wl_table w) key"
  have inv: "hdb_inv db" and view: "dom (hdb_view db) = hdb_idx (wl_table w) ` keys" using st by (simp_all add: stored_def)
  then obtain m where m: "hdb_view db ?k = Some m" using assms(2) by blast
  then have dom: "dom m = set (columns w)" using st by (simp add: stored_def)
  have "c_str f = f" if "f \<in> set (columns w)" for f
    using that field_name_no_nul by (auto simp: columns_def c_str_id)
  then have "(\<lambda>p. c_str (fst p)) ` set vs \<subseteq> set (columns w)" using vs by auto
  then have "dom (write_all vs m) = set (columns w)"
    using dom by (auto simp: write_all_def dom_map_of_conv_image_fst image_image)
  moreover have "rc = kOK \<and> hdb_inv db' \<and> hdb_view db' = (hdb_view db)(?k \<mapsto> write_all vs m)"
    using hdb_Update_laws [OF inv, of lay "wl_table w" key vs] m up by simp
  moreover have "insert ?k (dom (hdb_view db)) = dom (hdb_view db)" using m by auto
  ultimately show ?thesis using st view by (auto simp: stored_def split: if_splits)
qed

lemma stored_insert_fresh:
  assumes st: "stored w keys oks db" and vs: "record_ok w vs" and cols: "0 < wl_field_count w"
    and ins: "hdb_Insert lay (wl_table w) key vs db = (rc, db')"
    and new: "key \<notin> keys" "CHR 0x00 \<notin> set (wl_table w)" "\<forall>k \<in> insert key keys. CHR 0x00 \<notin> set k"
  shows "rc = kOK"
proof -
  have idx: "hdb_idx (wl_table w) k = wl_table w @ k" if "k \<in> insert key keys" for k
    unfolding hdb_idx_def key_index_def using that new(2,3) by (intro c_str_id) auto
  then have "hdb_view db (hdb_idx (wl_table w) key) = None" using st new(1) by (fastforce simp: stored_def domIff)
  moreover have "distinct (map fst vs)" using vs by (simp add: record_ok_def columns_def distinct_map inj_on_def)
  then have "insert_spec vs Map.empty = (kOK, map_of vs)"
    using insert_spec_fresh [of vs Map.empty] vs by (simp add: record_ok_def)
  ultimately show ?thesis
    using st hdb_Insert_laws [of db vs "wl_table w" key kOK "map_of vs" lay] ins by (simp add: stored_def)
qed

text \<open>
  When the phase can go well: the workload is as set up from the properties, all \<open>N\<close> records that requests may ask for
  were loaded from key number zero on, and the keys of the \<open>M\<close> transactions to come are new. Where
  transactions insert, that takes ordered keys; hashed ones may collide.
\<close>

definition run_setup :: "'d fp \<Rightarrow> props \<Rightarrow> 'd workload \<Rightarrow> nat \<Rightarrow> nat \<Rightarrow> bool" where
  "run_setup fp p w N M \<longleftrightarrow> wl_typed fp p w \<and> 0 < wl_field_count w \<and> CHR 0x00 \<notin> set (wl_table w) \<and>
     wl_insert_seq w = of_nat N \<and> 0 < N \<and> N + M < 2 ^ 64 \<and> (op_configured fp p INSERT \<longrightarrow> wl_ordered w)"

text \<open>One thread changes: what the sums become.\<close>

lemma runners_change:
  assumes "is_runner s i t"
  shows "(\<Sum>x \<leftarrow> (runners s)[i := t']. draws_left x) + draws_left t = (\<Sum>x \<leftarrow> runners s. draws_left x) + draws_left t'"
    and "(\<Sum>x \<leftarrow> (runners s)[i := t']. run_held x) + run_held t = (\<Sum>x \<leftarrow> runners s. run_held x) + run_held t'"
    and "(\<Sum>x \<leftarrow> (runners s)[i := t']. rounds_left x) + rounds_left t = (\<Sum>x \<leftarrow> runners s. rounds_left x) + rounds_left t'"
    and "run_sum (set_runner i t' (s\<lparr>run_counter := c, run_db := db\<rparr>)) + rn_oks t = run_sum s + rn_oks t'"
  using is_runner_sum [OF assms, of draws_left t'] is_runner_sum [OF assms, of run_held t']
    is_runner_sum [OF assms, of rounds_left t'] is_runner_sum [OF assms, of rn_oks t'] by (simp_all add: run_sum_def)

lemma runners_ok:
  assumes "\<forall>x \<in> set (runners s). runner_ok inserts w base x"
  shows "is_runner s i t \<Longrightarrow> runner_ok inserts w base t"
    and "runner_ok inserts w base t' \<Longrightarrow> \<forall>x \<in> set ((runners s)[i := t']). runner_ok inserts w base x"
  using assms set_update_subset_insert [of "runners s" i t'] by (auto simp: is_runner_def)

text \<open>A step that draws no key to insert and inserts none.\<close>

lemma run_inv_keep:
  assumes inv: "run_inv inserts w N M s" and t: "is_runner s i t"
    and ok: "runner_ok inserts w (set (drawn_keys w 0 N)) t'"
    and le: "run_held t' \<subseteq># run_held t" "draws_left t' \<le> draws_left t"
    and rounds: "rn_oks t' + rounds_left t' = rn_oks t + rounds_left t"
    and db: "\<And>keys oks. stored w (set (drawn_keys w 0 N) \<union> keys) oks (run_db s) \<Longrightarrow> stored w (set (drawn_keys w 0 N) \<union> keys) oks db"
  shows "run_inv inserts w N M (set_runner i t' (s\<lparr>run_db := db\<rparr>))"
proof -
  obtain n ins oks where n: "run_counter s = of_nat (N + n)" "n + (\<Sum>t \<leftarrow> runners s. draws_left t) \<le> M"
    and keys: "(\<Sum>t \<leftarrow> runners s. run_held t) + ins \<subseteq># mset (drawn_keys w (of_nat N) n)"
    and oks: "\<forall>t \<in> set (runners s). runner_ok inserts w (set (drawn_keys w 0 N)) t"
    and st: "stored w (set (drawn_keys w 0 N) \<union> set_mset ins) oks (run_db s)"
    and sum: "run_sum s + (\<Sum>t \<leftarrow> runners s. rounds_left t) = int M"
    using inv unfolding run_inv_def by blast
  note change = runners_change [OF t, where t' = t']
  have "(\<Sum>x \<leftarrow> (runners s)[i := t']. draws_left x) \<le> (\<Sum>t \<leftarrow> runners s. draws_left t)"
    using change(1) le(2) by linarith
  then have "n + (\<Sum>x \<leftarrow> (runners s)[i := t']. draws_left x) \<le> M" using n(2) by linarith
  moreover have "(\<Sum>x \<leftarrow> (runners s)[i := t']. run_held x) \<subseteq># (\<Sum>t \<leftarrow> runners s. run_held t)"
    using change(2) le(1) by (metis subset_mset.add_le_cancel_left subset_mset.add_le_cancel_right union_commute)
  then have "(\<Sum>x \<leftarrow> (runners s)[i := t']. run_held x) + ins \<subseteq># mset (drawn_keys w (of_nat N) n)"
    using keys by (meson subset_mset.add_right_mono subset_mset.order_trans)
  moreover have "run_sum (set_runner i t' (s\<lparr>run_db := db\<rparr>)) + (\<Sum>x \<leftarrow> (runners s)[i := t']. rounds_left x) = int M"
    using change(3) change(4) [where c = "run_counter s" and db = db] rounds sum by simp
  ultimately show ?thesis using n(1) runners_ok(2) [OF oks ok] db [OF st] unfolding run_inv_def
    by (intro exI [of _ n] exI [of _ ins] exI [of _ oks]) simp
qed

text \<open>The numbers drawn for inserts go on where those of the loaded records end.\<close>

lemma drawn_keys_append: "drawn_keys w 0 (N + n) = drawn_keys w 0 N @ drawn_keys w (of_nat N) n"
  by (induction n) (simp_all add: drawn_keys_def add.commute)

lemma drawn_fresh:
  assumes "add_mset key ins + rest \<subseteq># mset (drawn_keys w (of_nat N) n)" and "wl_ordered w" and "N + n \<le> 2 ^ 64"
  shows "key \<notin> set (drawn_keys w 0 N) \<union> set_mset ins"
proof -
  let ?new = "drawn_keys w (of_nat N) n"
  from drawn_keys_distinct [OF assms(2,3), of 0] have d: "set (drawn_keys w 0 N) \<inter> set ?new = {}" "distinct ?new"
    by (simp_all add: drawn_keys_append)
  then have "count (mset ?new) key \<le> 1" by (simp add: distinct_count_atmost_1 split: if_splits)
  moreover have "Suc (count ins key) \<le> count (mset ?new) key"
    using mset_subset_eq_count [OF assms(1), of key] by simp
  moreover have "key \<in> set ?new" using mset_subset_eqD [OF assms(1), of key] by simp
  ultimately show ?thesis using d(1) by (auto simp: count_greater_zero_iff [symmetric] simp del: count_greater_zero_iff)
qed

lemma drawn_keys_no_nul: "key \<in> set (drawn_keys w c n) \<Longrightarrow> CHR 0x00 \<notin> set key"
  by (auto simp: drawn_keys_def)

lemma run_inv_sequence:
  assumes inv: "run_inv inserts w N M s" and t: "is_runner s i t" "rn_at t = RunOper INSERT"
  shows "run_inv inserts w N M (set_runner i (t\<lparr>rn_at := RunKey INSERT (BuildKeyName w (run_counter s))\<rparr>)
    (s\<lparr>run_counter := run_counter s + 1\<rparr>))" (is "run_inv _ _ _ _ (set_runner i ?t ?s)")
proof -
  obtain n ins oks where n: "run_counter s = of_nat (N + n)" "n + (\<Sum>t \<leftarrow> runners s. draws_left t) \<le> M"
    and keys: "(\<Sum>t \<leftarrow> runners s. run_held t) + ins \<subseteq># mset (drawn_keys w (of_nat N) n)"
    and oks: "\<forall>t \<in> set (runners s). runner_ok inserts w (set (drawn_keys w 0 N)) t"
    and st: "stored w (set (drawn_keys w 0 N) \<union> set_mset ins) oks (run_db s)"
    and sum: "run_sum s + (\<Sum>t \<leftarrow> runners s. rounds_left t) = int M"
    using inv unfolding run_inv_def by blast
  note change = runners_change [OF t(1), where t' = ?t]
  have t': "draws_left t = Suc (draws_left ?t)" "run_held t = {#}" "run_held ?t = {#BuildKeyName w (run_counter s)#}"
    "rounds_left ?t = rounds_left t"
    using t(2) by (simp_all add: draws_left_def run_held_def rounds_left_def)
  have ok: "runner_ok inserts w (set (drawn_keys w 0 N)) ?t"
    using runners_ok(1) [OF oks t(1)] t(2) by (simp add: runner_ok_def)
  have "Suc n + (\<Sum>x \<leftarrow> (runners s)[i := ?t]. draws_left x) \<le> M" using change(1) n(2) t'(1) by simp
  moreover have "(\<Sum>x \<leftarrow> (runners s)[i := ?t]. run_held x) + ins \<subseteq># mset (drawn_keys w (of_nat N) (Suc n))"
    using change(2) keys n(1) unfolding drawn_keys_Suc t'(2,3) by (simp add: ac_simps)
  moreover have "run_sum (set_runner i ?t ?s) + (\<Sum>x \<leftarrow> (runners s)[i := ?t]. rounds_left x) = int M"
    using change(3) change(4) [where c = "run_counter s + 1" and db = "run_db s"] t'(4) sum by simp
  ultimately show ?thesis using n(1) runners_ok(2) [OF oks ok] st unfolding run_inv_def
    by (intro exI [of _ "Suc n"] exI [of _ ins] exI [of _ oks]) simp
qed

lemma run_inv_insert:
  assumes good: "run_setup fp p w N M" and inv: "run_inv (op_configured fp p INSERT) w N M s"
    and t: "is_runner s i t" "rn_at t = RunValues INSERT key vs"
    and ins: "hdb_Insert lay (wl_table w) key vs (run_db s) = (rc, db)"
  shows "run_inv (op_configured fp p INSERT) w N M (set_runner i (finish_txn rc t) (s\<lparr>run_db := db\<rparr>))"
proof -
  let ?base = "set (drawn_keys w 0 N)" and ?i = "op_configured fp p INSERT"
  obtain n ins' oks where n: "run_counter s = of_nat (N + n)" "n + (\<Sum>t \<leftarrow> runners s. draws_left t) \<le> M"
    and keys: "(\<Sum>t \<leftarrow> runners s. run_held t) + ins' \<subseteq># mset (drawn_keys w (of_nat N) n)"
    and oks: "\<forall>t \<in> set (runners s). runner_ok ?i w ?base t"
    and st: "stored w (?base \<union> set_mset ins') oks (run_db s)"
    and sum: "run_sum s + (\<Sum>t \<leftarrow> runners s. rounds_left t) = int M"
    using inv unfolding run_inv_def by blast
  have t0: "run_held t = {#key#}" "record_ok w vs" "wl_ordered w"
    using runners_ok(1) [OF oks t(1)] t(2) good by (simp_all add: run_held_def runner_ok_def run_setup_def)
  define u where "u = t\<lparr>rn_at := RunIdle, rn_oks := rn_oks t + 1\<rparr>"
  note change = runners_change [OF t(1), where t' = u]
  have u: "run_held u = {#}" "draws_left u = draws_left t" "rn_oks u + rounds_left u = rn_oks t + rounds_left t"
    "runner_ok ?i w ?base u"
    using t(2) by (simp_all add: u_def run_held_def draws_left_def rounds_left_def runner_ok_def)
  have all: "(\<Sum>x \<leftarrow> (runners s)[i := u]. run_held x) + add_mset key ins' \<subseteq># mset (drawn_keys w (of_nat N) n)"
    using keys unfolding change(2) [unfolded t0(1) u(1), simplified, symmetric] by simp
  have nM: "N + n \<le> 2 ^ 64" using n(2) good by (simp add: run_setup_def)
  have in_new: "set_mset (add_mset key ins') \<subseteq> set (drawn_keys w (of_nat N) n)"
    using set_mset_mono [OF all] by auto
  have "rc = kOK"
  proof (rule stored_insert_fresh [OF st t0(2) _ ins])
    show "key \<notin> ?base \<union> set_mset ins'"
      by (rule drawn_fresh [OF _ t0(3) nM, of _ _ "\<Sum>x \<leftarrow> (runners s)[i := u]. run_held x"]) (use all in \<open>simp add: ac_simps\<close>)
    show "\<forall>k \<in> insert key (?base \<union> set_mset ins'). CHR 0x00 \<notin> set k"
      using in_new drawn_keys_no_nul [of _ w] by auto
  qed (use good in \<open>simp_all add: run_setup_def\<close>)
  then have fin: "finish_txn rc t = u" by (simp add: finish_txn_def u_def kOK_def)
  have "stored w (?base \<union> set_mset (add_mset key ins')) (oks + (if rc = kOK then 1 else 0)) db"
    using stored_insert [OF st t0(2) _ ins] good by (simp add: run_setup_def)
  moreover have "run_sum (set_runner i u (s\<lparr>run_db := db\<rparr>)) + (\<Sum>x \<leftarrow> (runners s)[i := u]. rounds_left x) = int M"
    using change(3) change(4) [where c = "run_counter s" and db = db] u(3) sum by simp
  moreover have "n + (\<Sum>x \<leftarrow> (runners s)[i := u]. draws_left x) \<le> M" using change(1) n(2) u(2) by simp
  ultimately show ?thesis using n(1) runners_ok(2) [OF oks u(4)] all unfolding run_inv_def fin
    by (intro exI [of _ n] exI [of _ "add_mset key ins'"] exI [of _ "oks + (if rc = kOK then 1 else 0)"]) simp
qed

text \<open>A call of the database other than an insert succeeds on a key that is there.\<close>

lemma db_call_ok:
  assumes "db_call lay (wl_table w) a db = Some (res, db')" and "place_ok w (set base) a" and "oper_of a \<noteq> Some INSERT"
    and "stored w (set base \<union> keys) oks db"
  shows "stored w (set base \<union> keys) oks db' \<and> (\<forall>status. res = Inr status \<longrightarrow> status = kOK) \<and>
    (\<forall>key. res = Inl key \<longrightarrow> key \<in> set base \<and> oper_of a = Some READMODIFYWRITE \<and> a \<noteq> RunIdle)"
proof (cases a)
  case (RunFields oper key len flds)
  then have "key \<in> set base" using assms(2) by simp
  with assms(4) have "hdb_view db (hdb_idx (wl_table w) key) \<noteq> None" "ht_inv db"
    by (auto simp: stored_def hdb_inv_def)
  then have "fst (hdb_Read (wl_table w) key flds [] db) = kOK"
    by (auto simp: hdb_Read_def hdb_view_def stl.get_law simp flip: hdb_idx_def)
  moreover have "fst (hdb_Scan (wl_table w) key (size_to_int len) flds db) = kOK" by (simp add: hdb_Scan_def Let_def)
  ultimately show ?thesis using assms(1,4) RunFields \<open>key \<in> set base\<close> by (auto split: operation.splits)
next
  case (RunValues oper key vs)
  then have oper: "oper \<noteq> INSERT" "key \<in> set base \<union> keys" "fst ` set vs \<subseteq> set (columns w)" using assms(2,3) by auto
  obtain rc d where d: "hdb_Update lay (wl_table w) key vs db = (rc, d)" by (metis surj_pair)
  from stored_update [OF assms(4) oper(2,3) d] show ?thesis using assms(1) RunValues oper(1) d by auto
qed (use assms(1) in simp_all)

lemma run_inv_step:
  assumes good: "run_setup fp p w N M" and step: "run_step fp w s s'" and inv: "run_inv (op_configured fp p INSERT) w N M s"
  shows "run_inv (op_configured fp p INSERT) w N M s'"
proof -
  let ?base = "set (drawn_keys w 0 N)" and ?i = "op_configured fp p INSERT"
  have typed: "wl_typed fp p w" "0 < wl_field_count w" and loaded: "a_key w key \<Longrightarrow> key \<in> ?base" for key
    using good a_key_loaded [of w key N] by (auto simp: run_setup_def)
  have ok: "runner_ok ?i w ?base t" if "is_runner s i t" for i t
    using inv runners_ok(1) that unfolding run_inv_def by blast
  have same: "set_runner i t s = set_runner i t (s\<lparr>run_db := run_db s\<rparr>)" for i t by (simp add: set_runner_def)
  note keep = run_inv_keep [OF inv]
  from step show ?thesis
  proof cases
    case (run_choose i t n w' e r st)
    have "r = Inr oper \<Longrightarrow> op_configured fp p oper" for oper
      using operation_configured [of fp p w' e oper "fst st" "snd st"] wl_typed_config [OF run_choose(5), of fp p] typed(1) run_choose(6)
      by simp
    then show ?thesis unfolding run_choose(1) same using run_choose(3,4)
      by (intro keep [OF run_choose(2)])
        (auto simp: runner_ok_def run_held_def draws_left_def rounds_left_def split: sum.split)
  next
    case (run_sequence i t k c)
    from run_inv_sequence [OF inv run_sequence(2,3)] run_sequence(1,4) show ?thesis by (auto simp: counter_Next_def)
  next
    case (run_ask i t fuel m c a d)
    have "place_ok w ?base (rn_at t)" using ok [OF run_ask(2)] by (simp add: runner_ok_def)
    from wl_call_ok [OF run_ask(3,5) this typed] run_ask(4) loaded
    have a: "place_ok w ?base a" "oper_of a = oper_of (rn_at t)" "a \<noteq> RunIdle" "\<forall>oper. a \<noteq> RunOper oper"
      and held: "run_held (t\<lparr>rn_at := a\<rparr>) = run_held t"
      by (auto simp: run_held_def)
    have "rn_at t \<noteq> RunIdle" using run_ask(3) by auto
    with a held ok [OF run_ask(2)] show ?thesis unfolding run_ask(1) same
      by (intro keep [OF run_ask(2)]) (auto simp: runner_ok_def draws_left_def rounds_left_def split: runner_at.split)
  next
    case (run_fault i t fuel m c err d)
    have "rn_at t \<noteq> RunIdle" using run_fault(3) by auto
    then show ?thesis unfolding run_fault(1) same
      by (intro keep [OF run_fault(2)]) (auto simp: runner_ok_def run_held_def draws_left_def rounds_left_def)
  next
    case (run_read i t lay key db)
    have a: "oper_of (rn_at t) = Some READMODIFYWRITE \<and> rn_at t \<noteq> RunIdle"
      using run_read(3)
      by (cases "rn_at t") (auto simp: apfst_def map_prod_def split_beta split: operation.splits)
    have pl: "place_ok w ?base (rn_at t)" using ok [OF run_read(2)] by (simp add: runner_ok_def)
    obtain keys oks where "stored w (?base \<union> keys) oks (run_db s)" using inv unfolding run_inv_def by blast
    from db_call_ok [OF run_read(3) pl _ this] a have "key \<in> ?base" by simp
    with a db_call_ok [OF run_read(3) pl] show ?thesis unfolding run_read(1)
      by (intro keep [OF run_read(2)]) (auto simp: runner_ok_def run_held_def draws_left_def rounds_left_def)
  next
    case (run_call i t lay status db)
    show ?thesis
    proof (cases "oper_of (rn_at t) = Some INSERT")
      case True
      with run_call(3) ok [OF run_call(2)] obtain key vs where a: "rn_at t = RunValues INSERT key vs"
        by (cases "rn_at t") (auto simp: runner_ok_def split: operation.splits)
      then have "hdb_Insert lay (wl_table w) key vs (run_db s) = (status, db)"
        using run_call(3) by (cases "hdb_Insert lay (wl_table w) key vs (run_db s)") simp
      from run_inv_insert [OF good inv run_call(2) a this] run_call(1) show ?thesis by simp
    next
      case False
      have a: "place_ok w ?base (rn_at t)" "rn_at t \<noteq> RunIdle"
        using ok [OF run_call(2)] run_call(3) by (auto simp: runner_ok_def)
      obtain keys oks where "stored w (?base \<union> keys) oks (run_db s)" using inv unfolding run_inv_def by blast
      from db_call_ok [OF run_call(3) a(1) False this] have "status = kOK" by simp
      with a(2) db_call_ok [OF run_call(3) a(1) False] show ?thesis unfolding run_call(1)
        by (intro keep [OF run_call(2)])
          (auto simp: finish_txn_def kOK_def runner_ok_def run_held_def draws_left_def rounds_left_def)
    qed
  qed
qed

section \<open>The end of the phase\<close>

lemma run_inv_init:
  assumes "stored w (set (drawn_keys w 0 N)) oks db"
  shows "run_inv inserts w N (\<Sum>(n, _) \<leftarrow> plan. nat n) (run_init (of_nat N) db plan)"
proof -
  have sums: "(\<Sum>t \<leftarrow> runners (run_init (of_nat N) db plan). draws_left t) = (\<Sum>(n, _) \<leftarrow> plan. nat n)"
    "(\<Sum>t \<leftarrow> runners (run_init (of_nat N) db plan). run_held t) = {#}" "run_sum (run_init (of_nat N) db plan) = 0"
    "(\<Sum>t \<leftarrow> runners (run_init (of_nat N) db plan). rounds_left t) = int (\<Sum>(n, _) \<leftarrow> plan. nat n)"
    by (induction plan) (simp_all add: run_init_def run_sum_def run_held_def draws_left_def rounds_left_def split: prod.splits)
  moreover have "\<forall>t \<in> set (runners (run_init (of_nat N) db plan)). runner_ok inserts w (set (drawn_keys w 0 N)) t"
    by (auto simp: run_init_def runner_ok_def)
  ultimately show ?thesis using assms unfolding run_inv_def
    by (intro exI [of _ 0] exI [of _ "{#}"] exI [of _ oks]) (simp add: drawn_keys_def run_init_def)
qed

lemma run_inv_reachable:
  assumes "run_setup fp p w N M" and "run_inv (op_configured fp p INSERT) w N M s" and "(run_step fp w)\<^sup>*\<^sup>* s s'"
  shows "run_inv (op_configured fp p INSERT) w N M s'"
  using assms(3,2) by (induction rule: rtranclp_induct) (auto intro: run_inv_step [OF assms(1)])

text \<open>What the loading phase leaves is what the transaction phase needs.\<close>

lemma load_then_run:
  assumes "thread_plan disperse cpus num_threads records = Inr plan" and "0 < num_threads" and "num_threads dvd records"
    and "0 < records" and "0 < wl_field_count w" and "(load_step fp w)\<^sup>*\<^sup>* (load_init 0 plan) l" and "all_loaded l"
  shows "stored w (set (drawn_keys w 0 (nat records))) (load_sum l) (load_db l) \<and> load_counter l = of_nat (nat records)"
proof -
  have "records mod num_threads = 0" using assms(3) by (simp add: dvd_eq_mod_eq_0)
  then have N: "(\<Sum>(n, _) \<leftarrow> plan. nat n) = nat records" using plan_total [OF assms(1,2)] assms(4) by simp
  have inv: "load_inv w 0 (nat records) l" using load_inv_reachable [OF assms(5,6)] N by simp
  then obtain n where n: "load_counter l = 0 + of_nat n" "n + (\<Sum>t \<leftarrow> loaders l. ld_left t) = nat records"
    unfolding load_inv_def by blast
  have "\<forall>t \<in> set (loaders l). ld_left t = 0" using assms(7) by (auto simp: all_loaded_def list_all_iff)
  then have "(\<Sum>t \<leftarrow> loaders l. ld_left t) = 0" by (simp cong: map_cong add: sum_list_0)
  with n load_inv_done [OF inv assms(7)] show ?thesis by simp
qed

text \<open>One thread that loads one record and does one transaction, for an example.\<close>

definition one_props :: props where
  "one_props = [''recordcount'' \<mapsto> ''1'']"

lemma one_plan: "thread_plan False [0] 1 1 = Inr [(1, 0, 0)]"
  by (simp add: thread_plan_def select_cpus_def Let_def)

lemma one_Init: "\<exists>w. Init toy_fp (sconst 7) one_props toy_env = (Inr w, toy_env)"
  by (simp add: one_props_def Init_def GetProperty_def GetFieldLenGenerator_def toy_numbers liftM_def bindM_def
      retM_def proportion_def toy_fp_def StrToBool_def to_lower_def char_code_def key_chooser_for_def
      scan_len_chooser_for_def)

lemma one_typed:
  assumes "Init toy_fp (sconst 7) one_props toy_env = (Inr w, toy_env)"
  shows "wl_record_count w = word_of_int 1" "0 < wl_field_count w" "wl_table w = ''usertable''" "\<exists>n. wl_field_len w = ConstGenerator n"
    "\<not> op_configured toy_fp one_props INSERT" "GetProperty one_props ''insertstart'' ''0'' = ''0''"
  using Init_typed [OF assms]
  by (auto simp: wl_typed_def one_props_def GetProperty_def toy_numbers length_typed_def op_configured_def proportion_def toy_fp_def)

lemma build_fields_runs:
  "wl_field_len (fst s) = ConstGenerator k \<Longrightarrow> \<exists>vs t. build_fields fp is s = (Inr vs, t)"
proof (induction "is" arbitrary: s)
  case (Cons i "is")
  obtain v t where v: "random_value fp s = (Inr v, t)" "wl_field_len (fst t) = ConstGenerator k"
    using Cons.prems
    by (cases s) (auto simp: random_value_def draw_field_len_def wl_draw_def gen_Next_def draw_char_def NextPrintChar_def
        bindM_def retM_def onM_def Let_def)
  from Cons.IH [OF v(2)] v(1) show ?case by (auto simp: bindM_def retM_def)
qed (simp add: retM_def)

lemma one_transaction:
  assumes "Init toy_fp (sconst 7) one_props toy_env = (Inr w, toy_env)"
  shows "\<exists>ok d. DoTransaction toy_fp 1 (stl_db_ops lay) \<lparr>c_wl = w\<lparr>wl_key_gen := CounterGenerator 1\<rparr>, c_env = toy_env, c_db = db\<rparr> = (Inr ok, d)"
  using assms
  by (auto simp: one_props_def Init_def GetProperty_def GetFieldLenGenerator_def toy_numbers liftM_def
      bindM_def retM_def proportion_def toy_fp_def toy_env_def StrToBool_def to_lower_def char_code_def
      key_chooser_for_def scan_len_chooser_for_def new_Uniform_def new_Const_def uniform_new_def
      uniform_Next_def uniform_dist_def add_if_positive_def AddValue_def discrete_new_def counter_Set_def
      DoTransaction_def on_wl_def onM_def NextOperation_def discrete_Next_run Let_def transaction_def
      TransactionUpdate_def NextTable_def getM_def NextTransactionKey_def draw_key_def wl_draw_def
      gen_Next_def key_inserted_def counter_Last_def request_values_def BuildUpdate_def
      NextFieldName_def draw_field_def random_value_def draw_field_len_def draw_char_def
      NextPrintChar_def stl_db_ops_def hdb_Update_def on_db_def kOK_def split: option.splits)

lemma one_run:
  assumes "Init toy_fp (sconst 7) one_props toy_env = (Inr w, toy_env)"
  shows "\<exists>l s. (load_step toy_fp w)\<^sup>*\<^sup>* (load_init 0 [(1, 0, 0)]) l \<and> all_loaded l \<and>
    (run_step toy_fp w)\<^sup>*\<^sup>* (run_init (load_counter l) (load_db l) [(1, 0, 0)]) s \<and> all_run s"
proof -
  obtain vs st where vs: "BuildValues toy_fp (w, toy_env) = (Inr vs, st)"
    using one_typed(4) [OF assms] build_fields_runs [of "(w, toy_env)"] unfolding BuildValues_def by fastforce
  obtain rc d where d: "hdb_Insert (\<lambda>_ _. 0) (wl_table w) (BuildKeyName w 0) vs [] = (rc, d)" by (metis surj_pair)
  let ?t = "\<lparr>ld_left = 1, ld_at = LoadIdle, ld_oks = 0\<rparr>"
  define l where "l = set_loader 0 (?t\<lparr>ld_left := 0, ld_oks := ld_oks ?t + (if rc = kOK then 1 else 0)\<rparr>)
    (load_init 0 [(1, 0, 0)]\<lparr>load_counter := load_counter (load_init 0 [(1, 0, 0)]) + 1, load_db := d\<rparr>)"
  have "(load_step toy_fp w ^^ 3) (load_init 0 [(1, 0, 0)]) l"
    unfolding l_def by (rule load_three_steps [OF _ _ _ same_config_refl vs]) (use d in \<open>simp_all add: load_init_def is_loader_def\<close>)
  then have l: "(load_step toy_fp w)\<^sup>*\<^sup>* (load_init 0 [(1, 0, 0)]) l" "all_loaded l" "load_counter l = 1"
    by (auto intro: relpowp_imp_rtranclp simp: l_def load_init_def all_loaded_def set_loader_def)
  let ?s = "run_init (load_counter l) (load_db l) [(1, 0, 0)]" and ?r = "\<lparr>rn_left = 1, rn_at = RunIdle, rn_oks = 0\<rparr>"
  let ?w = "w\<lparr>wl_key_gen := CounterGenerator 1\<rparr>"
  have "is_counter (wl_key_gen w)" using Init_typed [OF assms] by (simp add: wl_typed_def)
  then have "same_config w ?w" by (auto simp: same_config_def is_counter_def)
  then have at: "stands w 0 ?r \<lparr>c_wl = ?w, c_env = toy_env, c_db = load_db l\<rparr> ?s"
    using l(3) by (simp add: stands_def run_init_def is_runner_def)
  obtain ok d where "DoTransaction toy_fp 1 (stl_db_ops (\<lambda>_ _. 0)) \<lparr>c_wl = ?w, c_env = toy_env, c_db = load_db l\<rparr> = (Inr ok, d)"
    using one_transaction [OF assms] by blast
  from run_turn [OF this at, of 0] obtain s where
    "part_of_turn toy_fp w 0 ?s (?r\<lparr>rn_left := 0, rn_oks := rn_oks ?r + (if ok then 1 else 0)\<rparr>) d s" by auto
  then have "(run_step toy_fp w)\<^sup>*\<^sup>* ?s s"
    "runners s = (runners ?s)[0 := ?r\<lparr>rn_left := 0, rn_oks := rn_oks ?r + (if ok then 1 else 0)\<rparr>]"
    by (simp_all add: part_of_turn_def)
  then have "(run_step toy_fp w)\<^sup>*\<^sup>* ?s s" "all_run s" by (simp_all add: all_run_def run_init_def)
  with l show ?thesis by blast
qed



end
