(* ===== verification/RunEnd.thy ===== *)
theory RunEnd
  imports RunPhase
begin

text \<open>
  The transaction phase comes to its end: how many steps its threads can take, and why a thread that can take
  none is done or was stopped by a failed assertion of a generator.
\<close>

section \<open>Only assertions fail\<close>

definition only_asserts :: "('s, 'a) op \<Rightarrow> bool" where
  "only_asserts m \<longleftrightarrow> (\<forall>s err t. m s = (Inl err, t) \<longrightarrow> err = AssertFailed)"

named_theorems assert_rules \<open>operations whose only fault is a failed assertion\<close>

lemma only_assertsD: "only_asserts m \<Longrightarrow> m s = (Inl err, t) \<Longrightarrow> err = AssertFailed"
  unfolding only_asserts_def by blast

lemma assert_pure [assert_rules]:
  "only_asserts (retM x)" "only_asserts (getM f)" "only_asserts (modifyM g)" "only_asserts (throwM AssertFailed)"
  by (simp_all add: only_asserts_def op_run)

lemma assert_bindM [assert_rules]: "only_asserts m \<Longrightarrow> (\<And>x. only_asserts (f x)) \<Longrightarrow> only_asserts (bindM m f)"
  by (simp add: only_asserts_def bindM_result_Inl) blast

lemma assert_onM [assert_rules]: "only_asserts m \<Longrightarrow> only_asserts (onM rd wr m)"
  by (auto simp: only_asserts_def onM_result)

lemma assert_zipf: "only_asserts (zipf_Next fp)"
  by (auto simp: only_asserts_def zipf_Next_def zipf_Next_num_run bindM_def getM_def Let_def split: if_splits)

lemma assert_gen: "gen_Next fp basis (g, e) = (Inl err, t) \<Longrightarrow> err = AssertFailed"
  using only_assertsD [OF assert_zipf, of fp]
  by (auto simp: gen_Next_def counter_Next_def uniform_Next_def skewed_Next_def zipf_Next_num_run bindM_def getM_def
      Let_def only_asserts_def op_run split: generator.splits prod.splits sum.splits if_splits)

lemma assert_draws [assert_rules]:
  "only_asserts (draw_field fp)" "only_asserts (draw_field_len fp)" "only_asserts (draw_scan_len fp)" "only_asserts draw_char"
  by (auto simp: only_asserts_def draw_field_def draw_field_len_def draw_scan_len_def wl_draw_def draw_char_def
      NextPrintChar_def retM_def bindM_def onM_def Let_def dest: assert_gen split: prod.splits)

lemma assert_build_fields [assert_rules]: "only_asserts (build_fields fp is)"
  by (induction "is") (auto intro!: assert_rules simp: random_value_def)

lemma assert_BuildValues [assert_rules]: "only_asserts (BuildValues fp)"
  unfolding only_asserts_def BuildValues_def by (blast dest: only_assertsD [OF assert_build_fields])

lemma assert_calls [assert_rules]:
  "only_asserts (NextFieldName fp)" "only_asserts (NextScanLength fp)" "only_asserts (BuildUpdate fp)"
  unfolding NextFieldName_def NextScanLength_def BuildUpdate_def random_value_def by (intro assert_rules)+

lemma assert_requests [assert_rules]: "only_asserts (request_fields fp)" "only_asserts (request_values fp)"
  unfolding request_fields_def request_values_def on_wl_def by (auto intro!: assert_rules)

text \<open>
  With uniformly chosen keys the calls of the workload need one round, and fail by an assertion if at all.
\<close>

definition uniform_keys :: "props \<Rightarrow> bool" where
  "uniform_keys p \<longleftrightarrow> GetProperty p ''requestdistribution'' ''uniform'' = ''uniform''"

lemma wl_call_asserts:
  assumes "wl_typed fp p (c_wl c)" and "uniform_keys p" and "wl_call fp fuel a = Some m" and "m c = (Inl err, d)"
  shows "err = AssertFailed \<or> fuel = 0 \<and> err = OutOfFuel"
proof (cases a)
  case (RunOper oper)
  show ?thesis
  proof (cases fuel)
    case 0
    with RunOper assms(3,4) show ?thesis
      by (auto simp: on_wl_def onM_def NextTransactionKey_def bindM_def retM_def throwM_def split: if_splits prod.splits)
  next
    case (Suc n)
    from NextTransactionKey_inserted [OF assms(1), of n "c_env c"] assms(2) obtain key st where
      "NextTransactionKey fp fuel (c_wl c, c_env c) = (Inr key, st)" unfolding uniform_keys_def Suc by blast
    with RunOper assms(3,4) show ?thesis
      by (auto simp: on_wl_def onM_def bindM_def retM_def split: if_splits prod.splits)
  qed
next
  case (RunKey oper key)
  with assms(3) have "only_asserts m" by (cases oper) (auto intro!: assert_rules simp: on_wl_def)
  from only_assertsD [OF this assms(4)] show ?thesis by simp
next
  case (RunLen key len)
  with assms(3) have "only_asserts m" by (auto intro!: assert_rules)
  from only_assertsD [OF this assms(4)] show ?thesis by simp
next
  case (RunRead key)
  with assms(3) have "only_asserts m" by (auto intro!: assert_rules)
  from only_assertsD [OF this assms(4)] show ?thesis by simp
qed (use assms(3) in simp_all)

section \<open>The steps that are left\<close>

text \<open>The calls from a place to the end of the transaction.\<close>

fun key_calls :: "operation \<Rightarrow> nat" where
  "key_calls SCAN = 3"
| "key_calls READMODIFYWRITE = 4"
| "key_calls _ = 2"

fun calls_left :: "runner_at \<Rightarrow> nat" where
  "calls_left (RunOper oper) = Suc (key_calls oper)"
| "calls_left (RunKey oper key) = key_calls oper"
| "calls_left (RunLen key len) = 2"
| "calls_left (RunFields oper key len flds) = (if oper = READMODIFYWRITE then 3 else 1)"
| "calls_left (RunRead key) = 2"
| "calls_left (RunValues oper key vs) = 1"
| "calls_left a = 0"

definition run_rank :: "runner \<Rightarrow> nat" where
  "run_rank t = 6 * rn_left t + calls_left (rn_at t)"

lemma wl_call_left:
  assumes "wl_call fp fuel a = Some m" and "m c = (Inr a', d)"
  shows "calls_left a' < calls_left a"
proof (cases a)
  case (RunKey oper key)
  with assms show ?thesis by (cases oper) (auto simp: bindM_result_Inr retM_def)
next
  case (RunOper oper)
  with assms show ?thesis by (cases oper) (auto simp: bindM_result_Inr retM_def)
qed (use assms in \<open>auto simp: bindM_result_Inr retM_def\<close>)

lemma db_call_left:
  assumes "db_call lay table a db = Some (res, db')"
  shows "0 < calls_left a" and "res = Inl key \<Longrightarrow> 2 < calls_left a"
  using assms by (cases a; auto simp: apfst_def map_prod_def split_beta split: operation.splits)+

lemma run_step_rank:
  assumes "run_step fp w s s'"
  shows "(\<Sum>t \<leftarrow> runners s'. run_rank t) < (\<Sum>t \<leftarrow> runners s. run_rank t)"
proof -
  have less: "(\<Sum>t \<leftarrow> (runners s)[i := u]. run_rank t) < (\<Sum>t \<leftarrow> runners s. run_rank t)"
    if "is_runner s i t" "run_rank u < run_rank t" for i t u
    using is_runner_sum [OF that(1), of run_rank u] that(2) by simp
  from assms show ?thesis
  proof cases
    case (run_choose i t n w' e r st)
    let ?a = "case r of Inl err \<Rightarrow> RunFault err | Inr oper \<Rightarrow> RunOper oper"
    have "key_calls oper < 5" for oper by (cases oper) simp_all
    then have "calls_left ?a < 6" by (cases r) simp_all
    then have "run_rank (t\<lparr>rn_left := n, rn_at := ?a\<rparr>) < run_rank t" using run_choose(3,4) by (simp add: run_rank_def)
    from less [OF run_choose(2) this] show ?thesis by (simp add: run_choose(1))
  next
    case (run_sequence i t k c)
    with less [OF run_sequence(2)] show ?thesis by (simp add: run_rank_def)
  next
    case (run_ask i t fuel m c a d)
    with less [OF run_ask(2)] wl_call_left [OF run_ask(3,5)] show ?thesis by (simp add: run_rank_def)
  next
    case (run_fault i t fuel m c err d)
    have "0 < calls_left (rn_at t)" using run_fault(3) by (cases "rn_at t") (auto split: if_splits operation.splits)
    with less [OF run_fault(2)] show ?thesis by (simp add: run_fault(1) run_rank_def)
  next
    case (run_read i t lay key db)
    with less [OF run_read(2)] db_call_left(2) [OF run_read(3), of key] show ?thesis by (simp add: run_rank_def)
  next
    case (run_call i t lay status db)
    with less [OF run_call(2)] db_call_left(1) [OF run_call(3)] show ?thesis by (simp add: run_rank_def finish_txn_def)
  qed
qed

lemma run_steps_rank:
  "(run_step fp w ^^ k) s s' \<Longrightarrow> k + (\<Sum>t \<leftarrow> runners s'. run_rank t) \<le> (\<Sum>t \<leftarrow> runners s. run_rank t)"
proof (induction k arbitrary: s')
  case (Suc k)
  then obtain m where "(run_step fp w ^^ k) s m" "run_step fp w m s'" by auto
  with Suc.IH [of m] run_step_rank show ?case by fastforce
qed simp

lemma run_init_rank: "(\<Sum>t \<leftarrow> runners (run_init c db plan). run_rank t) = 6 * (\<Sum>(n, _) \<leftarrow> plan. nat n)"
  by (induction plan) (simp_all add: run_init_def run_rank_def split: prod.splits)

section \<open>Where the threads end\<close>

text \<open>What holds at every place that a thread comes to.\<close>

definition place_inv :: "runner_at \<Rightarrow> bool" where
  "place_inv a \<longleftrightarrow>
     (case a of RunFields oper key len flds \<Rightarrow> oper \<noteq> INSERT \<and> oper \<noteq> UPDATE
      | RunFault err \<Rightarrow> err = AssertFailed | _ \<Rightarrow> True)"

lemma place_inv_step:
  assumes "wl_typed fp p w" and "uniform_keys p" and "run_step fp w s s'" and "\<forall>t \<in> set (runners s). place_inv (rn_at t)"
  shows "\<forall>t \<in> set (runners s'). place_inv (rn_at t)"
proof -
  have upd: "\<forall>t \<in> set (runners (set_runner i u s0)). place_inv (rn_at t)"
    if "place_inv (rn_at u)" "runners s0 = runners s" for i u s0
    using assms(4) that set_update_subset_insert [of "runners s" i u] by auto
  from assms(3) show ?thesis
  proof cases
    case (run_choose i t n w' e r st)
    have "r = Inl err \<Longrightarrow> err = AssertFailed" for err
      using run_choose(6) by (auto simp: NextOperation_def discrete_Next_run Let_def split: option.splits)
    then have "place_inv (case r of Inl err \<Rightarrow> RunFault err | Inr oper \<Rightarrow> RunOper oper)"
      by (auto simp: place_inv_def split: sum.split)
    then show ?thesis unfolding run_choose(1) by (intro upd) simp_all
  next
    case (run_sequence i t k c)
    show ?thesis unfolding run_sequence(1) by (intro upd) (simp_all add: place_inv_def)
  next
    case (run_ask i t fuel m c a d)
    have "place_inv a"
    proof (cases "rn_at t")
      case (RunKey oper key)
      with run_ask(3,5) show ?thesis by (cases oper) (auto simp: bindM_result_Inr retM_def place_inv_def)
    qed (use run_ask(3,5) in \<open>auto simp: bindM_result_Inr retM_def place_inv_def split: if_splits\<close>)
    then show ?thesis unfolding run_ask(1) by (intro upd) simp_all
  next
    case (run_fault i t fuel m c err d)
    have "wl_typed fp p (c_wl c)" using wl_typed_config [OF run_fault(4)] assms(1) by blast
    from wl_call_asserts [OF this assms(2) run_fault(3,5)] run_fault(6) show ?thesis
      unfolding run_fault(1) by (intro upd) (simp_all add: place_inv_def)
  next
    case (run_read i t lay key db)
    show ?thesis unfolding run_read(1) by (intro upd) (simp_all add: place_inv_def)
  next
    case (run_call i t lay status db)
    show ?thesis unfolding run_call(1) by (intro upd) (simp_all add: place_inv_def finish_txn_def)
  qed
qed

lemma place_inv_reachable:
  assumes "wl_typed fp p w" and "uniform_keys p" and "(run_step fp w ^^ k) (run_init c db plan) s"
  shows "\<forall>t \<in> set (runners s). place_inv (rn_at t)"
  using assms(3)
proof (induction k arbitrary: s)
  case 0
  then show ?case by (auto simp: run_init_def place_inv_def)
next
  case (Suc k)
  then obtain m where "(run_step fp w ^^ k) (run_init c db plan) m" "run_step fp w m s" by auto
  with Suc.IH place_inv_step [OF assms(1,2)] show ?case by blast
qed

lemma run_progress:
  assumes "wl_typed fp p w" and "uniform_keys p" and t: "is_runner s i t" and "place_inv (rn_at t)"
    and "rn_left t \<noteq> 0 \<or> rn_at t \<noteq> RunIdle" and "\<forall>err. rn_at t \<noteq> RunFault err"
  shows "\<exists>s'. run_step fp w s s'"
proof -
  have ask: "\<exists>s'. run_step fp w s s'" if "wl_call fp 1 (rn_at t) = Some m" for m
  proof -
    let ?c = "\<lparr>c_wl = w, c_env = undefined, c_db = []\<rparr>"
    obtain r d where r: "m ?c = (r, d)" by (metis surj_pair)
    have conf: "same_config w (c_wl ?c)" and typed: "wl_typed fp p (c_wl ?c)" using assms(1) by simp_all
    show ?thesis
    proof (cases r)
      case (Inl err)
      with wl_call_asserts [OF typed assms(2) that] r have "err \<noteq> OutOfFuel" by fastforce
      with run_fault [OF t that conf] r Inl show ?thesis by blast
    next
      case (Inr a)
      with run_ask [OF t that conf] r show ?thesis by blast
    qed
  qed
  have call: "\<exists>s'. run_step fp w s s'" if "db_call (\<lambda>_ _. 0) (wl_table w) (rn_at t) (run_db s) = Some (res, db)" for res db
    using that run_read [OF t, of "\<lambda>_ _. 0" w] run_call [OF t, of "\<lambda>_ _. 0" w] by (cases res) blast+
  show ?thesis
  proof (cases "rn_at t")
    case RunIdle
    then obtain n where n: "rn_left t = Suc n" using assms(5) by (cases "rn_left t") simp_all
    obtain r st where "NextOperation fp (w, undefined) = (r, st)" by (metis surj_pair)
    from run_choose [OF t RunIdle n same_config_refl this] show ?thesis by blast
  next
    case (RunOper oper)
    show ?thesis
    proof (cases "oper = INSERT")
      case True
      with run_sequence [OF t, of "run_counter s" "run_counter s + 1" fp w] RunOper show ?thesis
        by (auto simp: counter_Next_def)
    qed (use RunOper ask in auto)
  next
    case (RunFields oper key len flds)
    with assms(4) have "oper \<noteq> INSERT" "oper \<noteq> UPDATE" by (simp_all add: place_inv_def)
    with RunFields call show ?thesis by (cases oper) fastforce+
  next
    case (RunValues oper key vs)
    with call show ?thesis by (fastforce simp: apfst_def map_prod_def split_beta)
  qed (use ask assms(6) in auto)
qed



end
