(* ===== verification/Program.thy ===== *)
theory Program
  imports RunEnd
begin

text \<open>
  The program \<open>ycsbc-l4.cc\<close> as a whole, with the text it prints and the timer of \<open>core/timer.h\<close>: \<open>main\<close> reads its
  command line, sets up workload and backend, runs both phases and reports. \<open>main_begin\<close> is the part before the
  first thread; from there \<open>main_step\<close> interleaves the threads of the \<open>lock_stl\<close> backend until \<open>main\<close> returns.
\<close>

section \<open>What the program finds\<close>

text \<open>
  The machine that \<open>main\<close> runs on: arithmetic, seeds and random engines, property files, the scheduler's answers,
  the values of the three uninitialised variables, what creating the schema of these tables comes to on a
  SQLite backend, how a time in ticks of the clock is converted to seconds and a \<open>double\<close> is printed, and the
  allocator that was configured. Every thread can migrate.
\<close>

record 'd machine =
  m_fp :: "'d fp"
  m_seeds :: "u64 stream"
  m_env :: "'d env"
  m_files :: "string \<Rightarrow> string option"
  m_info :: "nat \<Rightarrow> u64"
  m_cpu_max :: nat
  m_avoid :: bool
  m_rr :: bool
  m_disperse :: bool
  m_schema :: "db_kind \<Rightarrow> table_desc list \<Rightarrow> fault + unit"
  m_secs :: "int \<Rightarrow> 'd"
  m_show :: "'d \<Rightarrow> string"
  m_tlsf :: bool
  m_jemalloc :: bool

record console =
  cout :: string
  cerr :: string

text \<open>Printing with and without \<open>endl\<close>.\<close>

definition say :: "string \<Rightarrow> (console, unit) op" where
  "say s = modifyM (\<lambda>c. c\<lparr>cout := cout c @ s @ newline\<rparr>)"

definition report :: "string \<Rightarrow> (console, unit) op" where
  "report s = modifyM (\<lambda>c. c\<lparr>cerr := cerr c @ s\<rparr>)"

definition tab :: string where
  "tab = [CHR 0x09]"

definition MALLOC_IMPL :: "bool \<Rightarrow> bool \<Rightarrow> string" where
  "MALLOC_IMPL tlsf jemalloc =
     (if tlsf then ''TLSF'' else if jemalloc then ''jemalloc'' else ''system standard allocator'')"

text \<open>\<open>Timer\<close>: \<open>Start\<close> and \<open>End\<close> are given what the clock shows.\<close>

record timer =
  time_at :: int

definition Timer_Start :: "int \<Rightarrow> timer" where
  "Timer_Start now = \<lparr>time_at = now\<rparr>"

definition Timer_End :: "(int \<Rightarrow> 'd) \<Rightarrow> timer \<Rightarrow> int \<Rightarrow> 'd" where
  "Timer_End secs tm now = secs (now - time_at tm)"

section \<open>The command line with its messages\<close>

definition UsageMessage :: "string \<Rightarrow> (console, unit) op" where
  "UsageMessage command =
     thenM (say (''Usage: '' @ command @ '' [options]''))
    (thenM (say ''Options:'')
    (thenM (say ''  -threads n: execute using n threads (default: 1)'')
    (thenM (say ''  -db dbname: specify the name of the DB to use (default: basic)'')
    (thenM (say ''  -P propertyfile: load properties from the given file. Multiple files can'')
    (thenM (say ''                   be specified, and will be processed in the order specified'')
    (thenM (say ''  -migrate-rr: assign threads round-robin to CPUs'')
    (thenM (say ''  -avoid-boot-cpu: do not migrate threads to the boot CPU'')
    (thenM (say ''  -disperse: assign communicating ycsb and db threads to different CPUs'')
           (say ''              (for sqlite_ipc and sqlite_shm)'')))))))))"

definition usage_exit :: "string \<Rightarrow> (console, 'a) op" where
  "usage_exit command = thenM (UsageMessage command) (throwM (ExitProcess 0))"

fun parse_args ::
  "string \<Rightarrow> (string \<Rightarrow> string option) \<Rightarrow> string list \<Rightarrow> string \<Rightarrow> props \<Rightarrow> (console, props \<times> string \<times> string list) op" where
  "parse_args command files [] filename p = retM (p, filename, [])"
| "parse_args command files (arg # args) filename p =
     (if \<not> StrStartWith arg ''-'' then retM (p, filename, arg # args)
      else case value_option arg of
        Some k \<Rightarrow>
          (case args of
             [] \<Rightarrow> usage_exit command
           | v # rest \<Rightarrow> parse_args command files rest filename (SetProperty p k v))
      | None \<Rightarrow>
          if arg = ''-P''
          then (case args of
                  [] \<Rightarrow> usage_exit command
                | v # rest \<Rightarrow> bindM (liftM (Load (files v) p)) (\<lambda>p'. parse_args command files rest v p'))
          else (case flag_option arg of
                  Some k \<Rightarrow> parse_args command files args filename (SetProperty p k ''1'')
                | None \<Rightarrow>
                    thenM (say (''Unknown option '' @ [CHR 0x27] @ arg @ [CHR 0x27])) (throwM (ExitProcess 0))))"

definition command_line ::
  "string \<Rightarrow> (string \<Rightarrow> string option) \<Rightarrow> string list \<Rightarrow> props \<Rightarrow> (console, props \<times> string) op" where
  "command_line command files args p =
     bindM (parse_args command files args [] p) (\<lambda>(p', filename, rest).
       if length rest = length args \<or> rest \<noteq> [] then usage_exit command
       else
         let should_disperse = (p' ''disperse'' \<noteq> None);
             should_migrate = (p' ''migrate-rr'' \<noteq> None);
             dbname = GetProperty p' ''dbname'' ''none''
         in if should_disperse \<and> (\<not> should_migrate \<or> (dbname \<noteq> ''sqlite_ipc'' \<and> dbname \<noteq> ''sqlite_shm''))
            then thenM (say ''Argument -disperse not allowed'') (throwM (ExitProcess 0))
            else retM (p', filename))"

section \<open>Before the threads\<close>

text \<open>What \<open>main\<close> holds in its variables when it starts the threads of the loading phase.\<close>

record 'd job =
  jb_props :: props
  jb_file :: string
  jb_kind :: db_kind
  jb_wl :: "'d workload"
  jb_threads :: int
  jb_cpus :: "nat list"
  jb_disperse :: bool
  jb_plan :: "(int \<times> nat \<times> nat) list"

definition create_schema :: "'d machine \<Rightarrow> db_kind \<Rightarrow> table_desc list \<Rightarrow> (console, unit) op" where
  "create_schema m kind tables =
     (case kind of BasicKind \<Rightarrow> DB_CreateSchema tables | LockStlKind \<Rightarrow> DB_CreateSchema tables
      | _ \<Rightarrow> liftM (m_schema m kind tables))"

definition main_begin :: "'d machine \<Rightarrow> string \<Rightarrow> string list \<Rightarrow> (console, 'd job) op" where
  "main_begin m command args =
     bindM (command_line command (m_files m) args Map.empty) (\<lambda>(p, file_name).
     thenM (say ''Starting YCSB benchmark...'')
    (thenM (say (''=========================='' @ newline))
    (thenM (say (''Using allocator '' @ MALLOC_IMPL (m_tlsf m) (m_jemalloc m) @
         '' (info is reliable only on L4, beware of DB using another allocator)''))
    (bindM (liftM (CreateDB p)) (\<lambda>db.
     case db of
       None \<Rightarrow> bindM (liftM (prop_at p ''dbname'')) (\<lambda>name.
                thenM (say (''Unknown database name '' @ name)) (throwM (ExitProcess 0)))
     | Some kind \<Rightarrow>
         bindM (liftM (prop_at p ''dbname'')) (\<lambda>name.
         thenM (say (''Benchmarking DB: '' @ name))
        (bindM (liftM (fst (Init (m_fp m) (m_seeds m) p (m_env m)))) (\<lambda>w.
         thenM (create_schema m kind (Tables w))
        (
         bindM (liftM (stoi (GetProperty p ''threadcount'' ''1''))) (\<lambda>num_threads.
         let online = online_cpus (m_info m) (m_cpu_max m) in
         if online = [] then throwM (RuntimeError ''cpu list empty'')
         else
           let avoid = stream_bool (m_avoid m) (GetProperty p ''avoid-boot-cpu'' ''0'');
               rr = stream_bool (m_rr m) (GetProperty p ''migrate-rr'' ''0'');
               disperse = stream_bool (m_disperse m) (GetProperty p ''disperse'' ''0'');
               cpus = usable_cpus avoid rr online
           in bindM (liftM (sum_bind (prop_at p ''recordcount'') stoi)) (\<lambda>records.
              bindM (liftM (thread_plan disperse cpus num_threads records)) (\<lambda>plan.
              retM \<lparr>jb_props = p, jb_file = file_name, jb_kind = kind, jb_wl = w, jb_threads = num_threads,
                jb_cpus = cpus, jb_disperse = disperse, jb_plan = plan\<rparr>))))))))))))"

text \<open>Printing changes nothing else: parsing is \<open>ParseCommandLine\<close>, and the job is the first half of \<open>main_plan\<close>.\<close>

lemma say_run: "say s c = (Inr (), c\<lparr>cout := cout c @ s @ newline\<rparr>)"
  by (simp add: say_def op_run)

lemma thenM_say: "thenM (say s) k c = k (c\<lparr>cout := cout c @ s @ newline\<rparr>)"
  by (simp add: thenM_def bindM_def say_run)

lemma usage_exit_result: "fst (usage_exit command c) = Inl (ExitProcess 0)"
  by (simp add: usage_exit_def UsageMessage_def thenM_def bindM_def say_run op_run)

lemma bindM_liftM: "bindM (liftM r) f c = (case r of Inl e \<Rightarrow> (Inl e, c) | Inr x \<Rightarrow> f x c)"
  by (simp add: bindM_def liftM_def split: sum.split)

lemma parse_args_result: "fst (parse_args command files args filename p c) = parse_options files args filename p"
  by (induction files args filename p rule: parse_options.induct)
    (auto simp: op_run usage_exit_result thenM_say bindM_liftM split: option.split list.split sum.split)

lemma command_line_result: "fst (command_line command files args p c) = ParseCommandLine files args p"
  using parse_args_result [of command files args "[]" p c]
  by (auto simp: command_line_def ParseCommandLine_def sum_bind_def bindM_def Let_def usage_exit_result thenM_say op_run
      split: prod.split sum.split)

text \<open>The transactions that the second phase starts; \<open>main\<close> works this out when the first phase is over.\<close>

definition txn_plan :: "'d job \<Rightarrow> fault + int \<times> (int \<times> nat \<times> nat) list" where
  "txn_plan j =
     sum_bind (sum_bind (prop_at (jb_props j) ''operationcount'') stoi) (\<lambda>ops.
     sum_bind (thread_plan (jb_disperse j) (jb_cpus j) (jb_threads j) ops) (\<lambda>plan. Inr (ops, plan)))"

lemma sum_bind_simps [simp]: "sum_bind (Inl e) f = Inl e" "sum_bind (Inr x) f = f x"
  by (simp_all add: sum_bind_def)

lemma sum_bind_assoc: "sum_bind (sum_bind r f) g = sum_bind r (\<lambda>x. sum_bind (f x) g)"
  by (simp add: sum_bind_def split: sum.split)

lemma fst_bindM_liftM: "fst (bindM (liftM r) f c) = sum_bind r (\<lambda>x. fst (f x c))"
  by (simp add: sum_bind_def bindM_liftM split: sum.split)

lemma CreateDB_name: "CreateDB p = Inr db \<Longrightarrow> \<exists>name. prop_at p ''dbname'' = Inr name"
  by (auto simp: CreateDB_def split: sum.splits)

text \<open>Initialising the workload and creating its schema.\<close>

definition schema_result :: "'d machine \<Rightarrow> db_kind \<Rightarrow> table_desc list \<Rightarrow> fault + unit" where
  "schema_result m kind tables = (if kind \<in> {BasicKind, LockStlKind} then Inr () else m_schema m kind tables)"

definition main_setup :: "'d machine \<Rightarrow> props \<Rightarrow> fault + unit" where
  "main_setup m p =
     sum_bind (fst (Init (m_fp m) (m_seeds m) p (m_env m))) (\<lambda>w.
     case CreateDB p of Inr (Some kind) \<Rightarrow> schema_result m kind (Tables w) | _ \<Rightarrow> Inr ())"

lemma create_schema_run: "create_schema m kind tables = liftM (schema_result m kind tables)"
  by (cases kind) (simp_all add: create_schema_def schema_result_def DB_CreateSchema_def op_run fun_eq_iff)

lemma thenM_create_schema:
  "thenM (create_schema m kind tables) k c = (case schema_result m kind tables of Inl e \<Rightarrow> (Inl e, c) | Inr _ \<Rightarrow> k c)"
  "fst (thenM (create_schema m kind tables) k c) = sum_bind (schema_result m kind tables) (\<lambda>_. fst (k c))"
  by (simp_all add: create_schema_run thenM_def bindM_liftM sum_bind_def split: sum.split)

lemma main_begin_plan:
  "main_plan (m_files m) (main_setup m) (m_info m) (m_cpu_max m) (m_avoid m) (m_rr m) (m_disperse m) args =
   sum_bind (fst (main_begin m command args c)) (\<lambda>j. sum_bind (txn_plan j) (\<lambda>(ops, plan).
     Inr \<lparr>rp_kind = jb_kind j, rp_load = jb_plan j, rp_run = plan\<rparr>))"
proof -
  obtain r c' where r: "command_line command (m_files m) args Map.empty c = (r, c')" by fastforce
  with command_line_result [of command "m_files m" args Map.empty c]
  have cmd: "ParseCommandLine (m_files m) args Map.empty = r" by simp
  have cl: "bindM (command_line command (m_files m) args Map.empty) f c = (case r of Inl err \<Rightarrow> (Inl err, c') | Inr x \<Rightarrow> f x c')" for f
    using r by (simp add: bindM_def split: sum.split)
  show ?thesis
  proof (cases r)
    case (Inl err)
    then show ?thesis unfolding main_plan_def main_begin_def cmd cl by simp
  next
    case (Inr x)
    obtain p file_name where x: "x = (p, file_name)" by fastforce
    show ?thesis
    proof (cases "CreateDB p")
      case (Inl err)
      then show ?thesis
        unfolding main_plan_def main_begin_def cmd cl \<open>r = Inr x\<close> x by (simp add: thenM_say bindM_liftM)
    next
      case (Inr db)
      obtain name where name: "prop_at p ''dbname'' = Inr name" using CreateDB_name [OF Inr] by blast
      show ?thesis
        unfolding main_plan_def main_begin_def cmd cl \<open>r = Inr x\<close> x txn_plan_def main_setup_def
        by (cases db; cases "online_cpus (m_info m) (m_cpu_max m) = []") (simp_all add: thenM_say bindM_liftM [of "CreateDB p"] bindM_liftM [of "prop_at p ''dbname''"] Inr name
            fst_bindM_liftM thenM_create_schema(2) sum_bind_assoc Let_def op_run)
    qed
  qed
qed

section \<open>The run\<close>

text \<open>
  Where \<open>main\<close> stands: waiting for the threads of the loading phase, or for those of the transaction phase with its
  timer running and the number of operations it will report; or it has returned or was ended by a fault.
\<close>

datatype main_at = Loading load | Running timer int run | Returned "fault + int"

text \<open>
  The result of a thread that was stopped by an exception arrives with the \<open>get\<close> of its future, after those of the
  threads before it; a failed assertion ends the program at once.
\<close>

definition loader_fault :: "load \<Rightarrow> fault \<Rightarrow> bool" where
  "loader_fault s err \<longleftrightarrow> (\<exists>i t key. is_loader s i t \<and> ld_at t = LoadFault key err \<and>
     (err = AssertFailed \<or> (\<forall>u \<in> set (take i (loaders s)). ld_left u = 0 \<and> ld_at u = LoadIdle)))"

definition runner_fault :: "run \<Rightarrow> fault \<Rightarrow> bool" where
  "runner_fault s err \<longleftrightarrow> (\<exists>i t. is_runner s i t \<and> rn_at t = RunFault err \<and>
     (err = AssertFailed \<or> (\<forall>u \<in> set (take i (runners s)). rn_left u = 0 \<and> rn_at u = RunIdle)))"

text \<open>From the end of the loading phase to the start of the threads of the next, and from their end to the end.\<close>

definition begin_run :: "'d job \<Rightarrow> int \<Rightarrow> load \<Rightarrow> (console, main_at) op" where
  "begin_run j now s =
     thenM (report newline)
    (thenM (report (''# Loading records:'' @ tab @ int_dec (load_sum s) @ newline))
    (bindM (liftM (txn_plan j)) (\<lambda>(ops, plan).
     retM (Running (Timer_Start now) ops (run_init (load_counter s) (load_db s) plan)))))"

definition finish_run :: "'d machine \<Rightarrow> 'd job \<Rightarrow> timer \<Rightarrow> int \<Rightarrow> int \<Rightarrow> (console, int) op" where
  "finish_run m j tm ops now =
     (let duration = Timer_End (m_secs m) tm now;
          ktps = f_div (m_fp m) (f_div (m_fp m) (f_of_int (m_fp m) ops) duration) (f_of_int (m_fp m) 1000)
      in thenM (report (''# Transaction throughput (KTPS)'' @ newline))
        (bindM (liftM (prop_at (jb_props j) ''dbname'')) (\<lambda>name.
         thenM (report (name @ tab @ jb_file j @ tab @ int_dec (jb_threads j) @ tab))
        (thenM (report (m_show m ktps @ newline)) (retM 0)))))"

text \<open>
  The steps of the program with the \<open>lock_stl\<close> backend. What the clock shows is open.
\<close>

inductive main_step :: "'d machine \<Rightarrow> 'd job \<Rightarrow> main_at \<times> console \<Rightarrow> main_at \<times> console \<Rightarrow> bool" for m j where
  main_load: "load_step (m_fp m) (jb_wl j) s s' \<Longrightarrow> main_step m j (Loading s, c) (Loading s', c)"
| main_load_fault: "loader_fault s err \<Longrightarrow> main_step m j (Loading s, c) (Returned (Inl err), c)"
| main_loaded: "all_loaded s \<Longrightarrow> begin_run j now s c = (Inr a, c') \<Longrightarrow> main_step m j (Loading s, c) (a, c')"
| main_no_plan: "all_loaded s \<Longrightarrow> begin_run j now s c = (Inl err, c') \<Longrightarrow>
    main_step m j (Loading s, c) (Returned (Inl err), c')"
| main_run: "run_step (m_fp m) (jb_wl j) s s' \<Longrightarrow> main_step m j (Running tm ops s, c) (Running tm ops s', c)"
| main_run_fault: "runner_fault s err \<Longrightarrow> main_step m j (Running tm ops s, c) (Returned (Inl err), c)"
| main_end: "all_run s \<Longrightarrow> finish_run m j tm ops now c = (r, c') \<Longrightarrow>
    main_step m j (Running tm ops s, c) (Returned r, c')"

definition counter_start :: "'d workload \<Rightarrow> u64" where
  "counter_start w = (case wl_key_gen w of CounterGenerator k \<Rightarrow> k | _ \<Rightarrow> 0)"

definition main_start :: "'d job \<Rightarrow> main_at" where
  "main_start j = Loading (load_init (counter_start (jb_wl j)) (jb_plan j))"

section \<open>How the program ends\<close>

lemma report_run: "report s c = (Inr (), c\<lparr>cerr := cerr c @ s\<rparr>)"
  by (simp add: report_def op_run)

lemma begin_run_result:
  "begin_run j now s c =
     (case txn_plan j of
        Inl err \<Rightarrow> (Inl err, c\<lparr>cerr := cerr c @ newline @ ''# Loading records:'' @ tab @ int_dec (load_sum s) @ newline\<rparr>)
      | Inr (ops, plan) \<Rightarrow>
          (Inr (Running (Timer_Start now) ops (run_init (load_counter s) (load_db s) plan)),
           c\<lparr>cerr := cerr c @ newline @ ''# Loading records:'' @ tab @ int_dec (load_sum s) @ newline\<rparr>))"
  by (simp add: begin_run_def thenM_def bindM_def report_run op_run split: sum.split)

text \<open>The steps that are left.\<close>

definition txn_rounds :: "'d job \<Rightarrow> nat" where
  "txn_rounds j = (case txn_plan j of Inl _ \<Rightarrow> 0 | Inr (_, plan) \<Rightarrow> \<Sum>(n, _) \<leftarrow> plan. nat n)"

primrec main_rank :: "'d job \<Rightarrow> main_at \<Rightarrow> nat" where
  "main_rank j (Loading s) = (\<Sum>t \<leftarrow> loaders s. load_rank t) + 6 * txn_rounds j + 2"
| "main_rank j (Running tm ops s) = (\<Sum>t \<leftarrow> runners s. run_rank t) + 1"
| "main_rank j (Returned r) = 0"

lemma main_step_rank:
  assumes "main_step m j (a, c) (a', c')"
  shows "main_rank j a' < main_rank j a"
  using assms
proof cases
  case (main_loaded s now)
  then show ?thesis
    by (auto simp: begin_run_result run_init_rank txn_rounds_def split: sum.splits)
qed (use load_step_rank run_step_rank in fastforce)+

lemma main_steps_rank: "(main_step m j ^^ k) x y \<Longrightarrow> k + main_rank j (fst y) \<le> main_rank j (fst x)"
proof (induction k arbitrary: y)
  case (Suc k)
  then obtain z where "(main_step m j ^^ k) x z" "main_step m j z y" by auto
  with Suc.IH [of z] main_step_rank [of m j "fst z" "snd z" "fst y" "snd y"] show ?case by simp
qed simp

lemma main_begin_job:
  assumes "main_begin m command args c0 = (Inr j, c)"
  shows "CreateDB (jb_props j) = Inr (Some (jb_kind j))"
    and "\<exists>e. Init (m_fp m) (m_seeds m) (jb_props j) (m_env m) = (Inr (jb_wl j), e)"
    and "\<exists>records. sum_bind (prop_at (jb_props j) ''recordcount'') stoi = Inr records \<and>
      thread_plan (jb_disperse j) (jb_cpus j) (jb_threads j) records = Inr (jb_plan j)"
proof -
  obtain p file_name c1 where run: "command_line command (m_files m) args Map.empty c0 = (Inr (p, file_name), c1)"
    using assms by (auto simp: main_begin_def bindM_result_Inr)
  have cl: "bindM (command_line command (m_files m) args Map.empty) f c0 = f (p, file_name) c1" for f
    using run by (simp add: bindM_def)
  show "CreateDB (jb_props j) = Inr (Some (jb_kind j))"
    and "\<exists>e. Init (m_fp m) (m_seeds m) (jb_props j) (m_env m) = (Inr (jb_wl j), e)"
    and "\<exists>records. sum_bind (prop_at (jb_props j) ''recordcount'') stoi = Inr records \<and>
      thread_plan (jb_disperse j) (jb_cpus j) (jb_threads j) records = Inr (jb_plan j)"
    using assms unfolding main_begin_def cl
    by (auto simp: thenM_say thenM_create_schema(1) bindM_liftM op_run Let_def fst_def split: sum.splits option.splits if_splits prod.splits)
qed

lemma lock_stl_name: "CreateDB p = Inr (Some LockStlKind) \<Longrightarrow> prop_at p ''dbname'' = Inr ''lock_stl''"
  by (auto simp: CreateDB_def split: sum.splits if_splits)

text \<open>The faults of the loading threads.\<close>

definition load_asserts :: "load \<Rightarrow> bool" where
  "load_asserts s \<longleftrightarrow> (\<forall>t \<in> set (loaders s). \<forall>key err. ld_at t = LoadFault key err \<longrightarrow> err = AssertFailed)"

lemma load_asserts_step:
  assumes "load_step fp w s s'" and "load_asserts s"
  shows "load_asserts s'"
proof -
  have upd: "load_asserts (set_loader i u s0)"
    if "\<And>key err. ld_at u = LoadFault key err \<Longrightarrow> err = AssertFailed" "loaders s0 = loaders s" for i u s0
    using assms(2) that set_update_subset_insert [of "loaders s" i u] by (auto simp: load_asserts_def)
  from assms(1) show ?thesis
  proof cases
    case (load_draw i t n k c)
    show ?thesis unfolding load_draw(1) by (rule upd) simp_all
  next
    case (load_build i t key w' e vs st)
    show ?thesis unfolding load_build(1) by (rule upd) simp_all
  next
    case (load_fault i t key w' e err st)
    have "only_asserts (BuildValues fp)" by (rule assert_rules)
    from only_assertsD [OF this load_fault(5)] show ?thesis unfolding load_fault(1) by (intro upd) simp_all
  next
    case (load_insert i t key vs lay rc db)
    show ?thesis unfolding load_insert(1) by (rule upd) simp_all
  qed
qed

text \<open>What is true at every place of \<open>main\<close>; \<open>loaded_by\<close> is a state in which the loading phase can end.\<close>

definition loaded_by :: "'d machine \<Rightarrow> 'd job \<Rightarrow> load \<Rightarrow> bool" where
  "loaded_by m j l \<longleftrightarrow> (load_step (m_fp m) (jb_wl j))\<^sup>*\<^sup>* (load_init (counter_start (jb_wl j)) (jb_plan j)) l \<and> all_loaded l"

definition load_text :: "int \<Rightarrow> string" where
  "load_text n = newline @ ''# Loading records:'' @ tab @ int_dec n @ newline"

definition throughput :: "'d machine \<Rightarrow> int \<Rightarrow> int \<Rightarrow> 'd" where
  "throughput m ops ticks = f_div (m_fp m) (f_div (m_fp m) (f_of_int (m_fp m) ops) (m_secs m ticks)) (f_of_int (m_fp m) 1000)"

definition run_text :: "'d machine \<Rightarrow> 'd job \<Rightarrow> 'd \<Rightarrow> string" where
  "run_text m j ktps =
     ''# Transaction throughput (KTPS)'' @ newline @ ''lock_stl'' @ tab @ jb_file j @ tab @ int_dec (jb_threads j) @ tab @
     m_show m ktps @ newline"

primrec main_good :: "'d machine \<Rightarrow> 'd job \<Rightarrow> console \<Rightarrow> console \<Rightarrow> main_at \<Rightarrow> bool" where
  "main_good m j c c' (Loading s) \<longleftrightarrow>
     (load_step (m_fp m) (jb_wl j))\<^sup>*\<^sup>* (load_init (counter_start (jb_wl j)) (jb_plan j)) s \<and> load_asserts s \<and> c' = c"
| "main_good m j c c' (Running tm ops s) \<longleftrightarrow>
     (\<exists>l plan k. loaded_by m j l \<and> txn_plan j = Inr (ops, plan) \<and>
       (run_step (m_fp m) (jb_wl j) ^^ k) (run_init (load_counter l) (load_db l) plan) s \<and>
       c' = c\<lparr>cerr := cerr c @ load_text (load_sum l)\<rparr>)"
| "main_good m j c c' (Returned r) \<longleftrightarrow>
     r = Inl AssertFailed \<or> (\<exists>err. r = Inl err \<and> txn_plan j = Inl err) \<or>
     (\<exists>l ops plan ticks. loaded_by m j l \<and> txn_plan j = Inr (ops, plan) \<and> r = Inr 0 \<and>
       c' = c\<lparr>cerr := cerr c @ load_text (load_sum l) @ run_text m j (throughput m ops ticks)\<rparr>)"

lemma runner_fault_asserts:
  assumes "\<forall>t \<in> set (runners s). place_inv (rn_at t)" and "runner_fault s err"
  shows "err = AssertFailed"
proof -
  from assms(2) obtain i t where "is_runner s i t" "rn_at t = RunFault err" unfolding runner_fault_def by blast
  moreover from this have "t \<in> set (runners s)" by (auto simp: is_runner_def)
  ultimately show ?thesis using assms(1) by (auto simp: place_inv_def)
qed

lemma main_good_step:
  assumes job: "prop_at (jb_props j) ''dbname'' = Inr ''lock_stl''"
    and typed: "wl_typed (m_fp m) (jb_props j) (jb_wl j)" "uniform_keys (jb_props j)"
    and step: "main_step m j (a, c1) (a', c2)" and good: "main_good m j c c1 a"
  shows "main_good m j c c2 a'"
  using step
proof cases
  case (main_load s s')
  then show ?thesis using good load_asserts_step by (auto intro: rtranclp.rtrancl_into_rtrancl)
next
  case (main_load_fault s err)
  then obtain i t key where "is_loader s i t" "ld_at t = LoadFault key err" unfolding loader_fault_def by blast
  moreover from this have "t \<in> set (loaders s)" by (auto simp: is_loader_def)
  ultimately have "err = AssertFailed" using good unfolding main_load_fault by (auto simp: load_asserts_def)
  then show ?thesis by (simp add: main_load_fault)
next
  case (main_loaded s now)
  then have "loaded_by m j s" using good by (simp add: loaded_by_def)
  with main_loaded good show ?thesis
    by (auto simp: begin_run_result load_text_def split: sum.splits intro!: exI [of _ s] exI [of _ "0 :: nat"])
next
  case (main_no_plan s now err)
  then show ?thesis by (auto simp: begin_run_result split: sum.splits)
next
  case (main_run s s' tm ops)
  from good obtain l plan k where g: "loaded_by m j l" "txn_plan j = Inr (ops, plan)"
    "(run_step (m_fp m) (jb_wl j) ^^ k) (run_init (load_counter l) (load_db l) plan) s" "c1 = c\<lparr>cerr := cerr c @ load_text (load_sum l)\<rparr>"
    by (auto simp: main_run)
  from g(3) main_run(4) have "(run_step (m_fp m) (jb_wl j) ^^ Suc k) (run_init (load_counter l) (load_db l) plan) s'" by auto
  with g main_run show ?thesis by (auto simp del: relpowp.simps)
next
  case (main_run_fault s err tm ops)
  from good obtain l :: load and plan k where "(run_step (m_fp m) (jb_wl j) ^^ k) (run_init (load_counter l) (load_db l) plan) s"
    by (auto simp: main_run_fault)
  from runner_fault_asserts [OF place_inv_reachable [OF typed this] main_run_fault(4)] have "err = AssertFailed" .
  then show ?thesis by (simp add: main_run_fault)
next
  case (main_end s tm ops now r)
  from good obtain l plan where l: "loaded_by m j l" "txn_plan j = Inr (ops, plan)" "c1 = c\<lparr>cerr := cerr c @ load_text (load_sum l)\<rparr>"
    by (auto simp: main_end)
  have "r = Inr 0 \<and> c2 = c\<lparr>cerr := cerr c @ load_text (load_sum l) @ run_text m j (throughput m ops (now - time_at tm))\<rparr>"
    using main_end(4)
    by (simp add: finish_run_def thenM_def bindM_def report_run op_run job l(3) run_text_def throughput_def Timer_End_def Let_def)
  with l(1,2) show ?thesis by (auto simp: main_end(2))
qed

lemma main_good_reachable:
  assumes "prop_at (jb_props j) ''dbname'' = Inr ''lock_stl''"
    and "wl_typed (m_fp m) (jb_props j) (jb_wl j)" "uniform_keys (jb_props j)"
    and "(main_step m j ^^ k) (main_start j, c) (a, c')"
  shows "main_good m j c c' a"
  using assms(4)
proof (induction k arbitrary: a c')
  case 0
  then show ?case by (auto simp: main_start_def load_asserts_def load_init_def)
next
  case (Suc k)
  then obtain b d where "(main_step m j ^^ k) (main_start j, c) (b, d)" "main_step m j (b, d) (a, c')" by auto
  with Suc.IH main_good_step [OF assms(1-3)] show ?case by blast
qed

text \<open>As long as \<open>main\<close> has not returned, some step is possible.\<close>

lemma loading_progress:
  assumes "load_asserts s"
  shows "\<exists>y. main_step m j (Loading s, c) y"
proof (cases "all_loaded s")
  case True
  obtain r c' where "begin_run j 0 s c = (r, c')" by fastforce
  with True show ?thesis by (cases r) (blast intro: main_loaded main_no_plan)+
next
  case False
  then obtain t where t: "t \<in> set (loaders s)" "ld_left t \<noteq> 0 \<or> ld_at t \<noteq> LoadIdle"
    by (auto simp: all_loaded_def list_all_iff)
  then obtain i where i: "is_loader s i t" by (auto simp: is_loader_def in_set_conv_nth)
  show ?thesis
  proof (cases "\<exists>key err. ld_at t = LoadFault key err")
    case True
    with assms t(1) obtain key where "ld_at t = LoadFault key AssertFailed" by (auto simp: load_asserts_def)
    with i have "loader_fault s AssertFailed" by (auto simp: loader_fault_def)
    then show ?thesis by (blast intro: main_load_fault)
  next
    case False
    with load_progress [OF i t(2)] show ?thesis by (blast intro: main_load)
  qed
qed

lemma running_progress:
  assumes "wl_typed (m_fp m) p (jb_wl j)" and "uniform_keys p" and inv: "\<forall>t \<in> set (runners s). place_inv (rn_at t)"
  shows "\<exists>y. main_step m j (Running tm ops s, c) y"
proof (cases "all_run s")
  case True
  obtain r c' where "finish_run m j tm ops 0 c = (r, c')" by fastforce
  with True show ?thesis by (blast intro: main_end)
next
  case False
  then obtain t where t: "t \<in> set (runners s)" "rn_left t \<noteq> 0 \<or> rn_at t \<noteq> RunIdle"
    by (auto simp: all_run_def list_all_iff)
  then obtain i where i: "is_runner s i t" by (auto simp: is_runner_def in_set_conv_nth)
  show ?thesis
  proof (cases "\<exists>err. rn_at t = RunFault err")
    case True
    with inv t(1) have "rn_at t = RunFault AssertFailed" by (auto simp: place_inv_def)
    with i have "runner_fault s AssertFailed" by (auto simp: runner_fault_def)
    then show ?thesis by (blast intro: main_run_fault)
  next
    case False
    with run_progress [OF assms(1,2) i _ t(2)] inv t(1) show ?thesis by (blast intro: main_run)
  qed
qed

lemma main_progress:
  assumes "wl_typed (m_fp m) (jb_props j) (jb_wl j)" "uniform_keys (jb_props j)"
    and "main_good m j c c' a" and "\<nexists>y. main_step m j (a, c') y"
  shows "\<exists>r. a = Returned r"
proof (cases a)
  case (Loading s)
  with assms(3) have "load_asserts s" by simp
  from loading_progress [OF this] assms(4) Loading show ?thesis by blast
next
  case (Running tm ops s)
  with assms(3) obtain l :: load and plan k where
    "(run_step (m_fp m) (jb_wl j) ^^ k) (run_init (load_counter l) (load_db l) plan) s" by auto
  from running_progress [OF assms(1,2) place_inv_reachable [OF assms(1,2) this]] Running assms(4) show ?thesis by blast
qed blast

lemma loaded_by_count:
  assumes "loaded_by m j l"
    and "thread_plan (jb_disperse j) (jb_cpus j) (jb_threads j) records = Inr (jb_plan j)" and "records \<le> int_max"
    and "0 < jb_threads j" "0 \<le> records" "0 < wl_field_count (jb_wl j)"
    and "wl_ordered (jb_wl j)" "CHR 0x00 \<notin> set (wl_table (jb_wl j))"
  shows "load_sum l = records - records mod jb_threads j"
proof -
  let ?N = "records - records mod jb_threads j"
  have le: "0 \<le> ?N" "?N \<le> records" using assms(4,5) by (simp_all add: zmod_le_nonneg_dividend)
  have "stored (jb_wl j) (set (drawn_keys (jb_wl j) (counter_start (jb_wl j)) (nat ?N))) (load_sum l) (load_db l)"
    using assms(1) load_inv_done [OF load_inv_reachable [OF assms(6)]] plan_total [OF assms(2,4,5)]
    by (fastforce simp: loaded_by_def)
  from stored_all_counted [OF this assms(7,8)] le assms(3) show ?thesis by (simp add: int_max_def nat_le_iff)
qed


text \<open>A machine with one CPU and one property file, for an example.\<close>

definition one_file :: "(string \<times> string) list" where
  "one_file = [(''recordcount'', ''1''), (''operationcount'', ''1'')]"

definition one_machine :: "rat machine" where
  "one_machine = \<lparr>m_fp = toy_fp, m_seeds = sconst 7, m_env = toy_env, m_files = \<lambda>_. Some (render one_file),
     m_info = \<lambda>_. 1, m_cpu_max = 1, m_avoid = False, m_rr = False, m_disperse = False, m_schema = \<lambda>_ _. Inr (),
     m_secs = of_int, m_show = \<lambda>_. ''0'', m_tlsf = False, m_jemalloc = False\<rparr>"

definition one_args :: "string list" where
  "one_args = [''-db'', ''lock_stl'', ''-P'', ''w'']"

definition run_props :: props where
  "run_props = [''dbname'' \<mapsto> ''lock_stl'', ''recordcount'' \<mapsto> ''1'', ''operationcount'' \<mapsto> ''1'']"

lemma one_command_line: "fst (command_line command (m_files one_machine) one_args Map.empty c) = Inr (run_props, ''w'')"
proof -
  have "Load (Some (render one_file)) p = Inr (p(''recordcount'' \<mapsto> ''1'', ''operationcount'' \<mapsto> ''1''))" for p
    by (simp add: one_file_def Load_def load_loop_assignments assignments_render plain_entry_def trimmed_def is_space_def char_code_def)
  then show ?thesis unfolding command_line_result
    by (simp add: one_machine_def one_args_def ParseCommandLine_def sum_bind_def option_examples run_props_def GetProperty_def
        del: parse_options.simps)
qed

lemma run_props_Init: "Init toy_fp (sconst 7) run_props toy_env = Init toy_fp (sconst 7) one_props toy_env"
  by (simp add: run_props_def one_props_def Init_def GetProperty_def proportion_def GetFieldLenGenerator_def
      key_chooser_for_def scan_len_chooser_for_def)

lemma one_counter:
  assumes "Init toy_fp (sconst 7) one_props toy_env = (Inr w, toy_env)"
  shows "wl_key_gen w = CounterGenerator 0"
  using assms
  by (auto simp: one_props_def Init_def GetProperty_def GetFieldLenGenerator_def toy_numbers liftM_def bindM_def
      retM_def proportion_def toy_fp_def StrToBool_def to_lower_def char_code_def key_chooser_for_def
      scan_len_chooser_for_def)

lemma one_online: "online_cpus (m_info one_machine) (m_cpu_max one_machine) \<noteq> []"
proof -
  have "cpu_online (m_info one_machine) (m_cpu_max one_machine) 0" by (simp add: cpu_online_def one_machine_def)
  then show ?thesis using online_from_set [of 0 0 "m_info one_machine" "m_cpu_max one_machine" "[]"] by (auto simp: online_cpus_def)
qed

lemma one_job:
  "\<exists>j c. main_begin one_machine command one_args c0 = (Inr j, c) \<and> jb_props j = run_props \<and> jb_kind j = LockStlKind \<and>
     Init toy_fp (sconst 7) one_props toy_env = (Inr (jb_wl j), toy_env) \<and>
     (\<exists>x y x' y'. jb_plan j = [(1, x, y)] \<and> txn_plan j = Inr (1, [(1, x', y')]))"
proof -
  obtain w where w: "Init toy_fp (sconst 7) one_props toy_env = (Inr w, toy_env)" using one_Init by blast
  obtain c1 where run: "command_line command (m_files one_machine) one_args Map.empty c0 = (Inr (run_props, ''w''), c1)"
    using one_command_line [of command c0] by (metis prod.collapse)
  have cl: "bindM (command_line command (m_files one_machine) one_args Map.empty) f c0 = f (run_props, ''w'') c1" for f
    using run by (simp add: bindM_def)
  have props: "CreateDB run_props = Inr (Some LockStlKind)" "prop_at run_props ''dbname'' = Inr ''lock_stl''"
    "prop_at run_props ''recordcount'' = Inr ''1''" "prop_at run_props ''operationcount'' = Inr ''1''"
    "GetProperty run_props ''threadcount'' ''1'' = ''1''" "stoi ''1'' = Inr 1"
    by (simp_all add: run_props_def CreateDB_def prop_at_def GetProperty_def toy_numbers)
  have plan: "thread_plan d cs 1 1 = Inr [(1, fst (select_cpus d cs 0), snd (select_cpus d cs 0))]" for d cs
    by (simp add: thread_plan_def)
  have mach: "m_fp one_machine = toy_fp" "m_seeds one_machine = sconst 7" "m_env one_machine = toy_env"
    "schema_result one_machine LockStlKind t = Inr ()" for t
    by (simp_all add: one_machine_def schema_result_def)
  show ?thesis
    by (simp add: main_begin_def cl thenM_say thenM_create_schema(1) bindM_liftM props mach run_props_Init w one_online op_run Let_def txn_plan_def plan)
qed

lemma load_as_main:
  assumes "(load_step (m_fp m) (jb_wl j))\<^sup>*\<^sup>* s s'"
  shows "(main_step m j)\<^sup>*\<^sup>* (Loading s, c) (Loading s', c)"
  using assms by (induction rule: rtranclp_induct) (auto intro: main_load rtranclp.rtrancl_into_rtrancl)

lemma run_as_main:
  assumes "(run_step (m_fp m) (jb_wl j))\<^sup>*\<^sup>* s s'"
  shows "(main_step m j)\<^sup>*\<^sup>* (Running tm ops s, c) (Running tm ops s', c)"
  using assms by (induction rule: rtranclp_induct) (auto intro: main_run rtranclp.rtrancl_into_rtrancl)

lemma main_complete_run:
  assumes "(load_step (m_fp m) (jb_wl j))\<^sup>*\<^sup>* (load_init (counter_start (jb_wl j)) (jb_plan j)) l" "all_loaded l"
    and "txn_plan j = Inr (ops, plan)"
    and "(run_step (m_fp m) (jb_wl j))\<^sup>*\<^sup>* (run_init (load_counter l) (load_db l) plan) s" "all_run s"
    and "prop_at (jb_props j) ''dbname'' = Inr name"
  shows "\<exists>c'. (main_step m j)\<^sup>*\<^sup>* (main_start j, c) (Returned (Inr 0), c')"
proof -
  obtain c1 where b: "begin_run j 0 l c = (Inr (Running (Timer_Start 0) ops (run_init (load_counter l) (load_db l) plan)), c1)"
    using assms(3) by (simp add: begin_run_result)
  obtain c2 where f: "finish_run m j (Timer_Start 0) ops 0 c1 = (Inr 0, c2)"
    using assms(6) by (simp add: finish_run_def thenM_def bindM_def report_run op_run Let_def)
  have "(main_step m j)\<^sup>*\<^sup>* (main_start j, c) (Loading l, c)"
    unfolding main_start_def by (rule load_as_main [OF assms(1)])
  also have "main_step m j (Loading l, c) (Running (Timer_Start 0) ops (run_init (load_counter l) (load_db l) plan), c1)"
    by (rule main_loaded [OF assms(2) b])
  also have "(main_step m j)\<^sup>*\<^sup>* (Running (Timer_Start 0) ops (run_init (load_counter l) (load_db l) plan), c1)
      (Running (Timer_Start 0) ops s, c1)"
    by (rule run_as_main [OF assms(4)])
  also have "main_step m j (Running (Timer_Start 0) ops s, c1) (Returned (Inr 0), c2)"
    by (rule main_end [OF assms(5) f])
  finally show ?thesis by blast
qed

lemma one_run_plan:
  "load_init n [(k, x, y)] = load_init n [(k, 0, 0)]" "run_init c db [(k, x, y)] = run_init c db [(k, 0, 0)]"
  by (simp_all add: load_init_def run_init_def)


end
