(* ===== verification/Memory.thy ===== *)
theory Memory
  imports Prelude
begin

text \<open>
  Byte-addressed memory as the serializer and the shared dataspaces see it: 64-bit addresses that
  wrap around, one byte per address, and the little-endian layout of the machine's integers.
\<close>

type_synonym mem = "u64 \<Rightarrow> u8"

primrec write_bytes :: "u64 \<Rightarrow> u8 list \<Rightarrow> mem \<Rightarrow> mem" where
  "write_bytes a [] m = m"
| "write_bytes a (b # bs) m = write_bytes (a + 1) bs (m(a := b))"

primrec read_bytes :: "u64 \<Rightarrow> nat \<Rightarrow> mem \<Rightarrow> u8 list" where
  "read_bytes a 0 m = []"
| "read_bytes a (Suc n) m = m a # read_bytes (a + 1) n m"

lemma length_read_bytes [simp]: "length (read_bytes a n m) = n"
  by (induction n arbitrary: a) auto

lemma read_bytes_append:
  "read_bytes a (i + j) m = read_bytes a i m @ read_bytes (a + of_nat i) j m"
  by (induction i arbitrary: a) (auto simp: algebra_simps)

lemma write_bytes_append:
  "write_bytes a (xs @ ys) m = write_bytes (a + of_nat (length xs)) ys (write_bytes a xs m)"
  by (induction xs arbitrary: a m) (auto simp: algebra_simps)

text \<open>Offsets from a base address: stepping the base by one steps a non-zero offset down by one.\<close>

lemma offset_Suc:
  assumes "(x::u64) \<noteq> a"
  shows "unat (x - a) = Suc (unat (x - (a + 1)))"
proof -
  have "x - a \<noteq> 0" using assms by simp
  then have "unat (x - a) \<noteq> 0" by (simp add: unat_eq_zero)
  moreover have "x - (a + 1) = (x - a) - 1" by simp
  ultimately show ?thesis
    by (metis Suc_pred' \<open>x - a \<noteq> 0\<close> neq0_conv unat_minus_one)
qed

lemma write_bytes_outside:
  "length bs \<le> unat (x - a) \<Longrightarrow> write_bytes a bs m x = m x"
proof (induction bs arbitrary: a m)
  case (Cons b bs)
  then have "x \<noteq> a" by auto
  with Cons.prems have "length bs \<le> unat (x - (a + 1))" by (simp add: offset_Suc)
  then have "write_bytes (a + 1) bs (m(a := b)) x = (m(a := b)) x" by (rule Cons.IH)
  with \<open>x \<noteq> a\<close> show ?case by simp
qed simp

lemma write_bytes_first:
  "length bs < 2 ^ 64 \<Longrightarrow> write_bytes (a + 1) bs m a = m a"
  by (rule write_bytes_outside) (simp add: unsigned_minus_1_eq_mask mask_nat_def)

lemma read_write_bytes:
  "length bs \<le> 2 ^ 64 \<Longrightarrow> read_bytes a (length bs) (write_bytes a bs m) = bs"
  by (induction bs arbitrary: a m) (auto simp: write_bytes_first)

lemma read_bytes_cong:
  "(\<And>i. i < n \<Longrightarrow> m (a + of_nat i) = m' (a + of_nat i)) \<Longrightarrow> read_bytes a n m = read_bytes a n m'"
proof (induction n arbitrary: a)
  case (Suc n)
  have "m (a + 1 + of_nat i) = m' (a + 1 + of_nat i)" if "i < n" for i
    using Suc.prems [of "Suc i"] that by (simp add: algebra_simps)
  then have "read_bytes (a + 1) n m = read_bytes (a + 1) n m'" by (rule Suc.IH)
  with Suc.prems [of 0] show ?case by simp
qed simp

section \<open>Little-endian numbers\<close>

primrec le_bytes :: "nat \<Rightarrow> nat \<Rightarrow> u8 list" where
  "le_bytes 0 x = []"
| "le_bytes (Suc n) x = word_of_nat x # le_bytes n (x div 256)"

primrec le_val :: "u8 list \<Rightarrow> nat" where
  "le_val [] = 0"
| "le_val (b # bs) = unat b + 256 * le_val bs"

lemma length_le_bytes [simp]: "length (le_bytes n x) = n"
  by (induction n arbitrary: x) auto

lemma le_val_le_bytes: "le_val (le_bytes n x) = x mod 256 ^ n"
proof (induction n arbitrary: x)
  case (Suc n)
  have "le_val (le_bytes (Suc n) x) = x mod 256 + 256 * (x div 256 mod 256 ^ n)"
    by (simp add: Suc.IH unat_of_nat)
  also have "\<dots> = x mod (256 * 256 ^ n)"
    by (metis add.commute mod_mult2_eq mult.commute)
  finally show ?case by simp
qed simp

definition size_bytes :: "u64 \<Rightarrow> u8 list" where
  "size_bytes n = le_bytes 8 (unat n)"

definition bytes_size :: "u8 list \<Rightarrow> u64" where
  "bytes_size bs = word_of_nat (le_val bs)"

definition int_bytes :: "int \<Rightarrow> u8 list" where
  "int_bytes i = le_bytes 4 (unat (word_of_int i :: u32))"

definition bytes_int :: "u8 list \<Rightarrow> int" where
  "bytes_int bs = sint (word_of_nat (le_val bs) :: u32)"

lemma length_size_bytes [simp]: "length (size_bytes n) = 8"
  by (simp add: size_bytes_def)

lemma length_int_bytes [simp]: "length (int_bytes i) = 4"
  by (simp add: int_bytes_def)

lemma bytes_size_size_bytes [simp]: "bytes_size (size_bytes n) = n"
proof -
  have "unat n < 256 ^ 8" using unsigned_less [of n] by simp
  then show ?thesis by (simp add: bytes_size_def size_bytes_def le_val_le_bytes)
qed

lemma bytes_int_int_bytes:
  assumes "int_min \<le> i" and "i \<le> int_max"
  shows "bytes_int (int_bytes i) = i"
proof -
  have "unat (word_of_int i :: u32) < 256 ^ 4"
    using unsigned_less [of "word_of_int i :: u32"] by simp
  then have "bytes_int (int_bytes i) = sint (word_of_int i :: u32)"
    by (simp add: bytes_int_def int_bytes_def le_val_le_bytes)
  also have "\<dots> = i"
    using assms by (simp add: int_min_def int_max_def signed_of_int signed_take_bit_int_eq_self)
  finally show ?thesis .
qed

text \<open>The bytes of a \<open>std::string\<close>.\<close>

definition char_byte :: "char \<Rightarrow> u8" where
  "char_byte c = word_of_nat (char_code c)"

definition byte_char :: "u8 \<Rightarrow> char" where
  "byte_char b = char_of (unat b)"

lemma byte_char_byte [simp]: "byte_char (char_byte c) = c"
proof -
  have "char_code c < 256" by (simp add: char_code_def)
  then show ?thesis by (simp add: byte_char_def char_byte_def unat_of_nat) (simp add: char_code_def)
qed

lemma map_byte_char_byte [simp]: "map byte_char (map char_byte s) = s"
  by (induction s) auto

end
