(* ===== verification/Serializer.thy ===== *)
theory Serializer
  imports Memory DbApi
begin

text \<open>
  \<open>server/include/serializer.h\<close> and \<open>server/lib/serializer/serializer.cc\<close>: the \<open>Serializer\<close> that
  writes values into a bounded buffer and the \<open>Deserializer\<close> that reads them back, over raw
  memory with 64-bit addresses. The locale \<open>codec\<close> is the contract of one serializable type; the
  overloads of \<open>operator<<\<close> and \<open>operator>>\<close> are its interpretations.
\<close>

section \<open>The serializer\<close>

record serializer =
  orig_buf :: u64
  buf :: u64
  end_buf :: u64
  smem :: mem

definition Serializer_new :: "mem \<Rightarrow> u64 \<Rightarrow> u64 \<Rightarrow> serializer" where
  "Serializer_new m b len = \<lparr>orig_buf = b, buf = b, end_buf = b + len, smem = m\<rparr>"

definition serialized_length :: "serializer \<Rightarrow> u64" where
  "serialized_length s = buf s - orig_buf s"

definition overflow_fault :: fault where
  "overflow_fault = RuntimeError ''Serializer overflowed''"

definition assert_remaining :: "u64 \<Rightarrow> (serializer, unit) op" where
  "assert_remaining n s =
     (if end_buf s - buf s < n then throwM overflow_fault s else retM () s)"

definition serialize :: "u8 list \<Rightarrow> (serializer, unit) op" where
  "serialize bytes =
     (let n = word_of_nat (length bytes)
      in thenM (assert_remaining n)
           (modifyM (\<lambda>s. s\<lparr>smem := write_bytes (buf s) bytes (smem s), buf := buf s + n\<rparr>)))"

definition ser_int :: "int \<Rightarrow> (serializer, unit) op" where
  "ser_int i = serialize (int_bytes i)"

definition ser_size :: "u64 \<Rightarrow> (serializer, unit) op" where
  "ser_size n = serialize (size_bytes n)"

definition ser_string :: "string \<Rightarrow> (serializer, unit) op" where
  "ser_string s = thenM (ser_size (word_of_nat (length s))) (serialize (map char_byte s))"

primrec ser_elems :: "('a \<Rightarrow> (serializer, unit) op) \<Rightarrow> 'a list \<Rightarrow> (serializer, unit) op" where
  "ser_elems ser [] = retM ()"
| "ser_elems ser (e # v) = thenM (ser e) (ser_elems ser v)"

definition ser_vector :: "('a \<Rightarrow> (serializer, unit) op) \<Rightarrow> 'a list \<Rightarrow> (serializer, unit) op" where
  "ser_vector ser v = thenM (ser_size (word_of_nat (length v))) (ser_elems ser v)"

definition ser_pair ::
  "('a \<Rightarrow> (serializer, unit) op) \<Rightarrow> ('b \<Rightarrow> (serializer, unit) op) \<Rightarrow> 'a \<times> 'b \<Rightarrow> (serializer, unit) op" where
  "ser_pair ser1 ser2 p = thenM (ser1 (fst p)) (ser2 (snd p))"

definition ser_table :: "table_desc \<Rightarrow> (serializer, unit) op" where
  "ser_table t = thenM (ser_string (table_name t)) (ser_vector ser_string (table_columns t))"

section \<open>The deserializer\<close>

record deserializer =
  dbuf :: u64
  dmem :: mem

definition Deserializer_new :: "mem \<Rightarrow> u64 \<Rightarrow> deserializer" where
  "Deserializer_new m b = \<lparr>dbuf = b, dmem = m\<rparr>"

text \<open>Copying \<open>n\<close> bytes out of the buffer and stepping over them.\<close>

definition take_bytes :: "nat \<Rightarrow> (deserializer, u8 list) op" where
  "take_bytes n d = (Inr (read_bytes (dbuf d) n (dmem d)), d\<lparr>dbuf := dbuf d + word_of_nat n\<rparr>)"

definition de_int :: "(deserializer, int) op" where
  "de_int = bindM (take_bytes 4) (\<lambda>bs. retM (bytes_int bs))"

definition de_size :: "(deserializer, u64) op" where
  "de_size = bindM (take_bytes 8) (\<lambda>bs. retM (bytes_size bs))"

definition de_string :: "(deserializer, string) op" where
  "de_string =
     bindM de_size (\<lambda>size. bindM (take_bytes (unat size)) (\<lambda>bs. retM (map byte_char bs)))"

text \<open>The loop \<open>for (i = 0; i < size; i++)\<close>, with the number of rounds left.\<close>

primrec de_elems :: "(deserializer, 'a) op \<Rightarrow> nat \<Rightarrow> (deserializer, 'a list) op" where
  "de_elems de 0 = retM []"
| "de_elems de (Suc k) = bindM de (\<lambda>e. bindM (de_elems de k) (\<lambda>v. retM (e # v)))"

definition de_vector :: "(deserializer, 'a) op \<Rightarrow> (deserializer, 'a list) op" where
  "de_vector de = bindM de_size (\<lambda>size. de_elems de (unat size))"

definition de_pair ::
  "(deserializer, 'a) op \<Rightarrow> (deserializer, 'b) op \<Rightarrow> (deserializer, 'a \<times> 'b) op" where
  "de_pair de1 de2 = bindM de1 (\<lambda>x. bindM de2 (\<lambda>y. retM (x, y)))"

definition de_table :: "(deserializer, table_desc) op" where
  "de_table = bindM de_string (\<lambda>name. bindM (de_vector de_string) (\<lambda>cols. retM (Table name cols)))"

section \<open>Room, window and the effect of a successful write\<close>

definition room :: "serializer \<Rightarrow> nat" where
  "room s = unat (end_buf s - buf s)"

definition put :: "u8 list \<Rightarrow> serializer \<Rightarrow> serializer" where
  "put bs s = s\<lparr>smem := write_bytes (buf s) bs (smem s), buf := buf s + word_of_nat (length bs)\<rparr>"

text \<open>
  \<open>t\<close> is a later state of the serializer \<open>s\<close>: it consumed at most the room of \<open>s\<close>, and memory
  changed only inside the window \<open>[buf s, end)\<close>.
\<close>

definition advanced :: "serializer \<Rightarrow> serializer \<Rightarrow> bool" where
  "advanced s t \<longleftrightarrow>
     orig_buf t = orig_buf s \<and> end_buf t = end_buf s \<and>
     (\<exists>k \<le> room s. buf t = buf s + word_of_nat k \<and> room t = room s - k) \<and>
     (\<forall>a. room s \<le> unat (a - buf s) \<longrightarrow> smem t a = smem s a)"

lemma room_less: "room s < 2 ^ 64"
  using unsigned_less [of "end_buf s - buf s"] by (simp add: room_def)

lemma unat_diff_of_nat:
  assumes "k \<le> unat (w :: u64)"
  shows "unat (w - word_of_nat k) = unat w - k"
proof -
  have k: "unat (word_of_nat k :: u64) = k"
    using assms unsigned_less [of w, where 'a = nat] by (simp add: unat_of_nat)
  with assms have "word_of_nat k \<le> w" by (simp add: word_le_nat_alt)
  with k show ?thesis by (simp add: unat_sub)
qed

lemma put_simps [simp]:
  "orig_buf (put bs s) = orig_buf s"
  "end_buf (put bs s) = end_buf s"
  "buf (put bs s) = buf s + word_of_nat (length bs)"
  "smem (put bs s) = write_bytes (buf s) bs (smem s)"
  by (simp_all add: put_def)

lemma put_Nil [simp]: "put [] s = s"
  by (simp add: put_def)

lemma put_append: "put (xs @ ys) s = put ys (put xs s)"
  by (simp add: put_def write_bytes_append algebra_simps)

lemma room_put [simp]: "length bs \<le> room s \<Longrightarrow> room (put bs s) = room s - length bs"
  by (simp add: room_def unat_diff_of_nat diff_diff_eq [symmetric])

lemma advanced_refl [simp]: "advanced s s"
  by (auto simp: advanced_def intro: exI [of _ 0])

lemma advanced_trans:
  assumes st: "advanced s t" and tu: "advanced t u"
  shows "advanced s u"
proof -
  from st obtain k where k: "k \<le> room s" "buf t = buf s + word_of_nat k" "room t = room s - k"
    by (auto simp: advanced_def)
  from tu obtain l where l: "l \<le> room t" "buf u = buf t + word_of_nat l" "room u = room t - l"
    by (auto simp: advanced_def)
  have "smem u a = smem s a" if a: "room s \<le> unat (a - buf s)" for a
  proof -
    have "a - buf t = (a - buf s) - word_of_nat k" by (simp add: k(2))
    then have "unat (a - buf t) = unat (a - buf s) - k"
      using k(1) a by (metis unat_diff_of_nat order_trans)
    then have "room t \<le> unat (a - buf t)" using a k by simp
    with tu have "smem u a = smem t a" by (simp add: advanced_def)
    with st a show ?thesis by (simp add: advanced_def)
  qed
  moreover have "k + l \<le> room s" using k l by simp
  moreover have "buf u = buf s + word_of_nat (k + l)" using k l by simp
  moreover have "room u = room s - (k + l)" using k l by simp
  ultimately show ?thesis using st tu unfolding advanced_def by auto
qed

lemma advanced_put: "length bs \<le> room s \<Longrightarrow> advanced s (put bs s)"
  by (auto simp: advanced_def write_bytes_outside intro!: exI [of _ "length bs"])

section \<open>The primitive write\<close>

lemma serialize_fits:
  assumes "length bs \<le> room s"
  shows "serialize bs s = (Inr (), put bs s)"
proof -
  have "length bs < 2 ^ 64" using assms room_less [of s] by simp
  then have "unat (word_of_nat (length bs) :: u64) = length bs" by (simp add: unat_of_nat)
  then have "\<not> end_buf s - buf s < word_of_nat (length bs)"
    using assms by (simp add: word_less_nat_alt room_def)
  then show ?thesis
    by (simp add: serialize_def Let_def thenM_def bindM_def assert_remaining_def put_def op_simps)
qed

lemma serialize_full:
  assumes "room s < length bs" and "length bs < 2 ^ 64"
  shows "serialize bs s = (Inl overflow_fault, s)"
proof -
  have "unat (word_of_nat (length bs) :: u64) = length bs" using assms(2) by (simp add: unat_of_nat)
  then have "end_buf s - buf s < word_of_nat (length bs)"
    using assms(1) by (simp add: word_less_nat_alt room_def)
  then show ?thesis
    by (simp add: serialize_def Let_def thenM_def bindM_def assert_remaining_def op_simps)
qed

lemma serialize_advanced:
  assumes "serialize bs s = (r, t)" and "length bs < 2 ^ 64"
  shows "advanced s t"
proof (cases "length bs \<le> room s")
  case True
  with assms show ?thesis by (simp add: serialize_fits advanced_put) (metis advanced_put)
next
  case False
  with assms show ?thesis by (simp add: serialize_full)
qed

section \<open>Writing and reading a byte image\<close>

text \<open>
  \<open>writes m bs\<close>: the serializer operation \<open>m\<close> appends exactly the bytes \<open>bs\<close> when they fit, throws
  when they do not, and in no case touches memory outside the remaining window.
  \<open>reads m bs x\<close>: where memory holds the bytes \<open>bs\<close>, the deserializer operation \<open>m\<close> returns \<open>x\<close>
  and steps over them.
\<close>

definition writes :: "(serializer, unit) op \<Rightarrow> u8 list \<Rightarrow> bool" where
  "writes m bs \<longleftrightarrow>
     (\<forall>s. (length bs \<le> room s \<longrightarrow> m s = (Inr (), put bs s)) \<and>
          (room s < length bs \<longrightarrow> fst (m s) = Inl overflow_fault) \<and>
          advanced s (snd (m s)))"

definition reads :: "(deserializer, 'a) op \<Rightarrow> u8 list \<Rightarrow> 'a \<Rightarrow> bool" where
  "reads m bs x \<longleftrightarrow>
     (\<forall>d. read_bytes (dbuf d) (length bs) (dmem d) = bs \<longrightarrow>
        m d = (Inr x, d\<lparr>dbuf := dbuf d + word_of_nat (length bs)\<rparr>))"

lemma writes_fits: "writes m bs \<Longrightarrow> length bs \<le> room s \<Longrightarrow> m s = (Inr (), put bs s)"
  by (simp add: writes_def)

lemma writes_full: "writes m bs \<Longrightarrow> room s < length bs \<Longrightarrow> fst (m s) = Inl overflow_fault"
  by (simp add: writes_def)

lemma writes_advanced: "writes m bs \<Longrightarrow> advanced s (snd (m s))"
  by (simp add: writes_def)

lemma writes_retM: "writes (retM ()) []"
  by (simp add: writes_def retM_def)

lemma writes_serialize: "length bs < 2 ^ 64 \<Longrightarrow> writes (serialize bs) bs"
  by (auto simp: writes_def serialize_fits serialize_full
      intro: serialize_advanced [OF surjective_pairing])

lemma writes_thenM:
  assumes m: "writes m xs" and n: "writes n ys"
  shows "writes (thenM m n) (xs @ ys)"
  unfolding writes_def
proof
  fix s
  show "(length (xs @ ys) \<le> room s \<longrightarrow> thenM m n s = (Inr (), put (xs @ ys) s)) \<and>
      (room s < length (xs @ ys) \<longrightarrow> fst (thenM m n s) = Inl overflow_fault) \<and>
      advanced s (snd (thenM m n s))"
  proof (cases "length xs \<le> room s")
    case True
    then have run: "thenM m n s = n (put xs s)"
      by (simp add: op_simps writes_fits [OF m])
    have "advanced s (snd (n (put xs s)))"
      using advanced_put [OF True] writes_advanced [OF n] by (rule advanced_trans)
    with True show ?thesis
      by (auto simp: run put_append writes_fits [OF n] intro!: writes_full [OF n])
  next
    case False
    then have "fst (m s) = Inl overflow_fault" by (simp add: writes_full [OF m])
    then have "thenM m n s = (Inl overflow_fault, snd (m s))"
      by (intro thenM_Inl) (simp add: prod_eq_iff)
    with False show ?thesis by (simp add: writes_advanced [OF m])
  qed
qed

lemma reads_run:
  "reads m bs x \<Longrightarrow> read_bytes (dbuf d) (length bs) (dmem d) = bs \<Longrightarrow>
     m d = (Inr x, d\<lparr>dbuf := dbuf d + word_of_nat (length bs)\<rparr>)"
  by (simp add: reads_def)

lemma reads_retM: "reads (retM x) [] x"
  by (simp add: reads_def retM_def)

lemma reads_take_bytes: "n = length bs \<Longrightarrow> reads (take_bytes n) bs bs"
  by (simp add: reads_def take_bytes_def)

lemma reads_bindM:
  assumes m: "reads m xs x" and f: "reads (f x) ys y"
  shows "reads (bindM m f) (xs @ ys) y"
  unfolding reads_def
proof (intro allI impI)
  fix d :: deserializer
  assume d: "read_bytes (dbuf d) (length (xs @ ys)) (dmem d) = xs @ ys"
  let ?d = "d\<lparr>dbuf := dbuf d + word_of_nat (length xs)\<rparr>"
  from d have "m d = (Inr x, ?d)" by (intro reads_run [OF m]) (simp add: read_bytes_append)
  then have "bindM m f d = f x ?d" by (rule bindM_Inr)
  also have "\<dots> = (Inr y, ?d\<lparr>dbuf := dbuf ?d + word_of_nat (length ys)\<rparr>)"
    using d by (intro reads_run [where m = "f x", OF f]) (simp add: read_bytes_append)
  finally show "bindM m f d = (Inr y, d\<lparr>dbuf := dbuf d + word_of_nat (length (xs @ ys))\<rparr>)"
    by (simp add: algebra_simps)
qed

lemma reads_bindM_ret: "reads m xs x \<Longrightarrow> reads (bindM m (\<lambda>x. retM (f x))) xs (f x)"
  using reads_bindM [of m xs x "\<lambda>x. retM (f x)" "[]" "f x"] by (simp add: reads_retM)

section \<open>The contract of a serializable type\<close>

text \<open>
  What the overloads of one type promise, with \<open>enc x\<close> the byte image of \<open>x\<close>. \<open>ok\<close> bounds the
  values: an \<open>int\<close> fits 32 bits, a length fits \<open>size_t\<close>.
\<close>

locale codec =
  fixes ser :: "'a \<Rightarrow> (serializer, unit) op"
    and de :: "(deserializer, 'a) op"
    and enc :: "'a \<Rightarrow> u8 list"
    and ok :: "'a \<Rightarrow> bool"
  assumes ser_writes: "ok x \<Longrightarrow> writes (ser x) (enc x)"
    and de_reads: "ok x \<Longrightarrow> reads de (enc x) x"
begin

text \<open>A value written into a fresh buffer that has room for it is read back unchanged.\<close>

lemma roundtrip:
  assumes "ok x" and "length (enc x) \<le> unat len"
  shows "\<exists>t. ser x (Serializer_new m b len) = (Inr (), t) \<and>
     serialized_length t = word_of_nat (length (enc x)) \<and>
     fst (de (Deserializer_new (smem t) b)) = Inr x"
proof -
  let ?s = "Serializer_new m b len" and ?n = "length (enc x)"
  have r: "room ?s = unat len" by (simp add: room_def Serializer_new_def)
  have n: "?n \<le> 2 ^ 64" using assms(2) room_less [of ?s] by (simp add: r)
  let ?t = "put (enc x) ?s" and ?d = "Deserializer_new (smem (put (enc x) ?s)) b"
  have "ser x ?s = (Inr (), ?t)"
    using assms r by (simp add: writes_fits [OF ser_writes])
  moreover have "serialized_length ?t = word_of_nat ?n"
    by (simp add: serialized_length_def Serializer_new_def)
  moreover have "read_bytes (dbuf ?d) ?n (dmem ?d) = enc x"
    using n by (simp add: Deserializer_new_def Serializer_new_def read_write_bytes)
  then have "fst (de ?d) = Inr x"
    using reads_run [OF de_reads [OF assms(1)]] by simp
  ultimately show ?thesis by blast
qed

text \<open>A value that does not fit is refused, and memory outside the buffer is never written.\<close>

lemma refused:
  assumes "ok x" and "unat len < length (enc x)"
  shows "fst (ser x (Serializer_new m b len)) = Inl overflow_fault"
proof -
  have "room (Serializer_new m b len) < length (enc x)"
    using assms(2) by (simp add: room_def Serializer_new_def)
  from writes_full [OF ser_writes [OF assms(1)] this] show ?thesis .
qed

lemma in_bounds:
  assumes "ok x" and "unat len \<le> unat (a - b)"
  shows "smem (snd (ser x (Serializer_new m b len))) a = m a"
  using writes_advanced [OF ser_writes [OF assms(1)], of "Serializer_new m b len"] assms(2)
  by (simp add: advanced_def room_def Serializer_new_def)

end

section \<open>The overloads satisfy it\<close>

definition int_ok :: "int \<Rightarrow> bool" where
  "int_ok i \<longleftrightarrow> int_min \<le> i \<and> i \<le> int_max"

definition enc_string :: "string \<Rightarrow> u8 list" where
  "enc_string s = size_bytes (word_of_nat (length s)) @ map char_byte s"

definition string_ok :: "string \<Rightarrow> bool" where
  "string_ok s \<longleftrightarrow> length s < 2 ^ 64"

definition enc_vector :: "('a \<Rightarrow> u8 list) \<Rightarrow> 'a list \<Rightarrow> u8 list" where
  "enc_vector enc v = size_bytes (word_of_nat (length v)) @ concat (map enc v)"

definition vector_ok :: "('a \<Rightarrow> bool) \<Rightarrow> 'a list \<Rightarrow> bool" where
  "vector_ok ok v \<longleftrightarrow> length v < 2 ^ 64 \<and> list_all ok v"

definition enc_pair :: "('a \<Rightarrow> u8 list) \<Rightarrow> ('b \<Rightarrow> u8 list) \<Rightarrow> 'a \<times> 'b \<Rightarrow> u8 list" where
  "enc_pair enc1 enc2 p = enc1 (fst p) @ enc2 (snd p)"

definition pair_ok :: "('a \<Rightarrow> bool) \<Rightarrow> ('b \<Rightarrow> bool) \<Rightarrow> 'a \<times> 'b \<Rightarrow> bool" where
  "pair_ok ok1 ok2 p \<longleftrightarrow> ok1 (fst p) \<and> ok2 (snd p)"

definition enc_table :: "table_desc \<Rightarrow> u8 list" where
  "enc_table t = enc_string (table_name t) @ enc_vector enc_string (table_columns t)"

definition table_ok :: "table_desc \<Rightarrow> bool" where
  "table_ok t \<longleftrightarrow> string_ok (table_name t) \<and> vector_ok string_ok (table_columns t)"

lemma writes_size: "writes (ser_size n) (size_bytes n)"
  by (simp add: ser_size_def writes_serialize)

lemma reads_size: "reads de_size (size_bytes n) n"
  using reads_bindM_ret [OF reads_take_bytes, of 8 "size_bytes n" bytes_size]
  by (simp add: de_size_def)

lemma codec_size: "codec ser_size de_size size_bytes (\<lambda>_. True)"
  by unfold_locales (rule writes_size, rule reads_size)

lemma codec_int: "codec ser_int de_int int_bytes int_ok"
proof
  fix x assume x: "int_ok x"
  show "writes (ser_int x) (int_bytes x)" by (simp add: ser_int_def writes_serialize)
  show "reads de_int (int_bytes x) x"
    using reads_bindM_ret [OF reads_take_bytes, of 4 "int_bytes x" bytes_int] x
    by (simp add: de_int_def int_ok_def bytes_int_int_bytes)
qed

lemma codec_string: "codec ser_string de_string enc_string string_ok"
proof
  fix x assume x: "string_ok x"
  then have u: "unat (word_of_nat (length x) :: u64) = length x"
    by (simp add: string_ok_def unat_of_nat)
  show "writes (ser_string x) (enc_string x)"
    using x unfolding ser_string_def enc_string_def
    by (intro writes_thenM writes_size writes_serialize) (simp add: string_ok_def)
  have "reads (bindM (take_bytes (length x)) (\<lambda>bs. retM (map byte_char bs))) (map char_byte x) x"
    using reads_bindM_ret [OF reads_take_bytes, of "length x" "map char_byte x" "map byte_char"]
    by (simp only: map_byte_char_byte length_map)
  then show "reads de_string (enc_string x) x"
    unfolding de_string_def enc_string_def by (intro reads_bindM [OF reads_size]) (simp add: u)
qed

lemma codec_pair:
  assumes "codec ser1 de1 enc1 ok1" and "codec ser2 de2 enc2 ok2"
  shows "codec (ser_pair ser1 ser2) (de_pair de1 de2) (enc_pair enc1 enc2) (pair_ok ok1 ok2)"
proof
  fix x assume x: "pair_ok ok1 ok2 x"
  show "writes (ser_pair ser1 ser2 x) (enc_pair enc1 enc2 x)"
    using x codec.ser_writes [OF assms(1)] codec.ser_writes [OF assms(2)]
    unfolding ser_pair_def enc_pair_def by (intro writes_thenM) (simp_all add: pair_ok_def)
  show "reads (de_pair de1 de2) (enc_pair enc1 enc2 x) x"
    using x codec.de_reads [OF assms(1)] codec.de_reads [OF assms(2)]
      reads_bindM_ret [of de2 "enc2 (snd x)" "snd x" "Pair (fst x)"]
    unfolding de_pair_def enc_pair_def by (intro reads_bindM [of de1]) (simp_all add: pair_ok_def)
qed

lemma writes_elems:
  assumes "codec ser de enc ok" and "list_all ok v"
  shows "writes (ser_elems ser v) (concat (map enc v))"
  using assms(2) by (induction v)
    (auto simp: writes_retM intro: writes_thenM codec.ser_writes [OF assms(1)])

lemma reads_elems:
  assumes "codec ser de enc ok" and "list_all ok v"
  shows "reads (de_elems de (length v)) (concat (map enc v)) v"
  using assms(2)
proof (induction v)
  case Nil
  show ?case by (simp add: reads_retM)
next
  case (Cons e v)
  then have "reads (de_elems de (length v)) (concat (map enc v)) v" by simp
  from reads_bindM_ret [OF this, of "(#) e"] Cons.prems show ?case
    by (auto intro: reads_bindM codec.de_reads [OF assms(1)])
qed

lemma codec_vector:
  assumes c: "codec ser de enc ok"
  shows "codec (ser_vector ser) (de_vector de) (enc_vector enc) (vector_ok ok)"
proof
  fix v assume v: "vector_ok ok v"
  then have u: "unat (word_of_nat (length v) :: u64) = length v"
    by (simp add: vector_ok_def unat_of_nat)
  from v have ok: "list_all ok v" by (simp add: vector_ok_def)
  show "writes (ser_vector ser v) (enc_vector enc v)"
    unfolding ser_vector_def enc_vector_def
    by (intro writes_thenM writes_size writes_elems [OF c ok])
  show "reads (de_vector de) (enc_vector enc v) v"
    unfolding de_vector_def enc_vector_def
    by (intro reads_bindM [OF reads_size]) (simp add: u reads_elems [OF c ok])
qed

lemma codec_table: "codec ser_table de_table enc_table table_ok"
proof
  fix t assume t: "table_ok t"
  have strings: "codec (ser_vector ser_string) (de_vector de_string) (enc_vector enc_string)
    (vector_ok string_ok)" by (rule codec_vector [OF codec_string])
  show "writes (ser_table t) (enc_table t)"
    using t unfolding ser_table_def enc_table_def
    by (intro writes_thenM codec.ser_writes [OF codec_string] codec.ser_writes [OF strings])
      (simp_all add: table_ok_def)
  have "reads (bindM (de_vector de_string) (\<lambda>cols. retM (Table (table_name t) cols)))
      (enc_vector enc_string (table_columns t)) (Table (table_name t) (table_columns t))"
    using t by (intro reads_bindM_ret codec.de_reads [OF strings]) (simp add: table_ok_def)
  then show "reads de_table (enc_table t) t"
    using t unfolding de_table_def enc_table_def
    by (intro reads_bindM [OF codec.de_reads [OF codec_string]]) (simp_all add: table_ok_def)
qed

text \<open>The types that travel between the benchmark and the database servers.\<close>

definition ser_kvs :: "fieldvals \<Rightarrow> (serializer, unit) op" where
  "ser_kvs = ser_vector (ser_pair ser_string ser_string)"

definition de_kvs :: "(deserializer, fieldvals) op" where
  "de_kvs = de_vector (de_pair de_string de_string)"

definition enc_kvs :: "fieldvals \<Rightarrow> u8 list" where
  "enc_kvs = enc_vector (enc_pair enc_string enc_string)"

definition kvs_ok :: "fieldvals \<Rightarrow> bool" where
  "kvs_ok = vector_ok (pair_ok string_ok string_ok)"

lemma codec_kvs: "codec ser_kvs de_kvs enc_kvs kvs_ok"
  unfolding ser_kvs_def de_kvs_def enc_kvs_def kvs_ok_def
  by (intro codec_vector codec_pair codec_string)

interpretation size_codec: codec ser_size de_size size_bytes "\<lambda>_. True"
  by (rule codec_size)

interpretation int_codec: codec ser_int de_int int_bytes int_ok
  by (rule codec_int)

interpretation string_codec: codec ser_string de_string enc_string string_ok
  by (rule codec_string)

interpretation strings_codec: codec "ser_vector ser_string" "de_vector de_string"
    "enc_vector enc_string" "vector_ok string_ok"
  by (intro codec_vector codec_string)

interpretation kvs_codec: codec ser_kvs de_kvs enc_kvs kvs_ok
  by (rule codec_kvs)

interpretation rows_codec: codec "ser_vector ser_kvs" "de_vector de_kvs"
    "enc_vector enc_kvs" "vector_ok kvs_ok"
  by (intro codec_vector codec_kvs)

interpretation tables_codec: codec "ser_vector ser_table" "de_vector de_table"
    "enc_vector enc_table" "vector_ok table_ok"
  by (intro codec_vector codec_table)

section \<open>What the serializer promises\<close>

lemmas enc_defs = enc_vector_def enc_kvs_def enc_pair_def enc_string_def enc_table_def

lemmas codec_ok_defs = vector_ok_def kvs_ok_def pair_ok_def string_ok_def table_ok_def int_ok_def

text \<open>
  C6: What is serialized comes back. The rows of a scan and the table descriptions of a schema that
  fit into the buffer are written without a fault, \<open>serialized_length\<close> is the number of bytes
  written, and a deserializer on the same memory returns the same value, wherever the buffer lies.
\<close>

theorem serializer_roundtrip:
  assumes "vector_ok kvs_ok rows" and "length (enc_vector enc_kvs rows) \<le> unat len"
    and "vector_ok table_ok tables" and "length (enc_vector enc_table tables) \<le> unat len"
  shows "(\<exists>t. ser_vector ser_kvs rows (Serializer_new m b len) = (Inr (), t) \<and>
      serialized_length t = word_of_nat (length (enc_vector enc_kvs rows)) \<and>
      fst (de_vector de_kvs (Deserializer_new (smem t) b)) = Inr rows) \<and>
    (\<exists>t. ser_vector ser_table tables (Serializer_new m b len) = (Inr (), t) \<and>
      serialized_length t = word_of_nat (length (enc_vector enc_table tables)) \<and>
      fst (de_vector de_table (Deserializer_new (smem t) b)) = Inr tables)"
  using rows_codec.roundtrip [OF assms(1,2)] tables_codec.roundtrip [OF assms(3,4)] by blast

theorem serializer_roundtrip_witness:
  "(\<exists>t. ser_vector ser_kvs [[(''f'', ''v'')], []] (Serializer_new (\<lambda>_. 0) (- 3) 100) = (Inr (), t) \<and>
      serialized_length t = word_of_nat (length (enc_vector enc_kvs [[(''f'', ''v'')], []])) \<and>
      fst (de_vector de_kvs (Deserializer_new (smem t) (- 3))) = Inr [[(''f'', ''v'')], []]) \<and>
    (\<exists>t. ser_vector ser_table [Table ''t'' [''f'']] (Serializer_new (\<lambda>_. 0) (- 3) 100) = (Inr (), t) \<and>
      serialized_length t = word_of_nat (length (enc_vector enc_table [Table ''t'' [''f'']])) \<and>
      fst (de_vector de_table (Deserializer_new (smem t) (- 3))) = Inr [Table ''t'' [''f'']])"
  by (rule serializer_roundtrip) (simp_all add: codec_ok_defs enc_defs)

text \<open>
  C27: The serializer never writes outside its buffer. Whatever the rows and wherever the buffer lies,
  also across the end of the address space, every byte outside the \<open>len\<close> bytes from \<open>b\<close> keeps its
  value, and rows whose image is longer than the buffer end in the overflow exception.
\<close>

theorem serializer_stays_inside:
  assumes "vector_ok kvs_ok rows"
  shows "(\<forall>a. unat len \<le> unat (a - b) \<longrightarrow>
      smem (snd (ser_vector ser_kvs rows (Serializer_new m b len))) a = m a) \<and>
    (unat len < length (enc_vector enc_kvs rows) \<longrightarrow>
      fst (ser_vector ser_kvs rows (Serializer_new m b len)) = Inl overflow_fault)"
  using rows_codec.in_bounds [OF assms] rows_codec.refused [OF assms] by blast

theorem serializer_stays_inside_witness:
  "fst (ser_vector ser_kvs [[(''f'', ''v'')]] (Serializer_new (\<lambda>_. 0) (- 3) 10)) = Inl overflow_fault"
  using serializer_stays_inside [of "[[(''f'', ''v'')]]" 10 "- 3" "\<lambda>_. 0"]
  by (simp add: codec_ok_defs enc_defs)

end
