(* ===== verification/Requests.thy ===== *)
theory Requests
  imports Serializer
begin

text \<open>
  The messages between the benchmark and the two database servers. The clients
  (\<open>sqlite_ipc_db.cc\<close>, \<open>sqlite_shm_db.cc\<close>) serialize them and the servers (\<open>ipc.cc\<close>, \<open>shm.cc\<close>)
  deserialize them, in the same order of fields. A dataspace is memory whose addresses are offsets
  from its start; both sides map it whole, so the base address they see cancels out.
\<close>

text \<open>\<open>YCSBC_DS_SIZE\<close> of \<open>server/include/utils.h\<close>: one mebibyte.\<close>

definition YCSBC_DS_SIZE :: u64 where
  "YCSBC_DS_SIZE = push_bit 20 1"

lemma YCSBC_DS_SIZE_value [simp]: "unat YCSBC_DS_SIZE = 1048576"
  by (simp add: YCSBC_DS_SIZE_def)

text \<open>The L4 status codes the servers answer with, and the status a client derives from a result.\<close>

definition L4_EOK :: int where
  "L4_EOK = 0"

definition L4_EINVAL :: int where
  "L4_EINVAL = 22"

definition L4_EACCESS :: int where
  "L4_EACCESS = 13"

definition status_of_result :: "'a list \<Rightarrow> int" where
  "status_of_result result = (if length result = 0 then kErrorNoData else kOK)"

section \<open>Serializing into and out of a dataspace\<close>

definition ser_run :: "u64 \<Rightarrow> u64 \<Rightarrow> (serializer, unit) op \<Rightarrow> (mem, unit) op" where
  "ser_run base len m ds =
     (case m (Serializer_new ds base len) of (r, s) \<Rightarrow> (r, smem s))"

definition de_run :: "u64 \<Rightarrow> (deserializer, 'a) op \<Rightarrow> (mem, 'a) op" where
  "de_run base m ds = (case m (Deserializer_new ds base) of (r, _) \<Rightarrow> (r, ds))"

text \<open>\<open>memset(addr, 0, YCSBC_DS_SIZE)\<close>.\<close>

definition clear_ds :: "mem \<Rightarrow> mem" where
  "clear_ds ds = (\<lambda>a. if a < YCSBC_DS_SIZE then 0 else ds a)"

lemma ser_run_fits:
  assumes "writes m bs" and "length bs \<le> unat len"
  shows "ser_run base len m ds = (Inr (), write_bytes base bs ds)"
proof -
  have "room (Serializer_new ds base len) = unat len" by (simp add: room_def Serializer_new_def)
  with writes_fits [OF assms(1)] assms(2) show ?thesis
    by (simp add: ser_run_def put_def Serializer_new_def)
qed

lemma ser_run_full:
  assumes "writes m bs" and "unat len < length bs"
  shows "fst (ser_run base len m ds) = Inl overflow_fault"
proof -
  have "room (Serializer_new ds base len) = unat len" by (simp add: room_def Serializer_new_def)
  with writes_full [OF assms(1)] assms(2) show ?thesis
    by (simp add: ser_run_def split: prod.split) (metis fst_conv)
qed

lemma ser_run_outside:
  assumes "writes m bs" and "unat len \<le> unat (a - base)"
  shows "snd (ser_run base len m ds) a = ds a"
proof -
  have "room (Serializer_new ds base len) = unat len" by (simp add: room_def Serializer_new_def)
  with writes_advanced [OF assms(1), of "Serializer_new ds base len"] assms(2) show ?thesis
    by (auto simp: ser_run_def advanced_def Serializer_new_def split: prod.split)
qed

lemma de_run_image:
  assumes "reads m bs x" and "read_bytes base (length bs) ds = bs"
  shows "de_run base m ds = (Inr x, ds)"
  using reads_run [OF assms(1), of "Deserializer_new ds base"] assms(2)
  by (simp add: de_run_def Deserializer_new_def)

text \<open>Reading back what was just written.\<close>

lemma de_run_after_write:
  assumes "reads m bs x" and "length bs \<le> 2 ^ 64"
  shows "de_run base m (write_bytes base bs ds) = (Inr x, write_bytes base bs ds)"
  using assms(1) by (rule de_run_image) (rule read_write_bytes [OF assms(2)])

section \<open>The four request layouts\<close>

text \<open>A null field pointer is sent as the empty vector.\<close>

definition sent_fields :: "string list option \<Rightarrow> string list" where
  "sent_fields flds = (case flds of None \<Rightarrow> [] | Some fs \<Rightarrow> fs)"

definition ser_read_req :: "string \<Rightarrow> string \<Rightarrow> string list \<Rightarrow> (serializer, unit) op" where
  "ser_read_req table key fs =
     thenM (ser_string table) (thenM (ser_string key) (ser_vector ser_string fs))"

definition de_read_req :: "(deserializer, string \<times> string \<times> string list) op" where
  "de_read_req =
     bindM de_string (\<lambda>table. bindM de_string (\<lambda>key. bindM (de_vector de_string) (\<lambda>fs.
       retM (table, key, fs))))"

definition ser_scan_req :: "string \<Rightarrow> string \<Rightarrow> int \<Rightarrow> string list \<Rightarrow> (serializer, unit) op" where
  "ser_scan_req table key len fs =
     thenM (ser_string table) (thenM (ser_string key) (thenM (ser_int len) (ser_vector ser_string fs)))"

definition de_scan_req :: "(deserializer, string \<times> string \<times> int \<times> string list) op" where
  "de_scan_req =
     bindM de_string (\<lambda>table. bindM de_string (\<lambda>key. bindM de_int (\<lambda>len.
       bindM (de_vector de_string) (\<lambda>fs. retM (table, key, len, fs)))))"

definition ser_values_req :: "string \<Rightarrow> string \<Rightarrow> fieldvals \<Rightarrow> (serializer, unit) op" where
  "ser_values_req table key values =
     thenM (ser_string table) (thenM (ser_string key) (ser_kvs values))"

definition de_values_req :: "(deserializer, string \<times> string \<times> fieldvals) op" where
  "de_values_req =
     bindM de_string (\<lambda>table. bindM de_string (\<lambda>key. bindM de_kvs (\<lambda>values.
       retM (table, key, values))))"

definition ser_key_req :: "string \<Rightarrow> string \<Rightarrow> (serializer, unit) op" where
  "ser_key_req table key = thenM (ser_string table) (ser_string key)"

definition de_key_req :: "(deserializer, string \<times> string) op" where
  "de_key_req = bindM de_string (\<lambda>table. bindM de_string (\<lambda>key. retM (table, key)))"

definition ser_schema_req :: "string \<Rightarrow> table_desc list \<Rightarrow> (serializer, unit) op" where
  "ser_schema_req filename tables = thenM (ser_string filename) (ser_vector ser_table tables)"

definition de_schema_req :: "(deserializer, string \<times> table_desc list) op" where
  "de_schema_req =
     bindM de_string (\<lambda>fname. bindM (de_vector de_table) (\<lambda>tables. retM (fname, tables)))"

text \<open>Their byte images.\<close>

definition enc_read_req :: "string \<Rightarrow> string \<Rightarrow> string list \<Rightarrow> u8 list" where
  "enc_read_req table key fs = enc_string table @ enc_string key @ enc_vector enc_string fs"

definition enc_scan_req :: "string \<Rightarrow> string \<Rightarrow> int \<Rightarrow> string list \<Rightarrow> u8 list" where
  "enc_scan_req table key len fs =
     enc_string table @ enc_string key @ int_bytes len @ enc_vector enc_string fs"

definition enc_values_req :: "string \<Rightarrow> string \<Rightarrow> fieldvals \<Rightarrow> u8 list" where
  "enc_values_req table key values = enc_string table @ enc_string key @ enc_kvs values"

definition enc_key_req :: "string \<Rightarrow> string \<Rightarrow> u8 list" where
  "enc_key_req table key = enc_string table @ enc_string key"

definition enc_schema_req :: "string \<Rightarrow> table_desc list \<Rightarrow> u8 list" where
  "enc_schema_req filename tables = enc_string filename @ enc_vector enc_table tables"

text \<open>
  Values that a running program can hold: lengths below \<open>2^64\<close> and an \<open>int\<close> of 32 bits.
\<close>

definition read_req_ok :: "string \<Rightarrow> string \<Rightarrow> string list \<Rightarrow> bool" where
  "read_req_ok table key fs \<longleftrightarrow> string_ok table \<and> string_ok key \<and> vector_ok string_ok fs"

definition scan_req_ok :: "string \<Rightarrow> string \<Rightarrow> int \<Rightarrow> string list \<Rightarrow> bool" where
  "scan_req_ok table key len fs \<longleftrightarrow> read_req_ok table key fs \<and> int_ok len"

definition values_req_ok :: "string \<Rightarrow> string \<Rightarrow> fieldvals \<Rightarrow> bool" where
  "values_req_ok table key values \<longleftrightarrow> string_ok table \<and> string_ok key \<and> kvs_ok values"

definition key_req_ok :: "string \<Rightarrow> string \<Rightarrow> bool" where
  "key_req_ok table key \<longleftrightarrow> string_ok table \<and> string_ok key"

definition schema_req_ok :: "string \<Rightarrow> table_desc list \<Rightarrow> bool" where
  "schema_req_ok filename tables \<longleftrightarrow> string_ok filename \<and> vector_ok table_ok tables"

lemmas req_writes = string_codec.ser_writes strings_codec.ser_writes int_codec.ser_writes
  kvs_codec.ser_writes tables_codec.ser_writes

lemmas req_reads = string_codec.de_reads strings_codec.de_reads int_codec.de_reads
  kvs_codec.de_reads tables_codec.de_reads

lemmas req_ok_defs = read_req_ok_def scan_req_ok_def values_req_ok_def key_req_ok_def schema_req_ok_def

lemma writes_reqs:
  "read_req_ok table key fs \<Longrightarrow> writes (ser_read_req table key fs) (enc_read_req table key fs)"
  "scan_req_ok table key len fs \<Longrightarrow> writes (ser_scan_req table key len fs) (enc_scan_req table key len fs)"
  "values_req_ok table key vs \<Longrightarrow> writes (ser_values_req table key vs) (enc_values_req table key vs)"
  "key_req_ok table key \<Longrightarrow> writes (ser_key_req table key) (enc_key_req table key)"
  "schema_req_ok filename tables \<Longrightarrow> writes (ser_schema_req filename tables) (enc_schema_req filename tables)"
  unfolding ser_read_req_def enc_read_req_def ser_scan_req_def enc_scan_req_def ser_values_req_def
    enc_values_req_def ser_key_req_def enc_key_req_def ser_schema_req_def enc_schema_req_def
  by (auto simp: req_ok_defs intro!: writes_thenM req_writes)

lemma reads_reqs:
  "read_req_ok table key fs \<Longrightarrow> reads de_read_req (enc_read_req table key fs) (table, key, fs)"
  "scan_req_ok table key len fs \<Longrightarrow> reads de_scan_req (enc_scan_req table key len fs) (table, key, len, fs)"
  "values_req_ok table key vs \<Longrightarrow> reads de_values_req (enc_values_req table key vs) (table, key, vs)"
  "key_req_ok table key \<Longrightarrow> reads de_key_req (enc_key_req table key) (table, key)"
  "schema_req_ok filename tables \<Longrightarrow> reads de_schema_req (enc_schema_req filename tables) (filename, tables)"
  unfolding de_read_req_def enc_read_req_def de_scan_req_def enc_scan_req_def de_values_req_def
    enc_values_req_def de_key_req_def enc_key_req_def de_schema_req_def enc_schema_req_def
  by (auto simp: req_ok_defs intro!: reads_bindM [OF req_reads(1)] reads_bindM [OF req_reads(3)]
      reads_bindM_ret req_reads)

end
