(* ===== verification/ClientSim.thy ===== *)
theory ClientSim
  imports Client Requests
begin

text \<open>
  A benchmark client over two backends. Every call that \<open>Client\<close> of \<open>core/client.h\<close> makes for a workload
  is a request of representable size, and what it does depends on the backend only through the
  answers: over two backends that answer alike (\<open>backend_pair\<close>) a run of turns is the same run.
\<close>

section \<open>Sizes\<close>

text \<open>What a workload needs for its requests to be representable: every configuration read by \<open>stoi\<close> has it.\<close>

definition wl_small :: "'d workload \<Rightarrow> bool" where
  "wl_small w \<longleftrightarrow> string_ok (wl_table w) \<and> wl_field_count w \<le> int_max \<and> wl_zero_padding w \<le> int_max"

lemma wl_typed_small: "wl_typed fp p w \<Longrightarrow> string_ok (wl_table w) \<Longrightarrow> wl_small w"
  using stoi_range unfolding wl_typed_def wl_small_def by blast

lemma wl_small_config: "same_config w w' \<Longrightarrow> wl_small w' = wl_small w"
  by (simp add: wl_small_def same_config_def)

lemma nat_dec_length: "n < 10 ^ Suc k \<Longrightarrow> length (nat_dec n) \<le> Suc k"
proof (induction k arbitrary: n)
  case (Suc k)
  then have "n div 10 < 10 ^ Suc k" by (simp add: less_mult_imp_div_less)
  from Suc.IH [OF this] show ?case by (subst nat_dec.simps) simp
qed (subst nat_dec.simps, simp)

lemma nat_dec_u64: "n < 2 ^ 64 \<Longrightarrow> length (nat_dec n) \<le> 20"
  using nat_dec_length [of n 19] by simp

lemma field_name_ok: "n < 2 ^ 64 \<Longrightarrow> string_ok (field_name n) \<and> string_ok (''field'' @ field_name n)"
  using nat_dec_u64 [of n] by (simp add: string_ok_def field_name_def)

lemma key_name_ok: "wl_small w \<Longrightarrow> string_ok (BuildKeyName w k)"
proof -
  assume "wl_small w"
  then have "nat (wl_zero_padding w) \<le> 2 ^ 31" by (auto simp: wl_small_def int_max_def nat_le_iff)
  moreover have "length (nat_dec (unat k')) \<le> 20" for k' :: u64
    using unsigned_less [of k'] by (intro nat_dec_u64) simp
  moreover have "nat (max 0 (z - int n)) + n \<le> 2 ^ 31 + 20" if "nat z \<le> 2 ^ 31" "n \<le> 20" for z n
    using that by linarith
  ultimately have "length (BuildKeyName w k) \<le> 4 + (2 ^ 31 + 20)"
    unfolding BuildKeyName_def Let_def length_append length_replicate by (intro add_mono) auto
  then show ?thesis by (simp add: string_ok_def)
qed

lemma unat_u64: "unat (n :: u64) < 2 ^ 64"
  using unsigned_less [of n] by simp

lemma value_ok: "random_value fp s = (Inr v, t) \<Longrightarrow> string_ok v"
  by (auto simp: random_value_def bindM_result_Inr retM_def string_ok_def unat_u64 [simplified])

lemma build_fields_ok:
  "build_fields fp is s = (Inr vs, t) \<Longrightarrow> \<forall>i \<in> set is. i < 2 ^ 64 \<Longrightarrow>
     list_all (pair_ok string_ok string_ok) vs \<and> length vs = length is"
  by (induction "is" arbitrary: s vs t)
    (fastforce simp: bindM_result_Inr retM_def pair_ok_def field_name_ok dest: value_ok)+

lemma values_ok:
  assumes "wl_small w"
  shows "same_config w w' \<Longrightarrow> BuildValues fp (w', e) = (Inr vs, t) \<Longrightarrow> kvs_ok vs"
    and "BuildUpdate fp s = (Inr vs, t) \<Longrightarrow> kvs_ok vs"
proof -
  assume "same_config w w'" "BuildValues fp (w', e) = (Inr vs, t)"
  moreover from this(1) have "nat (wl_field_count w') \<le> 2 ^ 31"
    using assms by (auto simp: wl_small_def same_config_def int_max_def nat_le_iff)
  ultimately show "kvs_ok vs"
    using build_fields_ok [of fp "[0..<nat (wl_field_count w')]" "(w', e)" vs t]
    by (auto simp: BuildValues_def kvs_ok_def vector_ok_def)
next
  assume "BuildUpdate fp s = (Inr vs, t)"
  then obtain n :: u64 and v s1 where "random_value fp s1 = (Inr v, t)" "vs = [(field_name (unat n), v)]"
    by (auto simp: BuildUpdate_def NextFieldName_def bindM_result_Inr retM_def)
  then show "kvs_ok vs" using value_ok [of fp s1 v t] field_name_ok [OF unat_u64 [of n]]
    by (simp add: kvs_ok_def vector_ok_def pair_ok_def)
qed

lemma size_to_int_ok: "int_ok (size_to_int n)"
  using sint_ge [of "ucast n :: u32"] sint_lt [of "ucast n :: u32"]
  by (simp add: int_ok_def size_to_int_def int_min_def int_max_def)

section \<open>The simulation\<close>

text \<open>
  Two clients whose backends are related by \<open>R\<close>, with a workload of the configuration of \<open>w\<close>.
  \<open>sim R w P m n\<close>: from related clients both operations give the same result, faults included, and
  related clients again; a value that they return satisfies \<open>P\<close>.
\<close>

definition same_client ::
  "('b \<Rightarrow> 'c \<Rightarrow> bool) \<Rightarrow> 'd workload \<Rightarrow> ('d, 'b) client \<Rightarrow> ('d, 'c) client \<Rightarrow> bool" where
  "same_client R w c c' \<longleftrightarrow>
     same_config w (c_wl c) \<and> c_wl c' = c_wl c \<and> c_env c' = c_env c \<and> R (c_db c) (c_db c')"

definition sim ::
  "('b \<Rightarrow> 'c \<Rightarrow> bool) \<Rightarrow> 'd workload \<Rightarrow> ('a \<Rightarrow> bool) \<Rightarrow> ('d, 'b, 'a) client_op \<Rightarrow> ('d, 'c, 'a) client_op \<Rightarrow> bool" where
  "sim R w P m n \<longleftrightarrow> (\<forall>c c'. same_client R w c c' \<longrightarrow>
     (\<exists>r d d'. m c = (r, d) \<and> n c' = (r, d') \<and> same_client R w d d' \<and> (\<forall>x. r = Inr x \<longrightarrow> P x)))"

text \<open>Two outcomes of a backend: the same result, and related states.\<close>

definition same_outcome :: "('b \<Rightarrow> 'c \<Rightarrow> bool) \<Rightarrow> (fault + 'a) \<times> 'b \<Rightarrow> (fault + 'a) \<times> 'c \<Rightarrow> bool" where
  "same_outcome R x y \<longleftrightarrow> fst x = fst y \<and> R (snd x) (snd y)"

lemma simD:
  assumes "sim R w P m n" and "same_client R w c c'"
  obtains r d d' where "m c = (r, d)" "n c' = (r, d')" "same_client R w d d'" "\<And>x. r = Inr x \<Longrightarrow> P x"
  using assms unfolding sim_def by blast

lemma sim_bindM:
  fixes m :: "('d, 'b, 'a) client_op" and n :: "('d, 'c, 'a) client_op"
  assumes "sim R w P m n" and "\<And>x. P x \<Longrightarrow> sim R w Q (f x) (g x)"
  shows "sim R w Q (bindM m f) (bindM n g)"
  unfolding sim_def
proof (intro allI impI)
  fix c :: "('d, 'b) client" and c' :: "('d, 'c) client"
  assume "same_client R w c c'"
  with assms(1) obtain r d d' where
    r: "m c = (r, d)" "n c' = (r, d')" "same_client R w d d'" "\<And>x. r = Inr x \<Longrightarrow> P x" by (rule simD) blast
  show "\<exists>r d d'. bindM m f c = (r, d) \<and> bindM n g c' = (r, d') \<and> same_client R w d d' \<and> (\<forall>x. r = Inr x \<longrightarrow> Q x)"
  proof (cases r)
    case (Inl err)
    with r(1-3) show ?thesis by (simp add: bindM_Inl)
  next
    case (Inr x)
    with assms(2) [OF r(4) [OF Inr]] r(1-3) show ?thesis by (auto simp: bindM_Inr sim_def)
  qed
qed

lemma sim_pure:
  "P x \<Longrightarrow> sim R w P (retM x) (retM x)" "sim R w P (throwM err) (throwM err)"
  by (auto simp: sim_def op_simps)

lemma sim_getM: "sim R w (\<lambda>_. True) (getM (\<lambda>c. h (c_wl c))) (getM (\<lambda>c. h (c_wl c)))"
  by (auto simp: sim_def op_simps same_client_def)

lemma sim_on_wl:
  fixes m :: "('d, 'a) wl_op"
  assumes "keeps_config m" and "\<And>w' e x t. same_config w w' \<Longrightarrow> m (w', e) = (Inr x, t) \<Longrightarrow> P x"
  shows "sim (R :: 'b \<Rightarrow> 'c \<Rightarrow> bool) w P (on_wl m) (on_wl m)"
  unfolding sim_def
proof (intro allI impI)
  fix c :: "('d, 'b) client" and c' :: "('d, 'c) client"
  assume c: "same_client R w c c'"
  obtain r w1 e1 where m: "m (c_wl c, c_env c) = (r, (w1, e1))" by (metis surj_pair)
  have "same_config w w1"
    using keepsD [OF assms(1) m] c same_config_trans unfolding same_client_def by (metis fst_conv)
  with c m assms(2) show "\<exists>r d d'. on_wl m c = (r, d) \<and> on_wl m c' = (r, d') \<and> same_client R w d d' \<and> (\<forall>x. r = Inr x \<longrightarrow> P x)"
    by (auto simp: on_wl_def onM_def same_client_def)
qed

lemma sim_on_db:
  fixes m :: "('b, 'a) op" and n :: "('c, 'a) op" and w :: "'d workload"
  assumes "\<And>b b'. R b b' \<Longrightarrow> same_outcome R (m b) (n b')"
  shows "sim R w (\<lambda>_. True) (on_db m) (on_db n)"
  unfolding sim_def
proof (intro allI impI)
  fix c :: "('d, 'b) client" and c' :: "('d, 'c) client"
  assume c: "same_client R w c c'"
  then have "same_outcome R (m (c_db c)) (n (c_db c'))" by (intro assms) (simp add: same_client_def)
  then obtain r s s' where "m (c_db c) = (r, s)" "n (c_db c') = (r, s')" "R s s'"
    unfolding same_outcome_def by (metis prod.collapse)
  with c show "\<exists>r d d'. on_db m c = (r, d) \<and> on_db n c' = (r, d') \<and> same_client R w d d' \<and> (\<forall>x. r = Inr x \<longrightarrow> True)"
    by (simp add: on_db_def onM_def same_client_def)
qed

lemma sim_True: "sim R w P m n \<Longrightarrow> sim R w (\<lambda>_. True) m n"
  unfolding sim_def by blast

lemma sim_if: "(b \<Longrightarrow> sim R w P m n) \<Longrightarrow> (\<not> b \<Longrightarrow> sim R w P m' n') \<Longrightarrow> sim R w P (if b then m else m') (if b then n else n')"
  by simp

text \<open>What the workload gives to a client.\<close>

lemma key_names:
  "NextSequenceKey fp (w', e) = (Inr key, t) \<Longrightarrow> \<exists>k. key = BuildKeyName w' k"
  "NextTransactionKey fp fuel (w', e) = (Inr key, t) \<Longrightarrow> \<exists>k. key = BuildKeyName w' k"
proof -
  let ?c = "\<lparr>c_wl = w', c_env = e, c_db = ()\<rparr>"
  assume "NextSequenceKey fp (w', e) = (Inr key, t)"
  then have "on_wl (NextSequenceKey fp) ?c = (Inr key, ?c\<lparr>c_wl := fst t, c_env := snd t\<rparr>)"
    by (simp add: on_wl_def onM_def split: prod.split)
  from sequence_result [OF this] show "\<exists>k. key = BuildKeyName w' k" by simp
next
  let ?c = "\<lparr>c_wl = w', c_env = e, c_db = ()\<rparr>"
  assume "NextTransactionKey fp fuel (w', e) = (Inr key, t)"
  then have "on_wl (NextTransactionKey fp fuel) ?c = (Inr key, ?c\<lparr>c_wl := fst t, c_env := snd t\<rparr>)"
    by (simp add: on_wl_def onM_def split: prod.split)
  from key_result [OF this] show "\<exists>k. key = BuildKeyName w' k" by auto
qed

lemma sim_parts:
  assumes small: "wl_small w"
  shows "sim R w string_ok (on_wl NextTable) (on_wl NextTable)"
    and "sim R w string_ok (on_wl (NextSequenceKey fp)) (on_wl (NextSequenceKey fp))"
    and "sim R w string_ok (on_wl (NextTransactionKey fp fuel)) (on_wl (NextTransactionKey fp fuel))"
    and "sim R w kvs_ok (on_wl (BuildValues fp)) (on_wl (BuildValues fp))"
    and "sim R w kvs_ok (on_wl (BuildUpdate fp)) (on_wl (BuildUpdate fp))"
    and "sim R w (\<lambda>_. True) (on_wl (NextScanLength fp)) (on_wl (NextScanLength fp))"
    and "sim R w (\<lambda>_. True) (on_wl (NextOperation fp)) (on_wl (NextOperation fp))"
    and "sim R w (\<lambda>f. string_ok (''field'' @ f)) (on_wl (NextFieldName fp)) (on_wl (NextFieldName fp))"
proof -
  show "sim R w string_ok (on_wl NextTable) (on_wl NextTable)"
    by (rule sim_on_wl, intro keeps)
      (use small in \<open>auto simp: NextTable_def getM_def same_config_def wl_small_def\<close>)
  show "sim R w string_ok (on_wl (NextSequenceKey fp)) (on_wl (NextSequenceKey fp))"
    by (rule sim_on_wl, intro keeps) (use small wl_small_config key_name_ok key_names(1) in blast)
  show "sim R w string_ok (on_wl (NextTransactionKey fp fuel)) (on_wl (NextTransactionKey fp fuel))"
    by (rule sim_on_wl, intro keeps) (use small wl_small_config key_name_ok key_names(2) in blast)
  show "sim R w kvs_ok (on_wl (BuildValues fp)) (on_wl (BuildValues fp))"
    by (rule sim_on_wl, intro keeps) (rule values_ok(1) [OF small])
  show "sim R w kvs_ok (on_wl (BuildUpdate fp)) (on_wl (BuildUpdate fp))"
    by (rule sim_on_wl, intro keeps) (rule values_ok(2) [OF small])
  show "sim R w (\<lambda>f. string_ok (''field'' @ f)) (on_wl (NextFieldName fp)) (on_wl (NextFieldName fp))"
    by (rule sim_on_wl, intro keeps)
      (use field_name_ok unat_u64 in \<open>auto simp: NextFieldName_def bindM_result_Inr retM_def\<close>)
qed (rule sim_on_wl, intro keeps, simp)+

lemma sim_requests:
  assumes small: "wl_small w"
  shows "sim R w (\<lambda>flds. vector_ok string_ok (sent_fields flds)) (request_fields fp) (request_fields fp)"
    and "sim R w kvs_ok (request_values fp) (request_values fp)"
  unfolding request_fields_def request_values_def
  by (intro sim_bindM [OF sim_getM] sim_if sim_parts [OF small] sim_bindM [OF sim_parts(8) [OF small]] sim_pure;
      simp add: vector_ok_def sent_fields_def)+

section \<open>The client\<close>

text \<open>
  What a client needs of two backends to behave in the same way over both: on the requests that it
  makes, related backends give the same answer and are related again.
\<close>

locale backend_pair =
  fixes R :: "'b \<Rightarrow> 'c \<Rightarrow> bool" and ops :: "'b db_ops" and ops' :: "'c db_ops"
  assumes same_Read: "R b b' \<Longrightarrow> read_req_ok t k (sent_fields flds) \<Longrightarrow>
      same_outcome R (op_Read ops t k flds [] b) (op_Read ops' t k flds [] b')"
    and same_Scan: "R b b' \<Longrightarrow> scan_req_ok t k len (sent_fields flds) \<Longrightarrow>
      same_outcome R (op_Scan ops t k len flds [] b) (op_Scan ops' t k len flds [] b')"
    and same_Update: "R b b' \<Longrightarrow> values_req_ok t k vs \<Longrightarrow>
      same_outcome R (op_Update ops t k vs b) (op_Update ops' t k vs b')"
    and same_Insert: "R b b' \<Longrightarrow> values_req_ok t k vs \<Longrightarrow>
      same_outcome R (op_Insert ops t k vs b) (op_Insert ops' t k vs b')"
begin

lemma sim_ops:
  assumes "string_ok t" and "string_ok k"
  shows "vector_ok string_ok (sent_fields flds) \<Longrightarrow>
      sim R w (\<lambda>_. True) (on_db (op_Read ops t k flds [])) (on_db (op_Read ops' t k flds []))"
    and "vector_ok string_ok (sent_fields flds) \<Longrightarrow>
      sim R w (\<lambda>_. True) (on_db (op_Scan ops t k (size_to_int n) flds [])) (on_db (op_Scan ops' t k (size_to_int n) flds []))"
    and "kvs_ok vs \<Longrightarrow> sim R w (\<lambda>_. True) (on_db (op_Update ops t k vs)) (on_db (op_Update ops' t k vs))"
    and "kvs_ok vs \<Longrightarrow> sim R w (\<lambda>_. True) (on_db (op_Insert ops t k vs)) (on_db (op_Insert ops' t k vs))"
  using assms
  by (auto intro!: sim_on_db same_Read same_Scan same_Update same_Insert
      simp: read_req_ok_def scan_req_ok_def values_req_ok_def size_to_int_ok)

lemma sim_transaction:
  assumes small: "wl_small w"
  shows "sim R w (\<lambda>_. True) (transaction fp fuel ops oper) (transaction fp fuel ops' oper)"
proof -
  note parts = sim_parts [OF small] sim_requests [OF small]
  have first: "sim R w (\<lambda>_. True) (case p of (rc, result) \<Rightarrow> retM rc) (case p of (rc, result) \<Rightarrow> retM rc)"
    for p :: "int \<times> 'r" by (cases p) (simp add: sim_pure)
  show ?thesis
    by (cases oper; simp only: transaction_def operation.case TransactionRead_def TransactionUpdate_def
        TransactionInsert_def TransactionScan_def TransactionReadModifyWrite_def)
      (rule sim_bindM parts sim_ops first | assumption)+
qed

lemma sim_turn:
  assumes small: "wl_small w"
  shows "sim R w (\<lambda>_. True) (turn fp fuel ops is_loading) (turn fp fuel ops' is_loading)"
proof -
  have "sim R w (\<lambda>_. True) (DoInsert fp ops) (DoInsert fp ops')"
    unfolding DoInsert_def
    by (rule sim_bindM sim_parts [OF small] sim_ops sim_pure TrueI | assumption)+
  moreover have "sim R w (\<lambda>_. True) (DoTransaction fp fuel ops) (DoTransaction fp fuel ops')"
    unfolding DoTransaction_def
    by (rule sim_bindM sim_parts [OF small] sim_transaction [OF small] sim_if sim_pure TrueI)+
  ultimately show ?thesis by (simp add: turn_def)
qed

lemma sim_client_loop:
  "sim R w (\<lambda>_. True) m n \<Longrightarrow> sim R w (\<lambda>_. True) (client_loop m k oks) (client_loop n k oks)"
  by (induction k arbitrary: oks) (auto intro: sim_pure sim_bindM)

lemma client_run:
  assumes "wl_small (c_wl c)" and "c_wl c' = c_wl c" and "c_env c' = c_env c" and "R (c_db c) (c_db c')"
  obtains r d d' where "client_loop (turn fp fuel ops is_loading) k oks c = (r, d)"
    "client_loop (turn fp fuel ops' is_loading) k oks c' = (r, d')"
    "c_wl d' = c_wl d" "c_env d' = c_env d" "R (c_db d) (c_db d')"
proof -
  have "same_client R (c_wl c) c c'" using assms by (simp add: same_client_def)
  from simD [OF sim_client_loop [OF sim_turn [OF assms(1)]] this] that show ?thesis
    unfolding same_client_def by metis
qed

end

end
