(* ===== verification/Session.thy ===== *)
theory Session
  imports Requests BasicDB
begin

text \<open>
  What the two remote backends share: a client with one server thread, the dataspaces between them,
  and what each side holds of them. The client's parts stand for \<open>IpcCltCtx\<close> of
  \<open>sqlite_ipc_db.cc\<close> and \<open>sqlite_shm_db.cc\<close>, the server's for the members of \<open>BenchServer\<close> of
  \<open>ipc.cc\<close> and \<open>shm.cc\<close>. Memory is attached (\<open>_map\<close>), capability slots are in use (\<open>_caps\<close>), dataspace
  objects exist (\<open>_obj\<close>), a server thread runs (\<open>srv_thread\<close>), the client has a context (\<open>clt_ctx\<close>);
  with IPC the server object is registered (\<open>srv_object\<close>) and the client holds its gate (\<open>clt_gate\<close>).
\<close>

record 'db session =
  ds_in :: mem
  ds_out :: mem
  infopage :: mem
  backend :: 'db
  ds_in_obj :: bool
  ds_out_obj :: bool
  info_obj :: bool
  info_map :: bool
  srv_in_map :: bool
  srv_out_map :: bool
  srv_caps :: bool
  srv_thread :: bool
  srv_object :: bool
  clt_in_map :: bool
  clt_out_map :: bool
  clt_caps :: bool
  clt_gate :: bool
  clt_ctx :: bool

type_synonym ('db, 'a) session_op = "('db session, 'a) op"

text \<open>
  What the kernel answers while a session is set up, one field per call: return codes of \<open>alloc\<close> and
  \<open>attach\<close>, whether the capabilities of \<open>spawn\<close> arrived, whether thread creation, migration and the
  start signal failed, and what a new dataspace contains. Free capability slots are taken for granted
  (\<open>chkcap\<close> never throws).
\<close>

record kernel =
  k_alloc_in :: int
  k_alloc_out :: int
  k_attach_in :: int
  k_attach_out :: int
  k_in_received :: bool
  k_out_received :: bool
  k_srv_attach_in :: int
  k_srv_attach_out :: int
  k_thread :: int
  k_migrate :: int
  k_send_error :: bool
  k_receive_error :: bool
  k_fresh_in :: mem
  k_fresh_out :: mem

definition on_in :: "(mem, 'a) op \<Rightarrow> ('db, 'a) session_op" where
  "on_in m = onM ds_in (\<lambda>x. ds_in_update (\<lambda>_. x)) m"

definition on_out :: "(mem, 'a) op \<Rightarrow> ('db, 'a) session_op" where
  "on_out m = onM ds_out (\<lambda>x. ds_out_update (\<lambda>_. x)) m"

definition on_info :: "(mem, 'a) op \<Rightarrow> ('db, 'a) session_op" where
  "on_info m = onM infopage (\<lambda>x. infopage_update (\<lambda>_. x)) m"

definition on_backend :: "('db, 'a) op \<Rightarrow> ('db, 'a) session_op" where
  "on_backend m = onM backend (\<lambda>x. backend_update (\<lambda>_. x)) m"

section \<open>Calls of the server\<close>

text \<open>Nothing in a server catches a fault: it ends the server, and the call is not answered.\<close>

definition in_server :: "('db, 'a) session_op \<Rightarrow> ('db, 'a) session_op" where
  "in_server m s = (case m s of (Inl e, t) \<Rightarrow> (Inl (ServerDied e), t) | (Inr x, t) \<Rightarrow> (Inr x, t))"

definition checked_call :: "('db, int) session_op \<Rightarrow> string \<Rightarrow> ('db, unit) session_op" where
  "checked_call srv msg =
     bindM (in_server srv) (\<lambda>rc. if rc \<noteq> L4_EOK then throwM (RuntimeError msg) else retM ())"

section \<open>The members of the servers that are the same in both\<close>

text \<open>
  The constructor of \<open>BenchServer\<close>: it takes over both dataspaces, maps them and opens its database
  context.
\<close>

definition bench_new :: "('db, unit) op \<Rightarrow> kernel \<Rightarrow> ('db, unit) session_op" where
  "bench_new dbInit k =
     thenM (modifyM (srv_caps_update (\<lambda>_. True)))
    (if k_srv_attach_in k < 0 then throwM (RuntimeError ''Failed to attach db_in dataspace.'')
     else thenM (modifyM (srv_in_map_update (\<lambda>_. True)))
       (if k_srv_attach_out k < 0 then throwM (RuntimeError ''Failed to attach db_out dataspace.'')
        else thenM (modifyM (srv_out_map_update (\<lambda>_. True))) (on_backend dbInit)))"

text \<open>
  \<open>op_schema\<close> of \<open>DbServer\<close>: \<open>create\<close> stands for constructing the \<open>SqliteLibDB\<close> of a file name and
  creating its tables.
\<close>

definition srv_schema ::
  "(string \<Rightarrow> table_desc list \<Rightarrow> ('db, unit) op) \<Rightarrow> bool \<Rightarrow> int \<Rightarrow> ('db, int) session_op" where
  "srv_schema create cap_received attach_rc =
     (if \<not> cap_received then retM (- L4_EACCESS)
      else if attach_rc < 0 then retM (- L4_EINVAL)
      else bindM (on_info (de_run 0 de_schema_req)) (\<lambda>(fname, tables).
           thenM (on_backend (create fname tables)) (retM L4_EOK)))"

section \<open>The members of the clients that are the same in both\<close>

text \<open>
  The constructor of the client, with the return codes of \<open>alloc\<close> and \<open>attach\<close> for the page that
  carries the schema.
\<close>

definition client_new :: "int \<Rightarrow> int \<Rightarrow> ('db, unit) session_op" where
  "client_new alloc_info attach_info =
     (if alloc_info < 0 then throwM (RuntimeError ''Failed to allocate db_infopage dataspace.'')
      else thenM (modifyM (info_obj_update (\<lambda>_. True)))
        (if attach_info < 0 then throwM (RuntimeError ''Failed to attach db_infopage dataspace.'')
         else modifyM (info_map_update (\<lambda>_. True))))"

text \<open>\<open>CreateSchema\<close> with the server's handler.\<close>

definition CreateSchema_by :: "('db, int) session_op \<Rightarrow> string \<Rightarrow> table_desc list \<Rightarrow> ('db, unit) session_op" where
  "CreateSchema_by srv filename tables =
     thenM (on_info (ser_run 0 YCSBC_DS_SIZE (ser_schema_req filename tables)))
       (checked_call srv ''creating schema failed'')"

text \<open>
  The first half of \<open>Init\<close>: both dataspaces are allocated and attached. What a new dataspace contains
  is the kernel's choice.
\<close>

definition open_dataspaces :: "kernel \<Rightarrow> ('db, unit) session_op" where
  "open_dataspaces k =
     thenM (modifyM (clt_caps_update (\<lambda>_. True)))
    (if k_alloc_in k < 0 then throwM (RuntimeError ''Failed to allocate db_in dataspace.'')
     else thenM (modifyM (\<lambda>s. s\<lparr>ds_in_obj := True, ds_in := k_fresh_in k\<rparr>))
    (if k_alloc_out k < 0 then throwM (RuntimeError ''Failed to allocate db_out dataspace.'')
     else thenM (modifyM (\<lambda>s. s\<lparr>ds_out_obj := True, ds_out := k_fresh_out k\<rparr>))
    (if k_attach_in k < 0 then throwM (RuntimeError ''Failed to attach db_in dataspace.'')
     else thenM (modifyM (clt_in_map_update (\<lambda>_. True)))
    (if k_attach_out k < 0 then throwM (RuntimeError ''Failed to attach db_out dataspace.'')
     else modifyM (clt_out_map_update (\<lambda>_. True))))))"

section \<open>Refinement\<close>

text \<open>
  The run \<open>r\<close> answers what the abstract run \<open>b\<close> answers and leaves its state in the backend.
\<close>

definition refines :: "(fault + 'a) \<times> 'db session \<Rightarrow> (fault + 'a) \<times> 'db \<Rightarrow> bool" where
  "refines r b \<longleftrightarrow> fst r = fst b \<and> backend (snd r) = snd b"

text \<open>A schema that fits into its page arrives as it was sent.\<close>

lemma schema_transfers:
  assumes "schema_req_ok filename tables"
    and "length (enc_schema_req filename tables) \<le> 1048576"
  shows "refines (CreateSchema_by (srv_schema create cap_received attach_rc) filename tables s)
    (if \<not> cap_received \<or> attach_rc < 0 then (Inl (RuntimeError ''creating schema failed''), backend s)
     else case create filename tables (backend s) of
         (Inl e, b) \<Rightarrow> (Inl (ServerDied e), b)
       | (Inr u, b) \<Rightarrow> (Inr (), b))"
proof -
  let ?bs = "enc_schema_req filename tables"
  let ?s = "s\<lparr>infopage := write_bytes 0 ?bs (infopage s)\<rparr>"
  have "on_info (ser_run 0 YCSBC_DS_SIZE (ser_schema_req filename tables)) s = (Inr (), ?s)"
    using ser_run_fits [OF writes_reqs(5) [OF assms(1)], of YCSBC_DS_SIZE 0] assms(2)
    by (simp add: on_info_def op_simps)
  moreover have "on_info (de_run 0 de_schema_req) ?s = (Inr (filename, tables), ?s)"
    using de_run_after_write [OF reads_reqs(5) [OF assms(1)], of 0 "infopage s"] assms(2)
    by (simp add: on_info_def op_simps)
  ultimately show ?thesis
    by (auto simp: CreateSchema_by_def refines_def checked_call_def in_server_def srv_schema_def
        bindM_def thenM_def retM_def throwM_def L4_EOK_def L4_EACCESS_def L4_EINVAL_def
        on_backend_def onM_def split: sum.splits prod.splits)
qed

lemma open_dataspaces_run:
  "open_dataspaces k s = (Inr (), t) \<longleftrightarrow>
     0 \<le> k_alloc_in k \<and> 0 \<le> k_alloc_out k \<and> 0 \<le> k_attach_in k \<and> 0 \<le> k_attach_out k \<and>
     t = s\<lparr>clt_caps := True, ds_in_obj := True, ds_in := k_fresh_in k, ds_out_obj := True,
       ds_out := k_fresh_out k, clt_in_map := True, clt_out_map := True\<rparr>"
  by (auto simp: open_dataspaces_def thenM_def bindM_def modifyM_def throwM_def)

text \<open>What a session holds of both sides.\<close>

definition holds_all :: "'db session \<Rightarrow> bool" where
  "holds_all s \<longleftrightarrow> clt_ctx s \<and> clt_caps s \<and> clt_in_map s \<and> clt_out_map s \<and> ds_in_obj s \<and> ds_out_obj s \<and>
     srv_thread s \<and> srv_caps s \<and> srv_in_map s \<and> srv_out_map s"

lemma bench_new_run:
  "bench_new dbInit k s = (Inr (), t) \<longleftrightarrow>
     0 \<le> k_srv_attach_in k \<and> 0 \<le> k_srv_attach_out k \<and>
     (\<exists>b. dbInit (backend s) = (Inr (), b) \<and>
       t = s\<lparr>srv_caps := True, srv_in_map := True, srv_out_map := True, backend := b\<rparr>)"
  by (auto simp: bench_new_def thenM_def bindM_def modifyM_def throwM_def on_backend_def onM_def
      split: prod.splits)

text \<open>A session before anything is set up, and a kernel that grants everything, for examples.\<close>

definition fresh_session :: "'db \<Rightarrow> 'db session" where
  "fresh_session db =
     \<lparr>ds_in = \<lambda>_. 0, ds_out = \<lambda>_. 0, infopage = \<lambda>_. 0, backend = db, ds_in_obj = False,
      ds_out_obj = False, info_obj = False, info_map = False, srv_in_map = False,
      srv_out_map = False, srv_caps = False, srv_thread = False, srv_object = False,
      clt_in_map = False, clt_out_map = False, clt_caps = False, clt_gate = False, clt_ctx = False\<rparr>"

definition kind_kernel :: kernel where
  "kind_kernel =
     \<lparr>k_alloc_in = 0, k_alloc_out = 0, k_attach_in = 0, k_attach_out = 0, k_in_received = True,
      k_out_received = True, k_srv_attach_in = 0, k_srv_attach_out = 0, k_thread = 0,
      k_migrate = 0, k_send_error = False, k_receive_error = False, k_fresh_in = \<lambda>_. 0,
      k_fresh_out = \<lambda>_. 0\<rparr>"

end
