(* ===== verification/Ipc.thy ===== *)
theory Ipc
  imports Session
begin

text \<open>
  The IPC backend: the server of \<open>server/sqlite-ipc-srv/ipc.cc\<close> (\<open>BenchServer\<close>, \<open>DbServer\<close>) and its
  client \<open>server/ycsbc-l4/db/sqlite_ipc_db.cc\<close> (\<open>SqliteIpcDB\<close>), with the database library behind the
  server as a record of operations. An IPC call is synchronous: the client's state and the server's
  change in one step of the caller.
\<close>

section \<open>The benchmark server\<close>

text \<open>Putting a result into the output dataspace.\<close>

definition reply :: "(serializer, unit) op \<Rightarrow> ('db, int) session_op" where
  "reply ser =
     thenM (on_out (modifyM clear_ds))
    (thenM (on_out (ser_run 0 YCSBC_DS_SIZE ser)) (retM L4_EOK))"

definition srv_read :: "'db db_ops \<Rightarrow> ('db, int) session_op" where
  "srv_read ops =
     bindM (on_in (de_run 0 de_read_req)) (\<lambda>(table, key, fs).
     bindM (on_backend (op_Read ops table key (Some fs) [])) (\<lambda>(rc, result).
     if rc \<noteq> kOK then retM (- L4_EINVAL) else reply (ser_kvs result)))"

definition srv_scan :: "'db db_ops \<Rightarrow> ('db, int) session_op" where
  "srv_scan ops =
     bindM (on_in (de_run 0 de_scan_req)) (\<lambda>(table, key, len, fs).
     bindM (on_backend (op_Scan ops table key len (Some fs) [])) (\<lambda>(rc, result).
     if rc \<noteq> kOK then retM (- L4_EINVAL) else reply (ser_vector ser_kvs result)))"

definition srv_insert :: "'db db_ops \<Rightarrow> ('db, int) session_op" where
  "srv_insert ops =
     bindM (on_in (de_run 0 de_values_req)) (\<lambda>(table, key, values).
     bindM (on_backend (op_Insert ops table key values)) (\<lambda>rc.
     if rc \<noteq> kOK then retM (- L4_EINVAL) else retM L4_EOK))"

definition srv_update :: "'db db_ops \<Rightarrow> ('db, int) session_op" where
  "srv_update ops =
     bindM (on_in (de_run 0 de_values_req)) (\<lambda>(table, key, values).
     bindM (on_backend (op_Update ops table key values)) (\<lambda>rc.
     if rc \<noteq> kOK then retM (- L4_EINVAL) else retM L4_EOK))"

definition srv_del :: "'db db_ops \<Rightarrow> ('db, int) session_op" where
  "srv_del ops =
     bindM (on_in (de_run 0 de_key_req)) (\<lambda>(table, key).
     bindM (on_backend (op_Delete ops table key)) (\<lambda>rc.
     if rc \<noteq> kOK then retM (- L4_EINVAL) else retM L4_EOK))"

text \<open>\<open>op_close\<close>, with the return codes of the two \<open>detach\<close> calls.\<close>

definition srv_close :: "int \<Rightarrow> int \<Rightarrow> ('db, int) session_op" where
  "srv_close detach_in detach_out =
     (if detach_in < 0 then retM (- L4_EINVAL)
      else thenM (modifyM (srv_in_map_update (\<lambda>_. False)))
        (if detach_out < 0 then retM (- L4_EINVAL)
         else thenM (modifyM (srv_out_map_update (\<lambda>_. False)))
             (thenM (modifyM (srv_caps_update (\<lambda>_. False))) (retM L4_EOK))))"

definition srv_terminate :: "('db, unit) session_op" where
  "srv_terminate = modifyM (srv_thread_update (\<lambda>_. False))"

section \<open>The database server\<close>

text \<open>
  \<open>BenchServer::loop\<close> up to its wait for messages: the new thread migrates, constructs its server
  object, registers it, hands its gate out and signals its creator. An exception in it ends the
  process, like one in the creator.
\<close>

definition bench_loop :: "('db, unit) op \<Rightarrow> kernel \<Rightarrow> ('db, unit) session_op" where
  "bench_loop dbInit k =
     thenM (liftM (migrate (k_migrate k)))
    (thenM (bench_new dbInit k)
    (thenM (modifyM (srv_object_update (\<lambda>_. True)))
    (if k_send_error k then throwM (RuntimeError ''failed to send signal to caller'') else retM ())))"

text \<open>
  \<open>op_spawn\<close>: the creator waits for the signal of the new thread, so the thread's start is a part of
  the call.
\<close>

definition srv_spawn :: "('db, unit) op \<Rightarrow> kernel \<Rightarrow> ('db, int) session_op" where
  "srv_spawn dbInit k =
     (if \<not> k_in_received k \<or> \<not> k_out_received k then retM (- L4_EACCESS)
      else if k_thread k \<noteq> 0 then throwM (RuntimeError ''pthread_create failed'')
      else thenM (modifyM (srv_thread_update (\<lambda>_. True)))
          (thenM (bench_loop dbInit k)
          (if k_receive_error k then throwM (RuntimeError ''receiving from created thread failed'')
           else retM L4_EOK)))"

section \<open>The client\<close>

text \<open>Resetting the input dataspace and serializing a request into it.\<close>

definition send_req :: "(serializer, unit) op \<Rightarrow> ('db, unit) session_op" where
  "send_req ser =
     thenM (on_in (modifyM clear_ds)) (on_in (ser_run 0 YCSBC_DS_SIZE ser))"

definition ipc_Read ::
  "'db db_ops \<Rightarrow> string \<Rightarrow> string \<Rightarrow> string list option \<Rightarrow> fieldvals \<Rightarrow> ('db, int \<times> fieldvals) session_op" where
  "ipc_Read ops table key flds result =
     thenM (send_req (ser_read_req table key (sent_fields flds)))
    (thenM (checked_call (srv_read ops) ''read command failed'')
    (bindM (on_out (de_run 0 de_kvs)) (\<lambda>result. retM (status_of_result result, result))))"

definition ipc_Scan ::
  "'db db_ops \<Rightarrow> string \<Rightarrow> string \<Rightarrow> int \<Rightarrow> string list option \<Rightarrow> fieldvals list \<Rightarrow>
     ('db, int \<times> fieldvals list) session_op" where
  "ipc_Scan ops table key len flds result =
     thenM (send_req (ser_scan_req table key len (sent_fields flds)))
    (thenM (checked_call (srv_scan ops) ''scan command failed'')
    (bindM (on_out (de_run 0 (de_vector de_kvs))) (\<lambda>result. retM (status_of_result result, result))))"

definition ipc_Update :: "'db db_ops \<Rightarrow> string \<Rightarrow> string \<Rightarrow> fieldvals \<Rightarrow> ('db, int) session_op" where
  "ipc_Update ops table key values =
     thenM (send_req (ser_values_req table key values))
    (thenM (checked_call (srv_update ops) ''update command failed'') (retM kOK))"

definition ipc_Insert :: "'db db_ops \<Rightarrow> string \<Rightarrow> string \<Rightarrow> fieldvals \<Rightarrow> ('db, int) session_op" where
  "ipc_Insert ops table key values =
     thenM (send_req (ser_values_req table key values))
    (thenM (checked_call (srv_insert ops) ''insert command failed'') (retM kOK))"

definition ipc_Delete :: "'db db_ops \<Rightarrow> string \<Rightarrow> string \<Rightarrow> ('db, int) session_op" where
  "ipc_Delete ops table key =
     thenM (send_req (ser_key_req table key))
    (thenM (checked_call (srv_del ops) ''delete command failed'') (retM kOK))"

definition ipc_CreateSchema ::
  "(string \<Rightarrow> table_desc list \<Rightarrow> ('db, unit) op) \<Rightarrow> bool \<Rightarrow> int \<Rightarrow> string \<Rightarrow> table_desc list \<Rightarrow>
     ('db, unit) session_op" where
  "ipc_CreateSchema create cap_received attach_rc =
     CreateSchema_by (srv_schema create cap_received attach_rc)"

text \<open>\<open>Init\<close>: the context is handed out only when everything went well.\<close>

definition ipc_Init :: "('db, unit) op \<Rightarrow> kernel \<Rightarrow> ('db, unit) session_op" where
  "ipc_Init dbInit k =
     thenM (open_dataspaces k)
    (thenM (checked_call (srv_spawn dbInit k) ''spawn command failed'')
           (modifyM (\<lambda>s. s\<lparr>clt_gate := True, clt_ctx := True\<rparr>)))"

text \<open>
  \<open>Close\<close>: a failed server-side close is only reported, a failed local \<open>detach\<close> ends it early.
\<close>

definition ipc_Close :: "int \<Rightarrow> int \<Rightarrow> int \<Rightarrow> int \<Rightarrow> ('db, unit) session_op" where
  "ipc_Close srv_detach_in srv_detach_out detach_in detach_out =
     bindM (srv_close srv_detach_in srv_detach_out) (\<lambda>_.
     if detach_in < 0 then retM ()
     else thenM (modifyM (clt_in_map_update (\<lambda>_. False)))
       (if detach_out < 0 then retM ()
        else thenM (modifyM (clt_out_map_update (\<lambda>_. False)))
            (thenM (modifyM (\<lambda>s. s\<lparr>ds_in_obj := False, ds_out_obj := False\<rparr>))
            (thenM (modifyM (clt_caps_update (\<lambda>_. False)))
            (thenM srv_terminate
            (thenM (modifyM (clt_gate_update (\<lambda>_. False)))
                   (modifyM (clt_ctx_update (\<lambda>_. False)))))))))"

text \<open>The operations of \<open>SqliteIpcDB\<close> as the client calls them.\<close>

definition ipc_db_ops :: "'db db_ops \<Rightarrow> 'db session db_ops" where
  "ipc_db_ops ops =
     \<lparr>op_Read = ipc_Read ops, op_Scan = ipc_Scan ops, op_Update = ipc_Update ops,
      op_Insert = ipc_Insert ops, op_Delete = ipc_Delete ops\<rparr>"

section \<open>What a call is meant to do\<close>

text \<open>
  The abstract call: a request that fits is one run of the backend operation, whose answer comes
  back unless it is a failure or does not fit. The dataspaces are not part of it.
\<close>

definition remote_query ::
  "u8 list \<Rightarrow> string \<Rightarrow> ('r \<Rightarrow> u8 list) \<Rightarrow> ('r \<Rightarrow> int) \<Rightarrow> ('db, int \<times> 'r) op \<Rightarrow>
     ('db, int \<times> 'r) op" where
  "remote_query req msg enc status f b =
     (if 1048576 < length req then (Inl overflow_fault, b)
      else case f b of
          (Inl e, b') \<Rightarrow> (Inl (ServerDied e), b')
        | (Inr (rc, res), b') \<Rightarrow>
            (if rc \<noteq> kOK then Inl (RuntimeError msg)
             else if 1048576 < length (enc res) then Inl (ServerDied overflow_fault)
             else Inr (status res, res), b'))"

definition remote_command :: "u8 list \<Rightarrow> string \<Rightarrow> ('db, int) op \<Rightarrow> ('db, int) op" where
  "remote_command req msg f b =
     (if 1048576 < length req then (Inl overflow_fault, b)
      else case f b of
          (Inl e, b') \<Rightarrow> (Inl (ServerDied e), b')
        | (Inr rc, b') \<Rightarrow> (if rc \<noteq> kOK then Inl (RuntimeError msg) else Inr kOK, b'))"

section \<open>Messages through the dataspaces\<close>

lemma send_req_fits:
  assumes "writes ser bs" and "length bs \<le> 1048576"
  shows "send_req ser s = (Inr (), s\<lparr>ds_in := write_bytes 0 bs (clear_ds (ds_in s))\<rparr>)"
  using ser_run_fits [OF assms(1), of YCSBC_DS_SIZE 0] assms(2)
  by (simp add: send_req_def thenM_def bindM_def on_in_def onM_def modifyM_def)

lemma send_req_full:
  assumes "writes ser bs" and "1048576 < length bs"
  shows "fst (send_req ser s) = Inl overflow_fault \<and> backend (snd (send_req ser s)) = backend s"
proof -
  obtain ds' where "ser_run 0 YCSBC_DS_SIZE ser (clear_ds (ds_in s)) = (Inl overflow_fault, ds')"
    using ser_run_full [OF assms(1), of YCSBC_DS_SIZE 0 "clear_ds (ds_in s)"] assms(2)
    by (metis YCSBC_DS_SIZE_value prod.collapse)
  then show ?thesis
    by (simp add: send_req_def thenM_def bindM_def on_in_def onM_def modifyM_def)
qed

text \<open>The server finds in the input dataspace what the client put there.\<close>

lemma receive_req:
  assumes "reads de bs x" and "length bs \<le> 1048576"
  shows "on_in (de_run 0 de) (s\<lparr>ds_in := write_bytes 0 bs ds\<rparr>) =
    (Inr x, s\<lparr>ds_in := write_bytes 0 bs ds\<rparr>)"
  using de_run_after_write [OF assms(1), of 0 ds] assms(2)
  by (simp add: on_in_def onM_def)

lemma reply_fits:
  assumes "writes ser bs" and "length bs \<le> 1048576"
  shows "reply ser s = (Inr L4_EOK, s\<lparr>ds_out := write_bytes 0 bs (clear_ds (ds_out s))\<rparr>)"
  using ser_run_fits [OF assms(1), of YCSBC_DS_SIZE 0] assms(2)
  by (simp add: reply_def thenM_def bindM_def on_out_def onM_def modifyM_def retM_def)

lemma reply_full:
  assumes "writes ser bs" and "1048576 < length bs"
  shows "fst (reply ser s) = Inl overflow_fault \<and> backend (snd (reply ser s)) = backend s"
proof -
  obtain ds' where "ser_run 0 YCSBC_DS_SIZE ser (clear_ds (ds_out s)) = (Inl overflow_fault, ds')"
    using ser_run_full [OF assms(1), of YCSBC_DS_SIZE 0 "clear_ds (ds_out s)"] assms(2)
    by (metis YCSBC_DS_SIZE_value prod.collapse)
  then show ?thesis
    by (simp add: reply_def thenM_def bindM_def on_out_def onM_def modifyM_def)
qed

lemma receive_reply:
  assumes "reads de bs x" and "length bs \<le> 1048576"
  shows "on_out (de_run 0 de) (s\<lparr>ds_out := write_bytes 0 bs ds\<rparr>) =
    (Inr x, s\<lparr>ds_out := write_bytes 0 bs ds\<rparr>)"
  using de_run_after_write [OF assms(1), of 0 ds] assms(2)
  by (simp add: on_out_def onM_def)

section \<open>The calls refine the abstract calls\<close>

lemma thenM_fault_refines:
  assumes "fst (m s) = Inl e \<and> backend (snd (m s)) = b"
  shows "refines (thenM m n s) (Inl e, b)"
proof -
  obtain t where "m s = (Inl e, t)" "backend t = b" using assms by (metis prod.collapse)
  then show ?thesis by (simp add: refines_def op_simps)
qed

lemma remote_too_big:
  "1048576 < length req \<Longrightarrow> remote_query req msg enc status f b = (Inl overflow_fault, b)"
  "1048576 < length req \<Longrightarrow> remote_command req msg g b = (Inl overflow_fault, b)"
  by (simp_all add: remote_query_def remote_command_def)

text \<open>
  A whole query, for any answer type that has a codec: \<open>g\<close> is the server's handler after it has
  read the request.
\<close>

context codec
begin

lemma answered:
  assumes "ok res"
  shows "refines (thenM (checked_call (reply (ser res)) msg)
    (bindM (on_out (de_run 0 de)) (\<lambda>result. retM (status result, result))) s)
    (if 1048576 < length (enc res) then Inl (ServerDied overflow_fault) else Inr (status res, res),
     backend s)"
proof (cases "length (enc res) \<le> 1048576")
  case True
  then show ?thesis
    using reply_fits [OF ser_writes [OF assms] True, of s]
      receive_reply [OF de_reads [OF assms] True, where s = s]
    by (simp add: refines_def checked_call_def in_server_def bindM_def thenM_def retM_def)
next
  case False
  then obtain t where "reply (ser res) s = (Inl overflow_fault, t)" "backend t = backend s"
    using reply_full [OF ser_writes [OF assms], of s] by (cases "reply (ser res) s") auto
  with False show ?thesis
    by (simp add: refines_def checked_call_def in_server_def bindM_def thenM_def)
qed

lemma query_refines:
  assumes req: "writes sreq req" "reads dreq req x"
    and srv: "srv = bindM (on_in (de_run 0 dreq)) g"
    and g: "g x = bindM (on_backend f) (\<lambda>(rc, result).
      if rc \<noteq> kOK then retM (- L4_EINVAL) else reply (ser result))"
    and ok: "\<And>res b'. f (backend s) = (Inr (kOK, res), b') \<Longrightarrow> ok res"
  shows "refines (thenM (send_req sreq) (thenM (checked_call srv msg)
      (bindM (on_out (de_run 0 de)) (\<lambda>result. retM (status result, result)))) s)
    (remote_query req msg enc status f (backend s))"
proof (cases "length req \<le> 1048576")
  case False
  then show ?thesis using send_req_full [OF req(1)]
    by (auto simp: remote_too_big intro!: thenM_fault_refines)
next
  case fits: True
  let ?s = "s\<lparr>ds_in := write_bytes 0 req (clear_ds (ds_in s))\<rparr>"
  obtain r b' where f: "f (backend s) = (r, b')" by fastforce
  let ?t = "?s\<lparr>backend := b'\<rparr>"
  have "on_backend f ?s = (r, ?t)" using f by (simp add: on_backend_def op_simps)
  then have srv': "srv ?s = (case r of Inl e \<Rightarrow> (Inl e, ?t) | Inr (rc, res) \<Rightarrow>
      (if rc \<noteq> kOK then retM (- L4_EINVAL) else reply (ser res)) ?t)"
    using receive_req [OF req(2) fits, where s = s] g
    by (simp add: srv bindM_def split: sum.split prod.split)
  have "refines (thenM (checked_call srv msg)
      (bindM (on_out (de_run 0 de)) (\<lambda>result. retM (status result, result))) ?s)
    (remote_query req msg enc status f (backend s))"
  proof (cases "\<exists>res. r = Inr (kOK, res)")
    case True
    then obtain res where r: "r = Inr (kOK, res)" by blast
    then have "checked_call srv msg ?s = checked_call (reply (ser res)) msg ?t"
      using srv' by (simp add: checked_call_def in_server_def bindM_def)
    then show ?thesis
      using answered [of res msg status ?t] ok f r fits
      by (simp add: remote_query_def thenM_def bindM_def refines_def)
  next
    case False
    then show ?thesis using srv' f fits
      by (auto simp: remote_query_def refines_def checked_call_def in_server_def bindM_def thenM_def
          retM_def throwM_def L4_EOK_def L4_EINVAL_def split: sum.splits)
  qed
  then show ?thesis by (simp add: thenM_Inr [OF send_req_fits [OF req(1) fits]])
qed

end

lemma command_refines:
  assumes req: "writes sreq req" "reads dreq req x"
    and srv: "srv = bindM (on_in (de_run 0 dreq)) g"
    and g: "g x = bindM (on_backend f) (\<lambda>rc. if rc \<noteq> kOK then retM (- L4_EINVAL) else retM L4_EOK)"
  shows "refines (thenM (send_req sreq) (thenM (checked_call srv msg) (retM kOK)) s)
    (remote_command req msg f (backend s))"
proof (cases "length req \<le> 1048576")
  case False
  then show ?thesis using send_req_full [OF req(1)]
    by (auto simp: remote_too_big intro!: thenM_fault_refines)
next
  case fits: True
  let ?s = "s\<lparr>ds_in := write_bytes 0 req (clear_ds (ds_in s))\<rparr>"
  obtain r b' where f: "f (backend s) = (r, b')" by fastforce
  have "on_backend f ?s = (r, ?s\<lparr>backend := b'\<rparr>)" using f by (simp add: on_backend_def op_simps)
  then have "srv ?s = (case r of Inl e \<Rightarrow> Inl e
      | Inr rc \<Rightarrow> Inr (if rc \<noteq> kOK then - L4_EINVAL else L4_EOK), ?s\<lparr>backend := b'\<rparr>)"
    using receive_req [OF req(2) fits, where s = s] g
    by (simp add: srv bindM_def retM_def split: sum.split)
  then have "refines (thenM (checked_call srv msg) (retM kOK) ?s) (remote_command req msg f (backend s))"
    using f fits
    by (auto simp: remote_command_def refines_def checked_call_def in_server_def bindM_def thenM_def
        retM_def throwM_def L4_EOK_def L4_EINVAL_def split: sum.splits)
  then show ?thesis by (simp add: thenM_Inr [OF send_req_fits [OF req(1) fits]])
qed

lemma ipc_Read_run:
  assumes "read_req_ok table key (sent_fields flds)"
    and "\<And>res b'. op_Read ops table key (Some (sent_fields flds)) [] (backend s) = (Inr (kOK, res), b')
      \<Longrightarrow> kvs_ok res"
  shows "refines (ipc_Read ops table key flds result s)
    (remote_query (enc_read_req table key (sent_fields flds)) ''read command failed'' enc_kvs status_of_result
      (op_Read ops table key (Some (sent_fields flds)) []) (backend s))"
  unfolding ipc_Read_def
  by (rule kvs_codec.query_refines [OF writes_reqs(1) [OF assms(1)] reads_reqs(1) [OF assms(1)] srv_read_def])
    (simp_all add: assms(2))

lemma ipc_Scan_run:
  assumes "scan_req_ok table key len (sent_fields flds)"
    and "\<And>res b'. op_Scan ops table key len (Some (sent_fields flds)) [] (backend s) = (Inr (kOK, res), b')
      \<Longrightarrow> vector_ok kvs_ok res"
  shows "refines (ipc_Scan ops table key len flds result s)
    (remote_query (enc_scan_req table key len (sent_fields flds)) ''scan command failed''
      (enc_vector enc_kvs) status_of_result
      (op_Scan ops table key len (Some (sent_fields flds)) []) (backend s))"
  unfolding ipc_Scan_def
  by (rule rows_codec.query_refines [OF writes_reqs(2) [OF assms(1)] reads_reqs(2) [OF assms(1)] srv_scan_def])
    (simp_all add: assms(2))

lemma ipc_commands_run:
  assumes "values_req_ok table key values"
  shows "refines (ipc_Update ops table key values s)
      (remote_command (enc_values_req table key values) ''update command failed''
        (op_Update ops table key values) (backend s)) \<and>
    refines (ipc_Insert ops table key values s)
      (remote_command (enc_values_req table key values) ''insert command failed''
        (op_Insert ops table key values) (backend s)) \<and>
    refines (ipc_Delete ops table key s)
      (remote_command (enc_key_req table key) ''delete command failed''
        (op_Delete ops table key) (backend s))"
proof -
  have key: "key_req_ok table key" using assms by (simp add: key_req_ok_def values_req_ok_def)
  note vals = writes_reqs(3) [OF assms] reads_reqs(3) [OF assms]
  note keys = writes_reqs(4) [OF key] reads_reqs(4) [OF key]
  show ?thesis
    unfolding ipc_Update_def ipc_Insert_def ipc_Delete_def
    by (simp add: command_refines [OF vals srv_update_def] command_refines [OF vals srv_insert_def]
        command_refines [OF keys srv_del_def])
qed

lemmas example_simps = req_ok_defs codec_ok_defs enc_defs sent_fields_def refines_def
  remote_query_def remote_command_def fresh_session_def basic_db_ops_def basic_Read_def basic_Scan_def
  basic_Update_def basic_Insert_def basic_Delete_def thenM_def bindM_def out_def op_run

text \<open>
  C2: A read through the IPC server is one read of the backend on the server's side. When the
  request fits into the dataspace the client gets the backend's pairs in the backend's order, with
  the status decided by their number; a backend failure becomes the client's exception, and a
  request or an answer that does not fit leaves the client with a fault, never with a wrong answer.
\<close>

theorem ipc_Read_refines:
  assumes "read_req_ok table key (sent_fields flds)"
    and "\<And>res b'. op_Read ops table key (Some (sent_fields flds)) [] (backend s) = (Inr (kOK, res), b')
      \<Longrightarrow> kvs_ok res"
  shows "refines (ipc_Read ops table key flds result s)
    (remote_query (enc_read_req table key (sent_fields flds)) ''read command failed'' enc_kvs status_of_result
      (op_Read ops table key (Some (sent_fields flds)) []) (backend s))"
  by (rule ipc_Read_run [OF assms])

theorem ipc_Read_refines_witness:
  "fst (ipc_Read basic_db_ops ''t'' ''k'' (Some [''f'']) [] (fresh_session ''log'')) = Inr (kErrorNoData, [])"
proof -
  have "refines (ipc_Read basic_db_ops ''t'' ''k'' (Some [''f'']) [] (fresh_session ''log''))
    (remote_query (enc_read_req ''t'' ''k'' (sent_fields (Some [''f'']))) ''read command failed'' enc_kvs
      status_of_result (op_Read basic_db_ops ''t'' ''k'' (Some (sent_fields (Some [''f'']))) [])
      (backend (fresh_session ''log'')))"
    by (rule ipc_Read_refines) (auto simp: example_simps)
  then show ?thesis
    by (simp add: example_simps enc_read_req_def status_of_result_def kOK_def)
qed

text \<open>
  C13: A scan through the IPC server is one scan of the backend with the same start key, count and
  fields, and its rows arrive in the order the backend gave them; every failure ends in a fault.
\<close>

theorem ipc_Scan_refines:
  assumes "scan_req_ok table key len (sent_fields flds)"
    and "\<And>res b'. op_Scan ops table key len (Some (sent_fields flds)) [] (backend s) = (Inr (kOK, res), b')
      \<Longrightarrow> vector_ok kvs_ok res"
  shows "refines (ipc_Scan ops table key len flds result s)
    (remote_query (enc_scan_req table key len (sent_fields flds)) ''scan command failed''
      (enc_vector enc_kvs) status_of_result
      (op_Scan ops table key len (Some (sent_fields flds)) []) (backend s))"
  by (rule ipc_Scan_run [OF assms])

theorem ipc_Scan_refines_witness:
  "fst (ipc_Scan basic_db_ops ''t'' ''k'' 5 None [] (fresh_session ''log'')) = Inr (kErrorNoData, [])"
proof -
  have "refines (ipc_Scan basic_db_ops ''t'' ''k'' 5 None [] (fresh_session ''log''))
    (remote_query (enc_scan_req ''t'' ''k'' 5 (sent_fields None)) ''scan command failed''
      (enc_vector enc_kvs) status_of_result
      (op_Scan basic_db_ops ''t'' ''k'' 5 (Some (sent_fields None)) []) (backend (fresh_session ''log'')))"
    by (rule ipc_Scan_refines) (auto simp: example_simps int_min_def int_max_def)
  then show ?thesis
    by (simp add: example_simps enc_scan_req_def status_of_result_def kOK_def)
qed

text \<open>
  C14: An update, an insert and a delete through the IPC server are each exactly one such operation
  of the backend, on the same table, key and values; a non-zero status of the backend becomes an
  exception of the client and a request that does not fit leaves the backend untouched.
\<close>

theorem ipc_commands_refine:
  assumes "values_req_ok table key values"
  shows "refines (ipc_Update ops table key values s)
      (remote_command (enc_values_req table key values) ''update command failed''
        (op_Update ops table key values) (backend s)) \<and>
    refines (ipc_Insert ops table key values s)
      (remote_command (enc_values_req table key values) ''insert command failed''
        (op_Insert ops table key values) (backend s)) \<and>
    refines (ipc_Delete ops table key s)
      (remote_command (enc_key_req table key) ''delete command failed''
        (op_Delete ops table key) (backend s))"
  by (rule ipc_commands_run [OF assms])

theorem ipc_commands_refine_witness:
  "fst (ipc_Insert basic_db_ops ''t'' ''k'' [(''f'', ''v'')] (fresh_session ''log'')) = Inr kOK"
  using ipc_commands_refine [of "''t''" "''k''" "[(''f'', ''v'')]" basic_db_ops "fresh_session ''log''"]
  by (simp add: example_simps enc_values_req_def enc_key_req_def kOK_def)

text \<open>
  Creating the schema through the IPC server hands the file name and the table descriptions
  over unchanged, and creates nothing when the capability did not arrive or could not be attached.
\<close>

theorem ipc_CreateSchema_transfers:
  assumes "schema_req_ok filename tables"
    and "length (enc_schema_req filename tables) \<le> 1048576"
  shows "refines (ipc_CreateSchema create cap_received attach_rc filename tables s)
    (if \<not> cap_received \<or> attach_rc < 0 then (Inl (RuntimeError ''creating schema failed''), backend s)
     else case create filename tables (backend s) of
         (Inl e, b) \<Rightarrow> (Inl (ServerDied e), b)
       | (Inr u, b) \<Rightarrow> (Inr (), b))"
  unfolding ipc_CreateSchema_def by (rule schema_transfers [OF assms])

lemma srv_close_run:
  "srv_close detach_in detach_out s =
     (Inr (if detach_in < 0 \<or> detach_out < 0 then - L4_EINVAL else L4_EOK),
      s\<lparr>srv_in_map := srv_in_map s \<and> detach_in < 0,
        srv_out_map := srv_out_map s \<and> (detach_in < 0 \<or> detach_out < 0),
        srv_caps := srv_caps s \<and> (detach_in < 0 \<or> detach_out < 0)\<rparr>)"
  by (simp add: srv_close_def thenM_def bindM_def modifyM_def retM_def)

lemma ipc_Close_run:
  "ipc_Close srv_detach_in srv_detach_out detach_in detach_out s =
     (let t = snd (srv_close srv_detach_in srv_detach_out s); left = detach_in < 0 \<or> detach_out < 0 in
      (Inr (), t\<lparr>ds_in_obj := ds_in_obj s \<and> left, ds_out_obj := ds_out_obj s \<and> left,
        srv_thread := srv_thread s \<and> left, clt_in_map := clt_in_map s \<and> detach_in < 0,
        clt_out_map := clt_out_map s \<and> left, clt_caps := clt_caps s \<and> left,
        clt_gate := clt_gate s \<and> left, clt_ctx := clt_ctx s \<and> left\<rparr>))"
  by (simp add: ipc_Close_def srv_terminate_def srv_close_run thenM_def bindM_def modifyM_def retM_def)

lemma ipc_Init_takes:
  assumes "ipc_Init dbInit k s = (Inr (), t)"
  shows "holds_all t \<and> clt_gate t \<and> srv_object t"
  using assms
  by (auto simp: ipc_Init_def thenM_result_Inr open_dataspaces_run checked_call_def in_server_def
      srv_spawn_def bench_loop_def migrate_def liftM_def bindM_def thenM_def bench_new_run modifyM_def retM_def throwM_def
      L4_EOK_def L4_EACCESS_def holds_all_def split: if_splits sum.splits prod.splits)

theorem ipc_CreateSchema_transfers_witness:
  "fst (ipc_CreateSchema (\<lambda>_ _. retM ()) True 0 '':memory:'' [Table ''t'' [''f'']] (fresh_session ''log'')) = Inr ()"
  using ipc_CreateSchema_transfers [of "'':memory:''" "[Table ''t'' [''f'']]" "\<lambda>_ _. retM ()" True 0 "fresh_session ''log''"]
  by (simp add: example_simps enc_schema_req_def)



end
