(* ===== verification/IpcClient.thy ===== *)
theory IpcClient
  imports ClientSim Ipc
begin

text \<open>
  A benchmark client on the IPC backend: every call that \<open>Client\<close> of \<open>core/client.h\<close> makes for a
  workload is a request the messages can carry, so a run of turns over \<open>SqliteIpcDB\<close> and the server is
  the run over the abstract remote calls, which know no dataspaces and no bytes: the two backends are a
  \<open>backend_pair\<close> of \<open>ClientSim\<close>.
\<close>

section \<open>The abstract backend\<close>

definition remote_ops :: "'db db_ops \<Rightarrow> 'db db_ops" where
  "remote_ops ops = \<lparr>
     op_Read = (\<lambda>t k flds _. remote_query (enc_read_req t k (sent_fields flds)) ''read command failed''
       enc_kvs status_of_result (op_Read ops t k (Some (sent_fields flds)) [])),
     op_Scan = (\<lambda>t k len flds _. remote_query (enc_scan_req t k len (sent_fields flds)) ''scan command failed''
       (enc_vector enc_kvs) status_of_result (op_Scan ops t k len (Some (sent_fields flds)) [])),
     op_Update = (\<lambda>t k vs. remote_command (enc_values_req t k vs) ''update command failed'' (op_Update ops t k vs)),
     op_Insert = (\<lambda>t k vs. remote_command (enc_values_req t k vs) ''insert command failed'' (op_Insert ops t k vs)),
     op_Delete = (\<lambda>t k. remote_command (enc_key_req t k) ''delete command failed'' (op_Delete ops t k))\<rparr>"

text \<open>The answers of the backend have lengths that a \<open>size_t\<close> can hold.\<close>

definition answers_ok :: "'db db_ops \<Rightarrow> bool" where
  "answers_ok ops \<longleftrightarrow>
     (\<forall>t k fs b res b'. op_Read ops t k (Some fs) [] b = (Inr (kOK, res), b') \<longrightarrow> kvs_ok res) \<and>
     (\<forall>t k len fs b res b'. op_Scan ops t k len (Some fs) [] b = (Inr (kOK, res), b') \<longrightarrow> vector_ok kvs_ok res)"

lemma ipc_ops_refine:
  "answers_ok ops \<Longrightarrow> read_req_ok t k (sent_fields flds) \<Longrightarrow>
     refines (op_Read (ipc_db_ops ops) t k flds [] s) (op_Read (remote_ops ops) t k flds [] (backend s))"
  "answers_ok ops \<Longrightarrow> scan_req_ok t k len (sent_fields flds) \<Longrightarrow>
     refines (op_Scan (ipc_db_ops ops) t k len flds [] s) (op_Scan (remote_ops ops) t k len flds [] (backend s))"
  "values_req_ok t k vs \<Longrightarrow>
     refines (op_Update (ipc_db_ops ops) t k vs s) (op_Update (remote_ops ops) t k vs (backend s))"
  "values_req_ok t k vs \<Longrightarrow>
     refines (op_Insert (ipc_db_ops ops) t k vs s) (op_Insert (remote_ops ops) t k vs (backend s))"
proof -
  assume "answers_ok ops" "read_req_ok t k (sent_fields flds)"
  then show "refines (op_Read (ipc_db_ops ops) t k flds [] s) (op_Read (remote_ops ops) t k flds [] (backend s))"
    using ipc_Read_run [of t k flds ops s "[]"] unfolding answers_ok_def ipc_db_ops_def remote_ops_def
    by (simp, blast)
next
  assume "answers_ok ops" "scan_req_ok t k len (sent_fields flds)"
  then show "refines (op_Scan (ipc_db_ops ops) t k len flds [] s) (op_Scan (remote_ops ops) t k len flds [] (backend s))"
    using ipc_Scan_run [of t k len flds ops s "[]"] unfolding answers_ok_def ipc_db_ops_def remote_ops_def
    by (simp, blast)
qed (simp_all add: ipc_db_ops_def remote_ops_def ipc_commands_run)

lemma refines_same: "refines x y \<Longrightarrow> same_outcome (\<lambda>s b. backend s = b) x y"
  by (simp add: refines_def same_outcome_def)

lemma ipc_backend_pair: "answers_ok ops \<Longrightarrow> backend_pair (\<lambda>s b. backend s = b) (ipc_db_ops ops) (remote_ops ops)"
  by (unfold_locales; hypsubst; intro refines_same ipc_ops_refine)

text \<open>The client of the abstract backend that a client on the IPC backend stands for.\<close>

definition at_backend :: "('d, 'db session) client \<Rightarrow> ('d, 'db) client" where
  "at_backend c = \<lparr>c_wl = c_wl c, c_env = c_env c, c_db = backend (c_db c)\<rparr>"

lemma basic_answers_ok: "answers_ok basic_db_ops"
  by (auto simp: answers_ok_def basic_db_ops_def basic_Read_def basic_Scan_def out_def thenM_def bindM_def op_run
      kvs_ok_def vector_ok_def)

interpretation ipc_basic: backend_pair "\<lambda>s b. backend s = b" "ipc_db_ops basic_db_ops" "remote_ops basic_db_ops"
  by (rule ipc_backend_pair [OF basic_answers_ok])

text \<open>
  C7: The IPC backend is transparent to a benchmark. For a workload that was set up from properties
  every request a client thread makes can be carried by the messages, so its whole loop over
  \<open>SqliteIpcDB\<close>, the dataspaces and the server is the loop over the abstract remote calls: the same
  operations in the same order with the same results and faults, the same count of successes, and the
  same final state of the backend, of the workload and of the random sources.
\<close>

theorem ipc_client_transparent:
  assumes "wl_typed fp p (c_wl c)" and "string_ok (wl_table (c_wl c))" and "answers_ok ops"
  shows "map_prod id at_backend (client_loop (turn fp fuel (ipc_db_ops ops) is_loading) k oks c) =
    client_loop (turn fp fuel (remote_ops ops) is_loading) k oks (at_backend c)"
proof -
  from backend_pair.client_run [OF ipc_backend_pair [OF assms(3)] wl_typed_small [OF assms(1,2)],
      of "at_backend c" fp fuel is_loading k oks]
  obtain r d d' where "client_loop (turn fp fuel (ipc_db_ops ops) is_loading) k oks c = (r, d)"
    "client_loop (turn fp fuel (remote_ops ops) is_loading) k oks (at_backend c) = (r, d')"
    "c_wl d' = c_wl d" "c_env d' = c_env d" "backend (c_db d) = c_db d'"
    unfolding at_backend_def by auto
  then show ?thesis by (simp add: at_backend_def)
qed

theorem ipc_client_transparent_witness:
  "\<exists>w. Init toy_fp (sconst 7) toy_props toy_env = (Inr w, toy_env) \<and>
     map_prod id at_backend (client_loop (turn toy_fp 1 (ipc_db_ops basic_db_ops) False) 2 0
       \<lparr>c_wl = w, c_env = toy_env, c_db = fresh_session ''log''\<rparr>) =
     client_loop (turn toy_fp 1 (remote_ops basic_db_ops) False) 2 0
       \<lparr>c_wl = w, c_env = toy_env, c_db = ''log''\<rparr>"
proof -
  obtain w where w: "Init toy_fp (sconst 7) toy_props toy_env = (Inr w, toy_env)" "wl_typed toy_fp toy_props w"
    using toy_typed by blast
  then have "string_ok (wl_table w)"
    by (simp add: wl_typed_def toy_props_def GetProperty_def string_ok_def)
  with w show ?thesis
    using ipc_client_transparent [of toy_fp toy_props "\<lparr>c_wl = w, c_env = toy_env, c_db = fresh_session ''log''\<rparr>"
        basic_db_ops 1 False 2 0] basic_answers_ok
    by (auto simp: at_backend_def fresh_session_def)
qed

end
