(* ===== verification/Shm.thy ===== *)
theory Shm
  imports Requests BasicDB
begin

text \<open>
  The shared-memory backend: the server loop of \<open>server/sqlite-shm-srv/shm.cc\<close> and its client
  \<open>server/ycsbc-l4/db/sqlite_shm_db.cc\<close>. Two threads share two dataspaces and nothing else: byte 0
  of \<open>ds_in\<close> announces a request by its opcode, byte 0 of \<open>ds_out\<close> announces the answer, and the
  payloads start at offset 1. The threads are interleaved by the step relation \<open>shm_step\<close>, one step
  per access to a notification byte and one per pass over a payload; a round of a spin loop that
  finds the byte zero changes nothing and is no step. The acquire loads and release stores of the
  two bytes are taken to order the plain accesses around them, as the memory model says.
\<close>

section \<open>Requests and answers\<close>

datatype request =
    ReqRead string string "string list option"
  | ReqScan string string int "string list option"
  | ReqInsert string string fieldvals
  | ReqUpdate string string fieldvals
  | ReqDelete string string
  | ReqClose

datatype answer =
    AnsFields int fieldvals
  | AnsRows int "fieldvals list"
  | AnsStatus int

fun opcode :: "request \<Rightarrow> u8" where
  "opcode (ReqRead _ _ _) = char_byte CHR ''r''"
| "opcode (ReqScan _ _ _ _) = char_byte CHR ''s''"
| "opcode (ReqInsert _ _ _) = char_byte CHR ''i''"
| "opcode (ReqUpdate _ _ _) = char_byte CHR ''u''"
| "opcode (ReqDelete _ _) = char_byte CHR ''d''"
| "opcode ReqClose = char_byte CHR ''c''"

text \<open>What the client puts into the input dataspace before it announces the request.\<close>

fun ser_request :: "request \<Rightarrow> (serializer, unit) op" where
  "ser_request (ReqRead table key flds) = ser_read_req table key (sent_fields flds)"
| "ser_request (ReqScan table key len flds) = ser_scan_req table key len (sent_fields flds)"
| "ser_request (ReqInsert table key values) = ser_values_req table key values"
| "ser_request (ReqUpdate table key values) = ser_values_req table key values"
| "ser_request (ReqDelete table key) = ser_key_req table key"
| "ser_request ReqClose = retM ()"

text \<open>What the client reads from the output dataspace once the answer is announced.\<close>

fun de_answer :: "request \<Rightarrow> (deserializer, answer) op" where
  "de_answer (ReqRead _ _ _) =
     bindM de_kvs (\<lambda>result. retM (AnsFields (status_of_result result) result))"
| "de_answer (ReqScan _ _ _ _) =
     bindM (de_vector de_kvs) (\<lambda>result. retM (AnsRows (status_of_result result) result))"
| "de_answer _ = retM (AnsStatus kOK)"

section \<open>The two threads\<close>

datatype client_at =
    CltIdle
  | CltSend request
  | CltReady request
  | CltSpin request
  | CltAwake request
  | CltRecv request
  | CltClosed
  | CltFault fault

datatype server_at =
    SrvPoll
  | SrvWork u8
  | SrvReset
  | SrvNotify
  | SrvClosing
  | SrvClosed
  | SrvFault fault

text \<open>
  \<open>shm_log\<close> is not in the code: it collects the calls that returned to the client with what they
  returned, oldest first.
\<close>

record 'db shm =
  shm_in :: mem
  shm_out :: mem
  shm_db :: 'db
  clt_at :: client_at
  srv_at :: server_at
  shm_log :: "(request \<times> answer) list"

type_synonym ('db, 'a) shm_op = "('db shm, 'a) op"

definition on_shm_in :: "(mem, 'a) op \<Rightarrow> ('db, 'a) shm_op" where
  "on_shm_in m = onM shm_in (\<lambda>x. shm_in_update (\<lambda>_. x)) m"

definition on_shm_out :: "(mem, 'a) op \<Rightarrow> ('db, 'a) shm_op" where
  "on_shm_out m = onM shm_out (\<lambda>x. shm_out_update (\<lambda>_. x)) m"

definition on_shm_db :: "('db, 'a) op \<Rightarrow> ('db, 'a) shm_op" where
  "on_shm_db m = onM shm_db (\<lambda>x. shm_db_update (\<lambda>_. x)) m"

text \<open>The handlers of \<open>BenchServer\<close>, with the serializer and deserializer the loop builds.\<close>

definition shm_read :: "'db db_ops \<Rightarrow> ('db, int) shm_op" where
  "shm_read ops =
     bindM (on_shm_in (de_run 1 de_read_req)) (\<lambda>(table, key, fs).
     bindM (on_shm_db (op_Read ops table key (Some fs) [])) (\<lambda>(rc, result).
     if rc \<noteq> kOK then retM (- L4_EINVAL)
     else thenM (on_shm_out (ser_run 1 (YCSBC_DS_SIZE - 1) (ser_kvs result))) (retM L4_EOK)))"

definition shm_scan :: "'db db_ops \<Rightarrow> ('db, int) shm_op" where
  "shm_scan ops =
     bindM (on_shm_in (de_run 1 de_scan_req)) (\<lambda>(table, key, len, fs).
     bindM (on_shm_db (op_Scan ops table key len (Some fs) [])) (\<lambda>(rc, result).
     if rc \<noteq> kOK then retM (- L4_EINVAL)
     else thenM (on_shm_out (ser_run 1 (YCSBC_DS_SIZE - 1) (ser_vector ser_kvs result))) (retM L4_EOK)))"

definition shm_insert :: "'db db_ops \<Rightarrow> ('db, int) shm_op" where
  "shm_insert ops =
     bindM (on_shm_in (de_run 1 de_values_req)) (\<lambda>(table, key, values).
     bindM (on_shm_db (op_Insert ops table key values)) (\<lambda>rc.
     if rc \<noteq> kOK then retM (- L4_EINVAL) else retM L4_EOK))"

definition shm_update :: "'db db_ops \<Rightarrow> ('db, int) shm_op" where
  "shm_update ops =
     bindM (on_shm_in (de_run 1 de_values_req)) (\<lambda>(table, key, values).
     bindM (on_shm_db (op_Update ops table key values)) (\<lambda>rc.
     if rc \<noteq> kOK then retM (- L4_EINVAL) else retM L4_EOK))"

definition shm_del :: "'db db_ops \<Rightarrow> ('db, int) shm_op" where
  "shm_del ops =
     bindM (on_shm_in (de_run 1 de_key_req)) (\<lambda>(table, key).
     bindM (on_shm_db (op_Delete ops table key)) (\<lambda>rc.
     if rc \<noteq> kOK then retM (- L4_EINVAL) else retM L4_EOK))"

text \<open>
  The \<open>switch\<close> of the loop for every opcode but \<open>'c'\<close>, with the check of the handler's result.
\<close>

definition shm_dispatch :: "'db db_ops \<Rightarrow> u8 \<Rightarrow> ('db, unit) shm_op" where
  "shm_dispatch ops opc =
     bindM
      (if opc = 0 then throwM (RuntimeError ''unreachable'')
       else if opc = char_byte CHR ''r'' then shm_read ops
       else if opc = char_byte CHR ''s'' then shm_scan ops
       else if opc = char_byte CHR ''i'' then shm_insert ops
       else if opc = char_byte CHR ''u'' then shm_update ops
       else if opc = char_byte CHR ''d'' then shm_del ops
       else throwM (RuntimeError ''invalid opcode''))
      (\<lambda>rc. if rc \<noteq> L4_EOK then throwM (RuntimeError ''operation failed'') else retM ())"

text \<open>A handler that returns leads to the reset of the input byte, a fault ends the server.\<close>

definition srv_work :: "'db db_ops \<Rightarrow> u8 \<Rightarrow> 'db shm \<Rightarrow> 'db shm" where
  "srv_work ops opc s =
     (case shm_dispatch ops opc s of
        (Inl e, t) \<Rightarrow> t\<lparr>srv_at := SrvFault e\<rparr>
      | (Inr _, t) \<Rightarrow> t\<lparr>srv_at := SrvReset\<rparr>)"

text \<open>The client's pass over the input payload, and over the output payload.\<close>

definition clt_send :: "request \<Rightarrow> 'db shm \<Rightarrow> 'db shm" where
  "clt_send r s =
     (case on_shm_in (ser_run 1 (YCSBC_DS_SIZE - 1) (ser_request r)) s of
        (Inl e, t) \<Rightarrow> t\<lparr>clt_at := CltFault e\<rparr>
      | (Inr _, t) \<Rightarrow> t\<lparr>clt_at := CltReady r\<rparr>)"

definition clt_receive :: "request \<Rightarrow> 'db shm \<Rightarrow> 'db shm" where
  "clt_receive r s =
     (if r = ReqClose then s\<lparr>clt_at := CltClosed\<rparr>
      else case on_shm_out (de_run 1 (de_answer r)) s of
        (Inl e, t) \<Rightarrow> t\<lparr>clt_at := CltFault e\<rparr>
      | (Inr a, t) \<Rightarrow> t\<lparr>clt_at := CltIdle, shm_log := shm_log t @ [(r, a)]\<rparr>)"

text \<open>
  Values a running program can hold, as for the IPC messages.
\<close>

fun request_ok :: "request \<Rightarrow> bool" where
  "request_ok (ReqRead table key flds) = read_req_ok table key (sent_fields flds)"
| "request_ok (ReqScan table key len flds) = scan_req_ok table key len (sent_fields flds)"
| "request_ok (ReqInsert table key values) = values_req_ok table key values"
| "request_ok (ReqUpdate table key values) = values_req_ok table key values"
| "request_ok (ReqDelete table key) = key_req_ok table key"
| "request_ok ReqClose = True"

definition flag_set :: "u8 \<Rightarrow> mem \<Rightarrow> mem" where
  "flag_set b m = m(0 := b)"

inductive shm_step :: "'db db_ops \<Rightarrow> 'db shm \<Rightarrow> 'db shm \<Rightarrow> bool" for ops where
  clt_call: "clt_at s = CltIdle \<Longrightarrow> request_ok r \<Longrightarrow> shm_step ops s (s\<lparr>clt_at := CltSend r\<rparr>)"
| clt_serialize: "clt_at s = CltSend r \<Longrightarrow> shm_step ops s (clt_send r s)"
| clt_announce: "clt_at s = CltReady r \<Longrightarrow>
    shm_step ops s (s\<lparr>clt_at := CltSpin r, shm_in := flag_set (opcode r) (shm_in s)\<rparr>)"
| clt_wake: "clt_at s = CltSpin r \<Longrightarrow> shm_out s 0 \<noteq> 0 \<Longrightarrow> shm_step ops s (s\<lparr>clt_at := CltAwake r\<rparr>)"
| clt_reset: "clt_at s = CltAwake r \<Longrightarrow>
    shm_step ops s (s\<lparr>clt_at := CltRecv r, shm_out := flag_set 0 (shm_out s)\<rparr>)"
| clt_return: "clt_at s = CltRecv r \<Longrightarrow> shm_step ops s (clt_receive r s)"
| srv_take: "srv_at s = SrvPoll \<Longrightarrow> shm_in s 0 \<noteq> 0 \<Longrightarrow>
    shm_step ops s (s\<lparr>srv_at := SrvWork (shm_in s 0)\<rparr>)"
| srv_serve: "srv_at s = SrvWork opc \<Longrightarrow> opc \<noteq> char_byte CHR ''c'' \<Longrightarrow>
    shm_step ops s (srv_work ops opc s)"
| srv_reset: "srv_at s = SrvReset \<Longrightarrow>
    shm_step ops s (s\<lparr>srv_at := SrvNotify, shm_in := flag_set 0 (shm_in s)\<rparr>)"
| srv_notify: "srv_at s = SrvNotify \<Longrightarrow>
    shm_step ops s (s\<lparr>srv_at := SrvPoll, shm_out := flag_set 1 (shm_out s)\<rparr>)"
| srv_ack_close: "srv_at s = SrvWork opc \<Longrightarrow> opc = char_byte CHR ''c'' \<Longrightarrow>
    shm_step ops s (s\<lparr>srv_at := SrvClosing, shm_out := flag_set 1 (shm_out s)\<rparr>)"
| srv_detached: "srv_at s = SrvClosing \<Longrightarrow> shm_step ops s (s\<lparr>srv_at := SrvClosed\<rparr>)"
| srv_detach_failed: "srv_at s = SrvClosing \<Longrightarrow>
    shm_step ops s (s\<lparr>srv_at := SrvFault (RuntimeError ''failed to close BenchServer'')\<rparr>)"

text \<open>
  \<open>Init\<close> resets the first byte of the input dataspace; a fresh dataspace is zeroed by the kernel, so
  the first byte of the output dataspace is zero as well.
\<close>

definition shm_init :: "mem \<Rightarrow> mem \<Rightarrow> 'db \<Rightarrow> 'db shm" where
  "shm_init din dout db =
     \<lparr>shm_in = flag_set 0 din, shm_out = dout, shm_db = db, clt_at = CltIdle, srv_at = SrvPoll,
      shm_log = []\<rparr>"

definition shm_reachable :: "'db db_ops \<Rightarrow> 'db \<Rightarrow> 'db shm \<Rightarrow> bool" where
  "shm_reachable ops db s \<longleftrightarrow>
     (\<exists>din dout. dout 0 = 0 \<and> (shm_step ops)\<^sup>*\<^sup>* (shm_init din dout db) s)"


section \<open>What the calls are meant to do\<close>

text \<open>One call is one operation of the backend, and its answer must fit into the window.\<close>

definition serve_query ::
  "('r \<Rightarrow> u8 list) \<Rightarrow> ('r \<Rightarrow> answer) \<Rightarrow> ('db, int \<times> 'r) op \<Rightarrow> ('db, answer) op" where
  "serve_query enc mk f b =
     (case f b of
        (Inl e, b') \<Rightarrow> (Inl e, b')
      | (Inr (rc, res), b') \<Rightarrow>
          (if rc \<noteq> kOK then Inl (RuntimeError ''operation failed'')
           else if 1048575 < length (enc res) then Inl overflow_fault
           else Inr (mk res), b'))"

definition serve_command :: "('db, int) op \<Rightarrow> ('db, answer) op" where
  "serve_command f b =
     (case f b of
        (Inl e, b') \<Rightarrow> (Inl e, b')
      | (Inr rc, b') \<Rightarrow>
          (if rc \<noteq> kOK then Inl (RuntimeError ''operation failed'') else Inr (AnsStatus kOK), b'))"

definition fields_answer :: "fieldvals \<Rightarrow> answer" where
  "fields_answer res = AnsFields (status_of_result res) res"

definition rows_answer :: "fieldvals list \<Rightarrow> answer" where
  "rows_answer res = AnsRows (status_of_result res) res"

fun shm_serve :: "'db db_ops \<Rightarrow> request \<Rightarrow> ('db, answer) op" where
  "shm_serve ops (ReqRead table key flds) =
     serve_query enc_kvs fields_answer (op_Read ops table key (Some (sent_fields flds)) [])"
| "shm_serve ops (ReqScan table key len flds) =
     serve_query (enc_vector enc_kvs) rows_answer
       (op_Scan ops table key len (Some (sent_fields flds)) [])"
| "shm_serve ops (ReqInsert table key values) = serve_command (op_Insert ops table key values)"
| "shm_serve ops (ReqUpdate table key values) = serve_command (op_Update ops table key values)"
| "shm_serve ops (ReqDelete table key) = serve_command (op_Delete ops table key)"
| "shm_serve ops ReqClose = retM (AnsStatus kOK)"

text \<open>
  Running the logged calls one after the other on the database: \<open>Some\<close> of the database they leave,
  when each of them gives the logged answer.
\<close>

fun replay :: "'db db_ops \<Rightarrow> (request \<times> answer) list \<Rightarrow> 'db \<Rightarrow> 'db option" where
  "replay ops [] b = Some b"
| "replay ops ((r, a) # h) b =
     (case shm_serve ops r b of
        (Inl _, _) \<Rightarrow> None
      | (Inr a', b') \<Rightarrow> if a' = a then replay ops h b' else None)"

lemma replay_snoc:
  "replay ops h b = Some d \<Longrightarrow> shm_serve ops r d = (Inr a, d') \<Longrightarrow>
     replay ops (h @ [(r, a)]) b = Some d'"
  by (induction h arbitrary: b) (auto split: prod.splits sum.splits if_splits)

fun enc_request :: "request \<Rightarrow> u8 list" where
  "enc_request (ReqRead table key flds) = enc_read_req table key (sent_fields flds)"
| "enc_request (ReqScan table key len flds) = enc_scan_req table key len (sent_fields flds)"
| "enc_request (ReqInsert table key values) = enc_values_req table key values"
| "enc_request (ReqUpdate table key values) = enc_values_req table key values"
| "enc_request (ReqDelete table key) = enc_key_req table key"
| "enc_request ReqClose = []"

fun enc_answer :: "answer \<Rightarrow> u8 list" where
  "enc_answer (AnsFields _ res) = enc_kvs res"
| "enc_answer (AnsRows _ res) = enc_vector enc_kvs res"
| "enc_answer (AnsStatus _) = []"

text \<open>The backend returns values that a program can hold.\<close>

definition backend_ok :: "'db db_ops \<Rightarrow> bool" where
  "backend_ok ops \<longleftrightarrow>
     (\<forall>table key fs b res b'. op_Read ops table key (Some fs) [] b = (Inr (kOK, res), b') \<longrightarrow>
        kvs_ok res) \<and>
     (\<forall>table key len fs b res b'.
        op_Scan ops table key len (Some fs) [] b = (Inr (kOK, res), b') \<longrightarrow> vector_ok kvs_ok res)"

lemma backend_ok_read:
  "backend_ok ops \<Longrightarrow> op_Read ops table key (Some fs) [] b = (Inr (kOK, res), b') \<Longrightarrow> kvs_ok res"
  unfolding backend_ok_def by blast

lemma backend_ok_scan:
  "backend_ok ops \<Longrightarrow> op_Scan ops table key len (Some fs) [] b = (Inr (kOK, res), b') \<Longrightarrow>
     vector_ok kvs_ok res"
  unfolding backend_ok_def by blast

section \<open>One pass over a payload\<close>

text \<open>\<open>holds_at ds bs\<close>: the window of the dataspace starts with the bytes \<open>bs\<close>.\<close>

definition holds_at :: "mem \<Rightarrow> u8 list \<Rightarrow> bool" where
  "holds_at ds bs \<longleftrightarrow> length bs \<le> 1048575 \<and> read_bytes 1 (length bs) ds = bs"

lemma window_size [simp]: "unat (YCSBC_DS_SIZE - 1) = 1048575"
  by (simp add: YCSBC_DS_SIZE_def)

lemma before_window [simp]: "unat (- 1 :: u64) = 18446744073709551615"
  by (simp add: unsigned_minus_1_eq_mask mask_nat_def)

lemma flag_set_0 [simp]: "flag_set b ds 0 = b"
  by (simp add: flag_set_def)

lemma holds_at_flag_set [simp]: "holds_at (flag_set b ds) bs = holds_at ds bs"
proof -
  have "flag_set b ds (1 + of_nat i) = ds (1 + of_nat i)" if "i < 1048575" for i
  proof -
    have "(1::u64) + of_nat i = of_nat (Suc i)" by simp
    moreover have "unat (of_nat (Suc i) :: u64) = Suc i"
      using that by (simp only: unat_of_nat) simp
    ultimately have "(1::u64) + of_nat i \<noteq> 0" by (metis Zero_not_Suc unsigned_0)
    then show ?thesis by (simp add: flag_set_def)
  qed
  then have "read_bytes 1 (length bs) (flag_set b ds) = read_bytes 1 (length bs) ds"
    if "length bs \<le> 1048575" using that by (intro read_bytes_cong) simp
  then show ?thesis by (auto simp: holds_at_def)
qed

lemma ser_window_fits:
  assumes "writes ser bs" and "length bs \<le> 1048575"
  shows "\<exists>ds'. ser_run 1 (YCSBC_DS_SIZE - 1) ser ds = (Inr (), ds') \<and> holds_at ds' bs \<and> ds' 0 = ds 0"
proof -
  have "ser_run 1 (YCSBC_DS_SIZE - 1) ser ds = (Inr (), write_bytes 1 bs ds)"
    using ser_run_fits [OF assms(1)] assms(2) by simp
  moreover from this have "write_bytes 1 bs ds 0 = ds 0"
    using ser_run_outside [OF assms(1), of "YCSBC_DS_SIZE - 1" 0 1 ds] by simp
  ultimately show ?thesis
    using assms(2) by (simp add: holds_at_def read_write_bytes)
qed

lemma ser_window_full:
  assumes "writes ser bs" and "1048575 < length bs"
  shows "\<exists>ds'. ser_run 1 (YCSBC_DS_SIZE - 1) ser ds = (Inl overflow_fault, ds') \<and> ds' 0 = ds 0"
  using ser_run_full [OF assms(1), of "YCSBC_DS_SIZE - 1" 1 ds] assms(2)
    ser_run_outside [OF assms(1), of "YCSBC_DS_SIZE - 1" 0 1 ds]
  by (cases "ser_run 1 (YCSBC_DS_SIZE - 1) ser ds") simp

lemma de_window: "reads de bs x \<Longrightarrow> holds_at ds bs \<Longrightarrow> de_run 1 de ds = (Inr x, ds)"
  by (auto simp: holds_at_def intro: de_run_image)

lemma writes_request: "request_ok r \<Longrightarrow> writes (ser_request r) (enc_request r)"
  by (cases r) (simp_all add: writes_reqs writes_retM)


text \<open>
  The server's pass: when the input window holds a request, the handler answers what the abstract
  call answers, moves the backend as it does, and puts the encoded answer into the output window.
  No notification byte changes.
\<close>

definition served :: "'db db_ops \<Rightarrow> request \<Rightarrow> 'db \<Rightarrow> 'db shm \<Rightarrow> bool" where
  "served ops r d s \<longleftrightarrow>
     (\<exists>a. shm_serve ops r d = (Inr a, shm_db s) \<and> holds_at (shm_out s) (enc_answer a))"

definition dispatched :: "'db db_ops \<Rightarrow> request \<Rightarrow> 'db shm \<Rightarrow> (fault + unit) \<times> 'db shm \<Rightarrow> bool" where
  "dispatched ops r s rt \<longleftrightarrow>
     (\<exists>dout. snd rt = s\<lparr>shm_db := snd (shm_serve ops r (shm_db s)), shm_out := dout\<rparr> \<and>
        dout 0 = shm_out s 0 \<and>
        (case fst (shm_serve ops r (shm_db s)) of
           Inl e \<Rightarrow> fst rt = Inl e
         | Inr a \<Rightarrow> fst rt = Inr () \<and> holds_at dout (enc_answer a)))"

context codec
begin

lemma query_dispatched:
  assumes run: "on_shm_in (de_run 1 dreq) s = (Inr x, s)"
    and g: "g x = bindM (on_shm_db f) (\<lambda>(rc, result).
      if rc \<noteq> kOK then retM (- L4_EINVAL)
      else thenM (on_shm_out (ser_run 1 (YCSBC_DS_SIZE - 1) (ser result))) (retM L4_EOK))"
    and r: "shm_serve ops r = serve_query enc mk f" "\<And>res. enc_answer (mk res) = enc res"
    and ok: "\<And>res b'. f (shm_db s) = (Inr (kOK, res), b') \<Longrightarrow> ok res"
  shows "dispatched ops r s (bindM (bindM (on_shm_in (de_run 1 dreq)) g)
    (\<lambda>rc. if rc \<noteq> L4_EOK then throwM (RuntimeError ''operation failed'') else retM ()) s)"
proof -
  obtain u b' where f: "f (shm_db s) = (u, b')" by fastforce
  let ?s = "s\<lparr>shm_db := b'\<rparr>"
  have db: "on_shm_db f s = (u, ?s)" using f by (simp add: on_shm_db_def op_simps)
  show ?thesis
  proof (cases "\<exists>res. u = Inr (kOK, res)")
    case True
    then obtain res where u: "u = Inr (kOK, res)" by blast
    then have "writes (ser res) (enc res)" using ok f ser_writes by simp
    note fits = ser_window_fits [OF this, of "shm_out s"] and full = ser_window_full [OF this, of "shm_out s"]
    show ?thesis
      using run g r db f u fits full
      by (cases "length (enc res) \<le> 1048575")
        (auto simp: dispatched_def serve_query_def bindM_def thenM_def retM_def on_shm_out_def onM_def)
  next
    case False
    then show ?thesis
      using run g r db f
      by (auto simp: dispatched_def serve_query_def bindM_def retM_def throwM_def L4_EOK_def
          L4_EINVAL_def intro!: exI [of _ "shm_out s"] split: sum.splits)
  qed
qed

end

lemma command_dispatched:
  assumes "on_shm_in (de_run 1 dreq) s = (Inr x, s)"
    and "g x = bindM (on_shm_db f) (\<lambda>rc. if rc \<noteq> kOK then retM (- L4_EINVAL) else retM L4_EOK)"
    and "shm_serve ops r = serve_command f" and "holds_at (shm_out s) []"
  shows "dispatched ops r s (bindM (bindM (on_shm_in (de_run 1 dreq)) g)
    (\<lambda>rc. if rc \<noteq> L4_EOK then throwM (RuntimeError ''operation failed'') else retM ()) s)"
  using assms
  by (auto simp: dispatched_def serve_command_def bindM_def retM_def throwM_def L4_EOK_def
      L4_EINVAL_def on_shm_db_def onM_def intro!: exI [of _ "shm_out s"] split: sum.splits prod.splits)

lemma holds_at_Nil [simp]: "holds_at ds []"
  by (simp add: holds_at_def)

lemma opcode_bytes:
  "char_byte CHR ''r'' = 114" "char_byte CHR ''s'' = 115" "char_byte CHR ''i'' = 105"
  "char_byte CHR ''u'' = 117" "char_byte CHR ''d'' = 100" "char_byte CHR ''c'' = 99"
  by (simp_all add: char_byte_def char_code_def)

lemma opcode_nonzero [simp]: "opcode r \<noteq> 0"
  by (cases r) (simp_all add: opcode_bytes)

lemma opcode_close [simp]: "opcode r = char_byte CHR ''c'' \<longleftrightarrow> r = ReqClose"
  by (cases r) (simp_all add: opcode_bytes)

lemma shm_dispatch_request:
  assumes ok: "request_ok r" and r: "r \<noteq> ReqClose" and be: "backend_ok ops"
    and held: "holds_at (shm_in s) (enc_request r)"
  shows "dispatched ops r s (shm_dispatch ops (opcode r) s)"
proof (cases r)
  case (ReqRead table key flds)
  have run: "on_shm_in (de_run 1 de_read_req) s = (Inr (table, key, sent_fields flds), s)"
    using de_window [OF reads_reqs(1)] ok held ReqRead by (simp add: on_shm_in_def op_simps)
  show ?thesis
    unfolding shm_dispatch_def using be
    by (simp add: ReqRead opcode_bytes shm_read_def)
      (rule kvs_codec.query_dispatched [OF run], auto simp: fields_answer_def intro: backend_ok_read)
next
  case (ReqScan table key len flds)
  have run: "on_shm_in (de_run 1 de_scan_req) s = (Inr (table, key, len, sent_fields flds), s)"
    using de_window [OF reads_reqs(2)] ok held ReqScan by (simp add: on_shm_in_def op_simps)
  show ?thesis
    unfolding shm_dispatch_def using be
    by (simp add: ReqScan opcode_bytes shm_scan_def)
      (rule rows_codec.query_dispatched [OF run], auto simp: rows_answer_def intro: backend_ok_scan)
next
  case (ReqInsert table key vs)
  have run: "on_shm_in (de_run 1 de_values_req) s = (Inr (table, key, vs), s)"
    using de_window [OF reads_reqs(3)] ok held ReqInsert by (simp add: on_shm_in_def op_simps)
  show ?thesis
    unfolding shm_dispatch_def
    by (simp add: ReqInsert opcode_bytes shm_insert_def) (rule command_dispatched [OF run], auto)
next
  case (ReqUpdate table key vs)
  have run: "on_shm_in (de_run 1 de_values_req) s = (Inr (table, key, vs), s)"
    using de_window [OF reads_reqs(3)] ok held ReqUpdate by (simp add: on_shm_in_def op_simps)
  show ?thesis
    unfolding shm_dispatch_def
    by (simp add: ReqUpdate opcode_bytes shm_update_def) (rule command_dispatched [OF run], auto)
next
  case (ReqDelete table key)
  have run: "on_shm_in (de_run 1 de_key_req) s = (Inr (table, key), s)"
    using de_window [OF reads_reqs(4)] ok held ReqDelete by (simp add: on_shm_in_def op_simps)
  show ?thesis
    unfolding shm_dispatch_def
    by (simp add: ReqDelete opcode_bytes shm_del_def) (rule command_dispatched [OF run], auto)
qed (simp add: r)

text \<open>The client's pass over an answer that is there.\<close>

lemma clt_receive_answer:
  assumes "shm_serve ops r d = (Inr a, d')" and "backend_ok ops" and "r \<noteq> ReqClose"
    and "holds_at (shm_out s) (enc_answer a)"
  shows "clt_receive r s = s\<lparr>clt_at := CltIdle, shm_log := shm_log s @ [(r, a)]\<rparr>"
proof -
  have "reads (de_answer r) (enc_answer a) a"
  proof (cases r)
    case (ReqRead table key flds)
    then obtain res where res: "a = fields_answer res" "kvs_ok res"
      using assms(1,2)
      by (auto simp: serve_query_def dest: backend_ok_read split: prod.splits sum.splits if_splits)
    then show ?thesis
      by (auto simp: ReqRead fields_answer_def intro!: reads_bindM_ret kvs_codec.de_reads)
  next
    case (ReqScan table key len flds)
    then obtain res where res: "a = rows_answer res" "vector_ok kvs_ok res"
      using assms(1,2)
      by (auto simp: serve_query_def dest: backend_ok_scan split: prod.splits sum.splits if_splits)
    then show ?thesis
      by (auto simp: ReqScan rows_answer_def intro!: reads_bindM_ret rows_codec.de_reads)
  qed (use assms in \<open>auto simp: serve_command_def reads_retM split: prod.splits sum.splits if_splits\<close>)
  from de_window [OF this assms(4)] show ?thesis
    using assms(3) by (simp add: clt_receive_def on_shm_out_def op_simps)
qed


section \<open>The protocol invariant\<close>

definition quiet :: "'db shm \<Rightarrow> bool" where
  "quiet s \<longleftrightarrow> shm_in s 0 = 0 \<and> shm_out s 0 = 0"

definition placed :: "request \<Rightarrow> 'db shm \<Rightarrow> bool" where
  "placed r s \<longleftrightarrow> request_ok r \<and> holds_at (shm_in s) (enc_request r)"

text \<open>
  The phases of a session, where \<open>d\<close> is the database after the calls that have returned. There is
  one phase for each pair of program points the two threads can be at together.
\<close>

inductive shm_phase :: "'db db_ops \<Rightarrow> 'db \<Rightarrow> 'db shm \<Rightarrow> bool" for ops d where
  ph_idle: "clt_at s = CltIdle \<Longrightarrow> srv_at s = SrvPoll \<Longrightarrow> quiet s \<Longrightarrow> shm_db s = d \<Longrightarrow>
    shm_phase ops d s"
| ph_send: "clt_at s = CltSend r \<Longrightarrow> srv_at s = SrvPoll \<Longrightarrow> quiet s \<Longrightarrow> request_ok r \<Longrightarrow>
    shm_db s = d \<Longrightarrow> shm_phase ops d s"
| ph_ready: "clt_at s = CltReady r \<Longrightarrow> srv_at s = SrvPoll \<Longrightarrow> quiet s \<Longrightarrow> placed r s \<Longrightarrow>
    shm_db s = d \<Longrightarrow> shm_phase ops d s"
| ph_refused: "clt_at s = CltFault overflow_fault \<Longrightarrow> srv_at s = SrvPoll \<Longrightarrow> quiet s \<Longrightarrow>
    shm_db s = d \<Longrightarrow> shm_phase ops d s"
| ph_posted: "clt_at s = CltSpin r \<Longrightarrow> srv_at s = SrvPoll \<or> srv_at s = SrvWork (opcode r) \<Longrightarrow>
    shm_in s 0 = opcode r \<Longrightarrow> shm_out s 0 = 0 \<Longrightarrow> placed r s \<Longrightarrow> shm_db s = d \<Longrightarrow> shm_phase ops d s"
| ph_served: "clt_at s = CltSpin r \<Longrightarrow> srv_at s = SrvReset \<Longrightarrow> shm_out s 0 = 0 \<Longrightarrow>
    r \<noteq> ReqClose \<Longrightarrow> served ops r d s \<Longrightarrow> shm_phase ops d s"
| ph_cleared: "clt_at s = CltSpin r \<Longrightarrow> srv_at s = SrvNotify \<Longrightarrow> quiet s \<Longrightarrow>
    r \<noteq> ReqClose \<Longrightarrow> served ops r d s \<Longrightarrow> shm_phase ops d s"
| ph_notified: "clt_at s = CltSpin r \<or> clt_at s = CltAwake r \<Longrightarrow> srv_at s = SrvPoll \<Longrightarrow>
    shm_in s 0 = 0 \<Longrightarrow> shm_out s 0 = 1 \<Longrightarrow> r \<noteq> ReqClose \<Longrightarrow> served ops r d s \<Longrightarrow> shm_phase ops d s"
| ph_recv: "clt_at s = CltRecv r \<Longrightarrow> srv_at s = SrvPoll \<Longrightarrow> quiet s \<Longrightarrow>
    r \<noteq> ReqClose \<Longrightarrow> served ops r d s \<Longrightarrow> shm_phase ops d s"
| ph_hung: "clt_at s = CltSpin r \<Longrightarrow> srv_at s = SrvFault e \<Longrightarrow> shm_out s 0 = 0 \<Longrightarrow>
    r \<noteq> ReqClose \<Longrightarrow> shm_serve ops r d = (Inl e, shm_db s) \<Longrightarrow> shm_phase ops d s"
| ph_closing: "clt_at s = CltSpin ReqClose \<or> clt_at s = CltAwake ReqClose \<Longrightarrow> shm_out s 0 = 1 \<Longrightarrow>
    srv_at s = SrvClosing \<or> srv_at s = SrvClosed \<or>
      srv_at s = SrvFault (RuntimeError ''failed to close BenchServer'') \<Longrightarrow>
    shm_db s = d \<Longrightarrow> shm_phase ops d s"
| ph_closed: "clt_at s = CltRecv ReqClose \<or> clt_at s = CltClosed \<Longrightarrow>
    srv_at s = SrvClosing \<or> srv_at s = SrvClosed \<or>
      srv_at s = SrvFault (RuntimeError ''failed to close BenchServer'') \<Longrightarrow>
    shm_db s = d \<Longrightarrow> shm_phase ops d s"

inductive_cases phase_cases: "shm_phase ops d s"

lemma quiet_marks [simp]:
  "quiet (s\<lparr>clt_at := c\<rparr>) = quiet s" "quiet (s\<lparr>srv_at := v\<rparr>) = quiet s"
  "quiet (s\<lparr>shm_log := l\<rparr>) = quiet s" "quiet (s\<lparr>shm_db := b\<rparr>) = quiet s"
  by (simp_all add: quiet_def)

lemma placed_marks [simp]:
  "placed r (s\<lparr>clt_at := c\<rparr>) = placed r s" "placed r (s\<lparr>srv_at := v\<rparr>) = placed r s"
  "placed r (s\<lparr>shm_in := flag_set b (shm_in s)\<rparr>) = placed r s"
  by (simp_all add: placed_def)

lemma served_marks [simp]:
  "served ops r d (s\<lparr>clt_at := c\<rparr>) = served ops r d s"
  "served ops r d (s\<lparr>srv_at := v\<rparr>) = served ops r d s"
  "served ops r d (s\<lparr>shm_in := din\<rparr>) = served ops r d s"
  "served ops r d (s\<lparr>shm_out := flag_set b (shm_out s)\<rparr>) = served ops r d s"
  by (simp_all add: served_def)

lemma clt_send_phase:
  assumes "request_ok r" and "quiet s" and "srv_at s = SrvPoll" and "shm_db s = d"
  shows "shm_phase ops d (clt_send r s) \<and> shm_log (clt_send r s) = shm_log s"
proof (cases "length (enc_request r) \<le> 1048575")
  case True
  with ser_window_fits [OF writes_request [OF assms(1)], of "shm_in s"] obtain din where
    "ser_run 1 (YCSBC_DS_SIZE - 1) (ser_request r) (shm_in s) = (Inr (), din)"
    and "holds_at din (enc_request r)" "din 0 = shm_in s 0" by blast
  with assms have "clt_send r s = s\<lparr>shm_in := din, clt_at := CltReady r\<rparr>"
    and "shm_phase ops d (s\<lparr>shm_in := din, clt_at := CltReady r\<rparr>)"
    by (auto simp: clt_send_def on_shm_in_def onM_def placed_def quiet_def intro!: ph_ready)
  then show ?thesis by simp
next
  case False
  with ser_window_full [OF writes_request [OF assms(1)], of "shm_in s"] obtain din where
    "ser_run 1 (YCSBC_DS_SIZE - 1) (ser_request r) (shm_in s) = (Inl overflow_fault, din)"
    and "din 0 = shm_in s 0" by auto
  with assms have "clt_send r s = s\<lparr>shm_in := din, clt_at := CltFault overflow_fault\<rparr>"
    and "shm_phase ops d (s\<lparr>shm_in := din, clt_at := CltFault overflow_fault\<rparr>)"
    by (auto simp: clt_send_def on_shm_in_def onM_def quiet_def intro!: ph_refused)
  then show ?thesis by simp
qed

lemma srv_work_phase:
  assumes "backend_ok ops" and "placed r s" and "r \<noteq> ReqClose" and "clt_at s = CltSpin r"
    and "shm_out s 0 = 0"
  shows "shm_phase ops (shm_db s) (srv_work ops (opcode r) s) \<and>
    shm_log (srv_work ops (opcode r) s) = shm_log s"
proof -
  have "dispatched ops r s (shm_dispatch ops (opcode r) s)"
    using assms by (intro shm_dispatch_request) (auto simp: placed_def)
  then obtain u dout where u: "shm_dispatch ops (opcode r) s =
      (u, s\<lparr>shm_db := snd (shm_serve ops r (shm_db s)), shm_out := dout\<rparr>)"
    and dout: "dout 0 = 0" and res: "case fst (shm_serve ops r (shm_db s)) of
      Inl e \<Rightarrow> u = Inl e | Inr a \<Rightarrow> u = Inr () \<and> holds_at dout (enc_answer a)"
    using assms(5) unfolding dispatched_def by (metis prod.collapse)
  show ?thesis
  proof (cases "shm_serve ops r (shm_db s)")
    case (Pair v b')
    show ?thesis
    proof (cases v)
      case (Inl e)
      with Pair u res dout assms show ?thesis
        by (auto simp: srv_work_def intro: ph_hung)
    next
      case (Inr a)
      with Pair u res dout assms show ?thesis
        by (auto simp: srv_work_def served_def intro: ph_served)
    qed
  qed
qed

text \<open>
  A step keeps the phase and logs nothing, or it is the return of a call, which was the operation
  from \<open>d\<close> on.
\<close>

lemma phase_step_local:
  assumes "shm_step ops s t" and "shm_phase ops d s" and "backend_ok ops"
  shows "if (\<exists>r. clt_at s = CltRecv r \<and> r \<noteq> ReqClose) \<and> clt_at t \<noteq> clt_at s
    then \<exists>r a. clt_at s = CltRecv r \<and> r \<noteq> ReqClose \<and> shm_serve ops r d = (Inr a, shm_db s) \<and>
      t = s\<lparr>clt_at := CltIdle, shm_log := shm_log s @ [(r, a)]\<rparr> \<and> shm_phase ops (shm_db s) t
    else shm_log t = shm_log s \<and> shm_phase ops d t"
  using assms(1)
proof cases
  case (clt_call r)
  then have "shm_phase ops d t" using assms(2)
    by (auto elim!: phase_cases intro: ph_send)
  with clt_call show ?thesis by auto
next
  case (clt_serialize r)
  with assms(2) have "request_ok r \<and> quiet s \<and> srv_at s = SrvPoll \<and> shm_db s = d"
    by (auto elim!: phase_cases)
  with clt_send_phase [of r s d ops] clt_serialize show ?thesis by auto
next
  case (clt_announce r)
  then have "shm_phase ops d t" using assms(2)
    by (auto elim!: phase_cases simp: quiet_def placed_def intro!: ph_posted)
  with clt_announce show ?thesis by auto
next
  case (clt_wake r)
  then have "shm_phase ops d t" using assms(2)
    by (auto elim!: phase_cases simp: quiet_def intro: ph_notified ph_closing)
  with clt_wake show ?thesis by auto
next
  case (clt_reset r)
  then have "shm_phase ops d t" using assms(2)
    by (auto elim!: phase_cases simp: quiet_def served_def intro: ph_recv ph_closed)
  with clt_reset show ?thesis by auto
next
  case (clt_return r)
  show ?thesis
  proof (cases "r = ReqClose")
    case True
    with clt_return have "shm_phase ops d t" using assms(2)
      by (auto elim!: phase_cases simp: clt_receive_def intro: ph_closed)
    with clt_return True show ?thesis by (auto simp: clt_receive_def)
  next
    case False
    with clt_return assms(2) obtain a where a: "shm_serve ops r d = (Inr a, shm_db s)"
      and "holds_at (shm_out s) (enc_answer a)" "quiet s" "srv_at s = SrvPoll"
      by (auto elim!: phase_cases simp: served_def)
    moreover from this have "t = s\<lparr>clt_at := CltIdle, shm_log := shm_log s @ [(r, a)]\<rparr>"
      using clt_receive_answer [OF a assms(3) False] clt_return by simp
    ultimately show ?thesis using False clt_return(2) by (auto intro: ph_idle)
  qed
next
  case srv_take
  then have "shm_phase ops d t" using assms(2)
    by (auto elim!: phase_cases simp: quiet_def intro: ph_posted)
  with srv_take show ?thesis by auto
next
  case (srv_serve opc)
  with assms(2) obtain r where "opc = opcode r" "clt_at s = CltSpin r" "shm_out s 0 = 0" "placed r s"
    "shm_db s = d" "r \<noteq> ReqClose" by (auto elim!: phase_cases)
  with srv_work_phase [OF assms(3), of r s] srv_serve show ?thesis by auto
next
  case srv_reset
  with assms(2) obtain r where "clt_at s = CltSpin r" "shm_out s 0 = 0" "r \<noteq> ReqClose" "served ops r d s"
    by (auto elim!: phase_cases)
  with srv_reset have "shm_phase ops d t" by (intro ph_cleared [of _ r]) (auto simp: quiet_def served_def)
  with srv_reset show ?thesis by auto
next
  case srv_notify
  with assms(2) obtain r where "clt_at s = CltSpin r" "shm_in s 0 = 0" "r \<noteq> ReqClose" "served ops r d s"
    by (auto elim!: phase_cases simp: quiet_def)
  with srv_notify have "shm_phase ops d t" by (intro ph_notified [of _ r]) (auto simp: served_def)
  with srv_notify show ?thesis by auto
next
  case (srv_ack_close opc)
  then have "shm_phase ops d t" using assms(2)
    by (auto elim!: phase_cases simp: intro!: ph_closing)
  with srv_ack_close show ?thesis by auto
next
  case srv_detached
  then have "shm_phase ops d t" using assms(2)
    by (auto elim!: phase_cases intro: ph_closing ph_closed)
  with srv_detached show ?thesis by auto
next
  case srv_detach_failed
  then have "shm_phase ops d t" using assms(2)
    by (auto elim!: phase_cases intro: ph_closing ph_closed)
  with srv_detach_failed show ?thesis by auto
qed

lemma phase_step:
  assumes "shm_step ops s t" and "shm_phase ops d s" and "backend_ok ops"
    and "replay ops (shm_log s) b = Some d"
  shows "\<exists>d'. replay ops (shm_log t) b = Some d' \<and> shm_phase ops d' t"
  using phase_step_local [OF assms(1-3)] replay_snoc [OF assms(4)] assms(4) by (auto split: if_splits)

lemma reachable_phase:
  assumes "backend_ok ops" and "shm_reachable ops b s"
  shows "\<exists>d. replay ops (shm_log s) b = Some d \<and> shm_phase ops d s"
proof -
  from assms(2) obtain din dout where "dout 0 = 0"
    and run: "(shm_step ops)\<^sup>*\<^sup>* (shm_init din dout b) s" by (auto simp: shm_reachable_def)
  from run show ?thesis
  proof (induction rule: rtranclp_induct)
    case base
    show ?case using \<open>dout 0 = 0\<close>
      by (auto simp: shm_init_def quiet_def intro!: ph_idle)
  next
    case (step s t)
    then show ?case using phase_step [OF step.hyps(2) _ assms(1)] by blast
  qed
qed


section \<open>What a session promises\<close>

lemma phase_progress:
  assumes "shm_phase ops d s" and "clt_at s \<noteq> CltClosed" and "\<nexists>e. clt_at s = CltFault e"
    and "\<not> (\<exists>r e. clt_at s = CltSpin r \<and> r \<noteq> ReqClose \<and> srv_at s = SrvFault e)"
  shows "\<exists>t. shm_step ops s t"
  using assms(1)
proof cases
  case ph_idle
  then show ?thesis using clt_call [of s ReqClose ops] by auto
next
  case (ph_posted r)
  show ?thesis
  proof (cases "srv_at s = SrvPoll")
    case True
    then show ?thesis using srv_take [of s ops] ph_posted by auto
  next
    case False
    then show ?thesis using srv_serve [of s "opcode r" ops] srv_ack_close [of s "opcode r" ops] ph_posted
      by blast
  qed
next
  case (ph_closing)
  then show ?thesis using clt_wake [of s _ ops] clt_reset [of s _ ops] by fastforce
next
  case (ph_notified r)
  then show ?thesis using clt_wake [of s r ops] clt_reset [of s r ops] by auto
qed (use assms clt_serialize clt_announce clt_return srv_reset srv_notify in \<open>blast+\<close>)

lemma phase_hung:
  assumes "shm_phase ops d s" and "clt_at s = CltSpin r" and "r \<noteq> ReqClose" and "srv_at s = SrvFault e"
  shows "\<not> shm_step ops s t"
proof -
  have "shm_out s 0 = 0" using assms by (auto elim!: phase_cases)
  then show ?thesis using assms by (auto elim!: shm_step.cases)
qed


text \<open>
  How far a call has to go: every step other than the start of a new call brings both threads
  closer to the end of the call.
\<close>

fun clt_left :: "client_at \<Rightarrow> nat" where
  "clt_left (CltSend _) = 5"
| "clt_left (CltReady _) = 4"
| "clt_left (CltSpin _) = 3"
| "clt_left (CltAwake _) = 2"
| "clt_left (CltRecv _) = 1"
| "clt_left _ = 0"

fun srv_left :: "server_at \<Rightarrow> nat" where
  "srv_left (SrvWork _) = 3"
| "srv_left SrvReset = 2"
| "srv_left SrvNotify = 1"
| "srv_left SrvClosing = 1"
| "srv_left _ = 0"

definition steps_left :: "'db shm \<Rightarrow> nat" where
  "steps_left s =
     5 * clt_left (clt_at s) + srv_left (srv_at s) +
       (if srv_at s = SrvPoll \<and> shm_in s 0 \<noteq> 0 then 4 else 0)"


lemma clt_send_left: "clt_left (clt_at (clt_send r s)) \<le> 4 \<and> srv_at (clt_send r s) = srv_at s"
  by (auto simp: clt_send_def on_shm_in_def onM_def split: prod.splits sum.splits)

lemma phase_closer:
  assumes "shm_phase ops d s" and "shm_step ops s t" and "clt_at s \<noteq> CltIdle"
    and "backend_ok ops"
  shows "steps_left t < steps_left s"
  using assms(2)
proof cases
  case (clt_call r)
  then show ?thesis using assms(3) by simp
next
  case (clt_serialize r)
  with assms(1) have ph: "request_ok r" "quiet s" "srv_at s = SrvPoll" "shm_db s = d"
    by (auto elim!: phase_cases)
  have "shm_phase ops d (clt_send r s)" using clt_send_phase [OF ph] by blast
  moreover have "\<not> (\<exists>r'. clt_at (clt_send r s) = CltSpin r')"
    by (auto simp: clt_send_def on_shm_in_def onM_def split: prod.splits sum.splits)
  ultimately have "shm_in (clt_send r s) 0 = 0"
    using clt_send_left [of r s] ph(3) by (auto elim!: phase_cases simp: quiet_def)
  with clt_send_left [of r s] ph clt_serialize show ?thesis by (simp add: steps_left_def quiet_def)
next
  case (clt_announce r)
  then show ?thesis using assms(1) by (auto elim!: phase_cases simp: steps_left_def quiet_def)
next
  case (clt_wake r)
  then show ?thesis using assms(1) by (auto simp: steps_left_def)
next
  case (clt_reset r)
  then show ?thesis using assms(1) by (auto simp: steps_left_def)
next
  case (clt_return r)
  then show ?thesis
    by (auto simp: steps_left_def clt_receive_def on_shm_out_def onM_def split: prod.splits sum.splits)
next
  case srv_take
  then show ?thesis by (simp add: steps_left_def)
next
  case (srv_serve opc)
  with assms(1) obtain r where r: "opc = opcode r" "clt_at s = CltSpin r" "shm_out s 0 = 0"
    "placed r s" "r \<noteq> ReqClose" by (auto elim!: phase_cases)
  then have "clt_at (snd (shm_dispatch ops opc s)) = CltSpin r"
    using shm_dispatch_request [of r ops s] assms(4) by (auto simp: dispatched_def placed_def)
  then have "clt_at (srv_work ops opc s) = CltSpin r"
    by (auto simp: srv_work_def split: prod.splits sum.splits)
  moreover have "srv_left (srv_at (srv_work ops opc s)) \<le> 2 \<and> srv_at (srv_work ops opc s) \<noteq> SrvPoll"
    by (auto simp: srv_work_def split: prod.splits sum.splits)
  ultimately show ?thesis using srv_serve r by (simp add: steps_left_def)
next
  case srv_reset
  then show ?thesis by (simp add: steps_left_def)
next
  case srv_notify
  then show ?thesis using assms(1) by (auto elim!: phase_cases simp: steps_left_def quiet_def)
qed (simp_all add: steps_left_def)

text \<open>A call under way, up to the step that returns its answer.\<close>

definition in_call :: "request \<Rightarrow> 'db shm \<Rightarrow> bool" where
  "in_call r s \<longleftrightarrow> clt_at s \<in> {CltSend r, CltReady r, CltSpin r, CltAwake r, CltRecv r}"

lemma in_call_step:
  assumes "shm_step ops s t" and "in_call r s" and "shm_phase ops d s"
    and "backend_ok ops" and "shm_serve ops r d = (Inr a, d')" and "r \<noteq> ReqClose"
    and "length (enc_request r) \<le> 1048575"
  shows "(in_call r t \<and> shm_log t = shm_log s) \<or>
    (clt_at t = CltIdle \<and> shm_log t = shm_log s @ [(r, a)] \<and> shm_db t = d')"
  using assms(1)
proof cases
  case (clt_serialize r')
  with assms(2,3) have r: "r' = r" "request_ok r" by (auto simp: in_call_def elim!: phase_cases)
  from ser_window_fits [OF writes_request [OF r(2)] assms(7), of "shm_in s"] obtain din where
    "ser_run 1 (YCSBC_DS_SIZE - 1) (ser_request r) (shm_in s) = (Inr (), din)" by blast
  with clt_serialize r show ?thesis by (simp add: clt_send_def on_shm_in_def onM_def in_call_def)
next
  case (clt_return r')
  with assms(2,3,5,6) have r: "r' = r" "holds_at (shm_out s) (enc_answer a)" "shm_db s = d'"
    by (auto simp: in_call_def served_def elim!: phase_cases)
  with clt_return clt_receive_answer [OF assms(5,4,6) r(2)] show ?thesis by simp
next
  case (srv_serve opc)
  with assms(2,3) have r: "opc = opcode r" "placed r s" by (auto simp: in_call_def elim!: phase_cases)
  then obtain u db dout where "shm_dispatch ops opc s = (u, s\<lparr>shm_db := db, shm_out := dout\<rparr>)"
    using shm_dispatch_request [of r ops s] assms(4,6) unfolding dispatched_def placed_def
    by (metis prod.collapse)
  with srv_serve assms(2) show ?thesis by (auto simp: srv_work_def in_call_def split: sum.splits)
qed (use assms(2) in \<open>auto simp: in_call_def\<close>)

lemma in_call_returns:
  assumes "shm_phase ops d s" and "in_call r s" and "replay ops (shm_log s) b = Some d"
    and "backend_ok ops" and "shm_serve ops r d = (Inr a, d')" and "r \<noteq> ReqClose"
    and "length (enc_request r) \<le> 1048575"
  shows "\<exists>t. (shm_step ops)\<^sup>*\<^sup>* s t \<and> clt_at t = CltIdle \<and> shm_log t = shm_log s @ [(r, a)] \<and>
    shm_db t = d'"
  using assms(1-3)
proof (induction "steps_left s" arbitrary: s rule: less_induct)
  case less
  have "\<not> (\<exists>e. srv_at s = SrvFault e)"
    using less.prems(1,2) assms(5,6) by (auto simp: in_call_def elim!: phase_cases)
  with phase_progress [OF less.prems(1)] less.prems(2) obtain t where t: "shm_step ops s t"
    by (auto simp: in_call_def)
  note next_state = in_call_step [OF t less.prems(2,1) assms(4-7)]
  have closer: "steps_left t < steps_left s"
    using less.prems(2) by (intro phase_closer [OF less.prems(1) t _ assms(4)]) (auto simp: in_call_def)
  show ?case
  proof (cases "in_call r t \<and> shm_log t = shm_log s")
    case True
    moreover have "shm_phase ops d t \<and> replay ops (shm_log t) b = Some d"
      using phase_step [OF t less.prems(1) assms(4) less.prems(3)] True less.prems(3) by auto
    ultimately obtain u where "(shm_step ops)\<^sup>*\<^sup>* t u" and u: "clt_at u = CltIdle"
        "shm_log u = shm_log s @ [(r, a)]" "shm_db u = d'"
      using less.hyps [OF closer] by auto
    with t have "(shm_step ops)\<^sup>*\<^sup>* s u" by (meson converse_rtranclp_into_rtranclp)
    with u show ?thesis by blast
  next
    case False
    then show ?thesis using next_state t by blast
  qed
qed

text \<open>A call whose handler fails: the server ends, and the client is left in its spin loop.\<close>

lemma failing_phase:
  assumes "in_call r s" and "shm_phase ops d s" and "shm_serve ops r d = (Inl e, d')" and "r \<noteq> ReqClose"
  shows "(srv_at s = SrvFault e \<and> clt_at s = CltSpin r) \<or>
    (srv_at s = SrvPoll \<and> (clt_at s = CltSend r \<or> clt_at s = CltReady r \<or>
       (clt_at s = CltSpin r \<and> shm_out s 0 = 0))) \<or>
    (srv_at s = SrvWork (opcode r) \<and> clt_at s = CltSpin r \<and> shm_out s 0 = 0 \<and> placed r s \<and> shm_db s = d)"
  using assms(2,1,3,4) by cases (auto simp: in_call_def served_def quiet_def)

lemma in_call_step_fails:
  assumes "shm_step ops s t" and "in_call r s" and "shm_phase ops d s"
    and "shm_serve ops r d = (Inl e, d')" and "r \<noteq> ReqClose" and "backend_ok ops"
    and "length (enc_request r) \<le> 1048575" and "\<not> (\<exists>e. srv_at s = SrvFault e)"
  shows "in_call r t \<and> shm_log t = shm_log s"
  using assms(1)
proof cases
  case (clt_serialize r')
  with assms(2,3) have r: "r' = r" "request_ok r" by (auto simp: in_call_def elim!: phase_cases)
  from ser_window_fits [OF writes_request [OF r(2)] assms(7), of "shm_in s"] obtain din where
    "ser_run 1 (YCSBC_DS_SIZE - 1) (ser_request r) (shm_in s) = (Inr (), din)" by blast
  with clt_serialize r show ?thesis by (simp add: clt_send_def on_shm_in_def onM_def in_call_def)
next
  case (srv_serve opc)
  with assms(2,3) have r: "opc = opcode r" "placed r s" by (auto simp: in_call_def elim!: phase_cases)
  then obtain u db dout where "shm_dispatch ops opc s = (u, s\<lparr>shm_db := db, shm_out := dout\<rparr>)"
    using shm_dispatch_request [of r ops s] assms(5,6) unfolding dispatched_def placed_def
    by (metis prod.collapse)
  with srv_serve assms(2) show ?thesis by (auto simp: srv_work_def in_call_def split: sum.splits)
qed (use assms(2,8) failing_phase [OF assms(2-5)] in \<open>auto simp: in_call_def\<close>)

lemma in_call_fails:
  assumes "shm_phase ops d s" and "in_call r s" and "replay ops (shm_log s) b = Some d"
    and "backend_ok ops" and "shm_serve ops r d = (Inl e, d')" and "r \<noteq> ReqClose"
    and "length (enc_request r) \<le> 1048575"
  shows "\<exists>t. (shm_step ops)\<^sup>*\<^sup>* s t \<and> clt_at t = CltSpin r \<and> srv_at t = SrvFault e \<and> shm_log t = shm_log s \<and>
    shm_phase ops d t"
  using assms(1-3)
proof (induction "steps_left s" arbitrary: s rule: less_induct)
  case less
  show ?case
  proof (cases "\<exists>e. srv_at s = SrvFault e")
    case True
    with failing_phase [OF less.prems(2,1) assms(5,6)] less.prems(1) show ?thesis by auto
  next
    case False
    with phase_progress [OF less.prems(1)] less.prems(2) obtain t where t: "shm_step ops s t"
      by (auto simp: in_call_def)
    have closer: "steps_left t < steps_left s"
      using less.prems(2) by (intro phase_closer [OF less.prems(1) t _ assms(4)]) (auto simp: in_call_def)
    have same: "in_call r t" "shm_log t = shm_log s"
      using in_call_step_fails [OF t less.prems(2,1) assms(5,6,4,7) False] by auto
    then have "shm_phase ops d t" "replay ops (shm_log t) b = Some d"
      using phase_step [OF t less.prems(1) assms(4) less.prems(3)] less.prems(3) by auto
    from less.hyps [OF closer this(1) same(1) this(2)] same(2) obtain u where
      "(shm_step ops)\<^sup>*\<^sup>* t u" and u: "clt_at u = CltSpin r" "srv_at u = SrvFault e"
        "shm_log u = shm_log s" "shm_phase ops d u" by auto
    with t have "(shm_step ops)\<^sup>*\<^sup>* s u" by (meson converse_rtranclp_into_rtranclp)
    with u show ?thesis by blast
  qed
qed

lemma call_starts:
  assumes "backend_ok ops" and "shm_reachable ops b s" and "clt_at s = CltIdle" and "request_ok r"
  shows "shm_step ops s (s\<lparr>clt_at := CltSend r\<rparr>) \<and> shm_phase ops (shm_db s) (s\<lparr>clt_at := CltSend r\<rparr>) \<and>
    in_call r (s\<lparr>clt_at := CltSend r\<rparr>) \<and> replay ops (shm_log s) b = Some (shm_db s)"
proof -
  obtain d where d: "shm_phase ops d s" "replay ops (shm_log s) b = Some d"
    using reachable_phase [OF assms(1,2)] by blast
  then have "srv_at s = SrvPoll" "quiet s" "shm_db s = d"
    using assms(3) by (auto elim!: phase_cases)
  then show ?thesis
    using d assms(3,4) by (auto simp: in_call_def intro: clt_call ph_send)
qed

text \<open>A fresh session, and a backend that reports a missing record, for examples.\<close>

definition fresh_shm :: "'db \<Rightarrow> 'db shm" where
  "fresh_shm db = shm_init (\<lambda>_. 0) (\<lambda>_. 0) db"

lemma fresh_reachable: "shm_reachable ops db (fresh_shm db)"
  unfolding shm_reachable_def fresh_shm_def by (intro exI [of _ "\<lambda>_. 0"] conjI) auto

lemma fresh_simps [simp]:
  "clt_at (fresh_shm db) = CltIdle" "shm_log (fresh_shm db) = []" "shm_db (fresh_shm db) = db"
  by (simp_all add: fresh_shm_def shm_init_def)

definition missing_ops :: "string db_ops" where
  "missing_ops = basic_db_ops\<lparr>op_Read := \<lambda>_ _ _ result. retM (kErrorNoData, result)\<rparr>"

lemma example_backends: "backend_ok basic_db_ops" "backend_ok missing_ops"
  by (auto simp: backend_ok_def basic_db_ops_def missing_ops_def basic_Read_def basic_Scan_def
      codec_ok_defs thenM_def bindM_def out_def op_run)

text \<open>
  C1: The shared-memory backend is sequential. In every reachable state of every interleaving of the
  two threads, running the calls that have returned one after the other on the initial database
  gives exactly the answers the client got, and while no call is under way the server's database is
  the one these calls leave: no call is lost, repeated, reordered or answered with another's data.
\<close>

theorem shm_calls_sequential:
  assumes "backend_ok ops" and "shm_reachable ops b s"
  shows "\<exists>d. replay ops (shm_log s) b = Some d \<and> (clt_at s = CltIdle \<longrightarrow> shm_db s = d)"
  using reachable_phase [OF assms] by (auto elim!: phase_cases)

theorem shm_calls_sequential_witness:
  "\<exists>s d. shm_reachable basic_db_ops ''log'' s \<and> shm_log s = [(ReqDelete ''t'' ''k'', AnsStatus kOK)] \<and>
     replay basic_db_ops (shm_log s) ''log'' = Some d \<and> shm_db s = d"
proof -
  let ?r = "ReqDelete ''t'' ''k''" and ?s = "fresh_shm ''log''"
  have r: "request_ok ?r" "length (enc_request ?r) \<le> 1048575" "?r \<noteq> ReqClose"
    by (simp_all add: req_ok_defs codec_ok_defs enc_key_req_def enc_defs)
  obtain d' where serve: "shm_serve basic_db_ops ?r ''log'' = (Inr (AnsStatus kOK), d')"
    by (auto simp: serve_command_def basic_db_ops_def basic_Delete_def thenM_def bindM_def out_def
        op_run kOK_def)
  note start = call_starts [OF example_backends(1) fresh_reachable fresh_simps(1) r(1), of "''log''"]
  from start serve obtain t where "(shm_step basic_db_ops)\<^sup>*\<^sup>* (?s\<lparr>clt_at := CltSend ?r\<rparr>) t"
      and t: "clt_at t = CltIdle" "shm_log t = [(?r, AnsStatus kOK)]"
    using in_call_returns [of basic_db_ops "''log''" "?s\<lparr>clt_at := CltSend ?r\<rparr>" ?r "''log''" "AnsStatus kOK" d']
      example_backends(1) r by auto
  with start have "(shm_step basic_db_ops)\<^sup>*\<^sup>* ?s t" by (meson converse_rtranclp_into_rtranclp)
  then have reach: "shm_reachable basic_db_ops ''log'' t"
    unfolding shm_reachable_def fresh_shm_def by (intro exI [of _ "\<lambda>_. 0"] conjI) auto
  from shm_calls_sequential [OF example_backends(1) reach] t reach show ?thesis by auto
qed

text \<open>
  C10: The notification bytes keep the two threads out of each other's payloads. While the server
  runs a handler the client spins, and the input window still holds the very request whose opcode
  the server took; while the client is at work outside its spin loop before a close, the server
  polls an input byte that is zero or an opcode just announced.
\<close>

theorem shm_mutual_exclusion:
  assumes "backend_ok ops" and "shm_reachable ops b s"
  shows "(\<forall>opc. srv_at s = SrvWork opc \<longrightarrow>
      (\<exists>r. clt_at s = CltSpin r \<and> opc = opcode r \<and> holds_at (shm_in s) (enc_request r))) \<and>
    (\<forall>r. clt_at s = CltSend r \<or> clt_at s = CltReady r \<or>
        (r \<noteq> ReqClose \<and> (clt_at s = CltAwake r \<or> clt_at s = CltRecv r)) \<longrightarrow>
      srv_at s = SrvPoll \<and> shm_in s 0 = 0)"
  using reachable_phase [OF assms] by (auto elim!: phase_cases simp: placed_def quiet_def)

lemma started_reachable:
  "shm_reachable basic_db_ops ''log'' (fresh_shm ''log''\<lparr>clt_at := CltSend ReqClose\<rparr>)"
proof -
  have "shm_step basic_db_ops (fresh_shm ''log'') (fresh_shm ''log''\<lparr>clt_at := CltSend ReqClose\<rparr>)"
    by (rule clt_call) simp_all
  then show ?thesis
    unfolding shm_reachable_def by (intro exI [of _ "\<lambda>_. 0"] conjI) (auto simp: fresh_shm_def)
qed

theorem shm_mutual_exclusion_witness:
  "srv_at (fresh_shm ''log''\<lparr>clt_at := CltSend ReqClose\<rparr>) = SrvPoll"
  using shm_mutual_exclusion [OF example_backends(1) started_reachable] by simp

text \<open>
  A call makes progress. In a reachable state with a call under way every step of either thread
  brings its end closer, at most 25 steps are left, and a step is possible unless the call already
  ended in the client's fault, the session is closed or the server's handler failed: a call whose
  handler succeeds returns, whatever the scheduler does, as long as it lets both threads run.
\<close>

theorem shm_call_progress:
  assumes "backend_ok ops" and "shm_reachable ops b s" and "clt_at s \<noteq> CltIdle"
  shows "(\<forall>t. shm_step ops s t \<longrightarrow> steps_left t < steps_left s) \<and> steps_left s \<le> 25 \<and>
    ((\<exists>t. shm_step ops s t) \<or> clt_at s = CltClosed \<or> (\<exists>e. clt_at s = CltFault e) \<or>
     (\<exists>r e. clt_at s = CltSpin r \<and> srv_at s = SrvFault e))"
proof -
  obtain d where d: "shm_phase ops d s" using reachable_phase [OF assms(1,2)] by blast
  have "steps_left s \<le> 25"
    using d by (auto elim!: phase_cases simp: steps_left_def quiet_def)
  then show ?thesis using phase_closer [OF d _ assms(3,1)] phase_progress [OF d] by blast
qed

theorem shm_call_progress_witness:
  "steps_left (fresh_shm ''log''\<lparr>clt_at := CltSend ReqClose\<rparr>) \<le> 25"
  using shm_call_progress [OF example_backends(1) started_reachable] by simp





end
