(* ===== verification/ShmSession.thy ===== *)
theory ShmSession
  imports Session Shm
begin

text \<open>
  The life of a shared-memory session around its request loop: \<open>Init\<close> and \<open>Close\<close> of
  \<open>server/ycsbc-l4/db/sqlite_shm_db.cc\<close>, \<open>op_schema\<close>, \<open>op_spawn\<close> and \<open>close\<close> of
  \<open>server/sqlite-shm-srv/shm.cc\<close>. Setting up is sequential, a chain of calls into the server.
  Tearing down is not: the server answers the close request before it unmaps anything, so from then on
  both threads release their halves side by side. Each half is a list of atomic steps, and a run of both is an
  interleaving of the two lists.
\<close>

section \<open>Setting up\<close>

text \<open>
  The constructors of the client and of \<open>BenchServer\<close> and the member \<open>op_schema\<close> have the text of their
  counterparts in the IPC backend.
\<close>

definition shm_client_new :: "int \<Rightarrow> int \<Rightarrow> ('db, unit) session_op" where
  "shm_client_new alloc_info attach_info =
     (if alloc_info < 0 then throwM (RuntimeError ''Failed to allocate db_infopage dataspace.'')
      else thenM (modifyM (info_obj_update (\<lambda>_. True)))
        (if attach_info < 0 then throwM (RuntimeError ''Failed to attach db_infopage dataspace.'')
         else modifyM (info_map_update (\<lambda>_. True))))"

lemma shm_client_new_same: "shm_client_new = client_new"
  by (intro ext) (simp add: shm_client_new_def client_new_def)

definition shm_bench_new :: "('db, unit) op \<Rightarrow> kernel \<Rightarrow> ('db, unit) session_op" where
  "shm_bench_new dbInit k =
     thenM (modifyM (srv_caps_update (\<lambda>_. True)))
    (if k_srv_attach_in k < 0 then throwM (RuntimeError ''Failed to attach db_in dataspace.'')
     else thenM (modifyM (srv_in_map_update (\<lambda>_. True)))
       (if k_srv_attach_out k < 0 then throwM (RuntimeError ''Failed to attach db_out dataspace.'')
        else thenM (modifyM (srv_out_map_update (\<lambda>_. True))) (on_backend dbInit)))"

lemma shm_bench_new_same: "shm_bench_new = bench_new"
  by (intro ext) (simp add: shm_bench_new_def bench_new_def)

definition shm_schema ::
  "(string \<Rightarrow> table_desc list \<Rightarrow> ('db, unit) op) \<Rightarrow> bool \<Rightarrow> int \<Rightarrow> ('db, int) session_op" where
  "shm_schema create cap_received attach_rc =
     (if \<not> cap_received then retM (- L4_EACCESS)
      else if attach_rc < 0 then retM (- L4_EINVAL)
      else bindM (on_info (de_run 0 de_schema_req)) (\<lambda>(fname, tables).
           thenM (on_backend (create fname tables)) (retM L4_EOK)))"

lemma shm_schema_same: "shm_schema = srv_schema"
  by (intro ext) (simp add: shm_schema_def srv_schema_def)

definition shm_CreateSchema ::
  "(string \<Rightarrow> table_desc list \<Rightarrow> ('db, unit) op) \<Rightarrow> bool \<Rightarrow> int \<Rightarrow> string \<Rightarrow> table_desc list \<Rightarrow>
     ('db, unit) session_op" where
  "shm_CreateSchema create cap_received attach_rc filename tables =
     thenM (on_info (ser_run 0 YCSBC_DS_SIZE (ser_schema_req filename tables)))
       (checked_call (shm_schema create cap_received attach_rc) ''creating schema failed'')"

text \<open>
  \<open>op_spawn\<close>: the server object is constructed by the main thread, and only its loop runs in the new
  one. A thread that cannot be created is \<open>std::system_error\<close>.
\<close>

definition shm_spawn :: "('db, unit) op \<Rightarrow> kernel \<Rightarrow> ('db, int) session_op" where
  "shm_spawn dbInit k =
     (if \<not> k_in_received k \<or> \<not> k_out_received k then retM (- L4_EACCESS)
      else thenM (shm_bench_new dbInit k)
        (if k_thread k \<noteq> 0 then throwM SystemError
         else thenM (modifyM (srv_thread_update (\<lambda>_. True))) (retM L4_EOK)))"

definition shm_Init :: "('db, unit) op \<Rightarrow> kernel \<Rightarrow> ('db, unit) session_op" where
  "shm_Init dbInit k =
     thenM (open_dataspaces k)
    (thenM (on_in (modifyM (flag_set 0)))
    (thenM (checked_call (shm_spawn dbInit k) ''spawn command failed'')
           (modifyM (clt_ctx_update (\<lambda>_. True)))))"

text \<open>
  The two threads as they start: the client returns from \<open>Init\<close>, the server's loop begins with its
  migration, whose failure ends the server.
\<close>

definition shm_start :: "kernel \<Rightarrow> 'db session \<Rightarrow> 'db shm" where
  "shm_start k s =
     \<lparr>shm_in = ds_in s, shm_out = ds_out s, shm_db = backend s, clt_at = CltIdle,
      srv_at = (case migrate (k_migrate k) of Inl e \<Rightarrow> SrvFault e | Inr _ \<Rightarrow> SrvPoll),
      shm_log = []\<rparr>"

lemma shm_Init_run:
  "shm_Init dbInit k s = (Inr (), t) \<longleftrightarrow>
     0 \<le> k_alloc_in k \<and> 0 \<le> k_alloc_out k \<and> 0 \<le> k_attach_in k \<and> 0 \<le> k_attach_out k \<and>
     k_in_received k \<and> k_out_received k \<and> 0 \<le> k_srv_attach_in k \<and> 0 \<le> k_srv_attach_out k \<and>
     k_thread k = 0 \<and>
     (\<exists>b. dbInit (backend s) = (Inr (), b) \<and>
       t = s\<lparr>clt_caps := True, ds_in_obj := True, ds_in := flag_set 0 (k_fresh_in k), ds_out_obj := True,
         ds_out := k_fresh_out k, clt_in_map := True, clt_out_map := True, srv_caps := True,
         srv_in_map := True, srv_out_map := True, backend := b, srv_thread := True, clt_ctx := True\<rparr>)"
  (is "?run \<longleftrightarrow> ?cond")
proof -
  let ?s = "s\<lparr>clt_caps := True, ds_in_obj := True, ds_in := flag_set 0 (k_fresh_in k), ds_out_obj := True,
    ds_out := k_fresh_out k, clt_in_map := True, clt_out_map := True\<rparr>"
  have spawn: "checked_call (shm_spawn dbInit k) msg ?s = (Inr (), u) \<longleftrightarrow>
      k_in_received k \<and> k_out_received k \<and> k_thread k = 0 \<and>
      (\<exists>v. bench_new dbInit k ?s = (Inr (), v) \<and> u = v\<lparr>srv_thread := True\<rparr>)" for msg u
    by (auto simp: checked_call_def in_server_def shm_spawn_def shm_bench_new_same thenM_def bindM_def modifyM_def retM_def
        throwM_def L4_EOK_def L4_EACCESS_def split: if_splits sum.splits prod.splits)
  have "on_in (modifyM (flag_set 0)) (s\<lparr>clt_caps := True, ds_in_obj := True, ds_in := k_fresh_in k,
      ds_out_obj := True, ds_out := k_fresh_out k, clt_in_map := True, clt_out_map := True\<rparr>) = (Inr (), ?s)"
    by (simp add: on_in_def op_simps)
  then have "?run \<longleftrightarrow> 0 \<le> k_alloc_in k \<and> 0 \<le> k_alloc_out k \<and> 0 \<le> k_attach_in k \<and> 0 \<le> k_attach_out k \<and>
      (\<exists>u. checked_call (shm_spawn dbInit k) ''spawn command failed'' ?s = (Inr (), u) \<and> t = u\<lparr>clt_ctx := True\<rparr>)"
    by (auto simp: shm_Init_def thenM_result_Inr open_dataspaces_run modifyM_def)
  also have "\<dots> \<longleftrightarrow> ?cond" by (auto simp: spawn bench_new_run)
  finally show ?thesis .
qed

section \<open>Tearing down\<close>

text \<open>
  What the server does once it has announced its answer to the close request: \<open>close\<close>, and the end of
  the loop. A failed \<open>detach\<close> is thrown out of the loop and ends the server's task.
\<close>

definition srv_closing :: "int \<Rightarrow> int \<Rightarrow> ('db session \<Rightarrow> 'db session) list" where
  "srv_closing detach_in detach_out =
     (if detach_in < 0 then [srv_thread_update (\<lambda>_. False)]
      else srv_in_map_update (\<lambda>_. False) #
        (if detach_out < 0 then [srv_thread_update (\<lambda>_. False)]
         else [srv_out_map_update (\<lambda>_. False), srv_caps_update (\<lambda>_. False), srv_thread_update (\<lambda>_. False)]))"

text \<open>
  What the client does after \<open>call('c')\<close> has returned; a failed \<open>detach\<close> returns early.
\<close>

definition clt_closing :: "int \<Rightarrow> int \<Rightarrow> ('db session \<Rightarrow> 'db session) list" where
  "clt_closing detach_in detach_out =
     (if detach_in < 0 then []
      else clt_in_map_update (\<lambda>_. False) #
        (if detach_out < 0 then []
         else [clt_out_map_update (\<lambda>_. False), ds_in_obj_update (\<lambda>_. False), ds_out_obj_update (\<lambda>_. False),
               clt_caps_update (\<lambda>_. False), clt_ctx_update (\<lambda>_. False)]))"

definition run_steps :: "('s \<Rightarrow> 's) list \<Rightarrow> 's \<Rightarrow> 's" where
  "run_steps fs s = fold (\<lambda>f. f) fs s"

lemma run_steps_simps [simp]:
  "run_steps [] s = s"
  "run_steps (f # fs) s = run_steps fs (f s)"
  "run_steps (fs @ gs) s = run_steps gs (run_steps fs s)"
  by (simp_all add: run_steps_def)

definition commutes :: "('s \<Rightarrow> 's) \<Rightarrow> ('s \<Rightarrow> 's) \<Rightarrow> bool" where
  "commutes f g \<longleftrightarrow> (\<forall>s. f (g s) = g (f s))"

lemma run_steps_commute:
  "\<forall>f \<in> set fs. commutes f g \<Longrightarrow> run_steps fs (g s) = g (run_steps fs s)"
  by (induction fs arbitrary: s) (simp_all add: commutes_def)

text \<open>Steps of two threads that commute give one result in every interleaving.\<close>

lemma run_steps_shuffle:
  assumes "hs \<in> shuffles fs gs" and "\<forall>f \<in> set fs. \<forall>g \<in> set gs. commutes f g"
  shows "run_steps hs s = run_steps gs (run_steps fs s)"
  using assms
proof (induction fs gs arbitrary: hs s rule: shuffles.induct)
  case (3 f fs g gs)
  from "3.prems"(1) consider (left) h where "hs = f # h" "h \<in> shuffles fs (g # gs)"
    | (right) h where "hs = g # h" "h \<in> shuffles (f # fs) gs" by auto
  then show ?case
  proof cases
    case left
    then show ?thesis using "3.IH"(1) [OF left(2), of "f s"] "3.prems"(2) by simp
  next
    case right
    have "run_steps (f # fs) (g s) = g (run_steps (f # fs) s)"
      by (rule run_steps_commute) (use "3.prems"(2) in simp)
    then show ?thesis using right "3.IH"(2) [OF right(2), of "g s"] "3.prems"(2) by simp
  qed
qed simp_all

lemma closing_commute:
  "\<forall>f \<in> set (clt_closing ci co). \<forall>g \<in> set (srv_closing si so). commutes f g"
  by (auto simp: clt_closing_def srv_closing_def commutes_def split: if_splits)

lemma clt_closing_run:
  "run_steps (clt_closing detach_in detach_out) s =
     (let left = detach_in < 0 \<or> detach_out < 0 in
      s\<lparr>ds_in_obj := ds_in_obj s \<and> left, ds_out_obj := ds_out_obj s \<and> left,
        clt_in_map := clt_in_map s \<and> detach_in < 0, clt_out_map := clt_out_map s \<and> left,
        clt_caps := clt_caps s \<and> left, clt_ctx := clt_ctx s \<and> left\<rparr>)"
  by (simp add: clt_closing_def Let_def)

lemma srv_closing_run:
  "run_steps (srv_closing detach_in detach_out) s =
     (let left = detach_in < 0 \<or> detach_out < 0 in
      s\<lparr>srv_in_map := srv_in_map s \<and> detach_in < 0, srv_out_map := srv_out_map s \<and> left,
        srv_caps := srv_caps s \<and> left, srv_thread := False\<rparr>)"
  by (simp add: srv_closing_def Let_def)

text \<open>
  C17: A shared-memory session starts the protocol in its initial state. When \<open>Init\<close> returns, both sides
  hold everything the session needs, the byte that announces requests is zero whatever the new
  dataspace contained, and the two threads start in a state from which the protocol runs, provided
  that the byte which announces answers was zero in the new dataspace, for \<open>Init\<close> does not reset it,
  and that the server's thread could migrate.
\<close>

theorem shm_session_starts:
  assumes "shm_Init dbInit k s = (Inr (), t)"
  shows "holds_all t \<and> shm_in (shm_start k t) 0 = 0 \<and> shm_out (shm_start k t) = k_fresh_out k \<and>
    dbInit (backend s) = (Inr (), backend t) \<and>
    (k_fresh_out k 0 = 0 \<and> k_migrate k = 0 \<longrightarrow> shm_reachable ops (backend t) (shm_start k t))"
proof -
  obtain b where t: "t = s\<lparr>clt_caps := True, ds_in_obj := True, ds_in := flag_set 0 (k_fresh_in k),
      ds_out_obj := True, ds_out := k_fresh_out k, clt_in_map := True, clt_out_map := True, srv_caps := True,
      srv_in_map := True, srv_out_map := True, backend := b, srv_thread := True, clt_ctx := True\<rparr>"
    and b: "dbInit (backend s) = (Inr (), b)"
    using assms unfolding shm_Init_run by blast
  have "shm_start k t = shm_init (k_fresh_in k) (k_fresh_out k) b" if "k_migrate k = 0"
    using that by (simp add: shm_start_def shm_init_def migrate_def t)
  moreover have backend_of: "backend t = b" by (simp add: t)
  ultimately have "shm_reachable ops (backend t) (shm_start k t)" if "k_fresh_out k 0 = 0" "k_migrate k = 0"
    using that unfolding shm_reachable_def by (metis backend_of rtranclp.rtrancl_refl)
  with b show ?thesis by (auto simp: t holds_all_def shm_start_def)
qed

theorem shm_session_starts_witness:
  "\<exists>t. shm_Init (retM ()) kind_kernel (fresh_session ''log'') = (Inr (), t) \<and> holds_all t \<and>
     shm_reachable basic_db_ops ''log'' (shm_start kind_kernel t)"
proof -
  obtain t where t: "shm_Init (retM ()) kind_kernel (fresh_session ''log'') = (Inr (), t)"
    by (simp add: shm_Init_run kind_kernel_def fresh_session_def retM_def)
  from shm_session_starts [OF t, of basic_db_ops] have "holds_all t" "retM () ''log'' = (Inr (), backend t)"
      "shm_reachable basic_db_ops (backend t) (shm_start kind_kernel t)"
    by (simp_all add: kind_kernel_def fresh_session_def)
  with t show ?thesis by (auto simp: retM_def)
qed

text \<open>
  C18: Closing a shared-memory session releases the same resources in every interleaving of the two
  threads. The client's mappings, dataspaces, capabilities and context are gone unless one of its
  \<open>detach\<close> calls failed, the server's mappings and capabilities unless one of its own failed, and the
  server's thread has ended in any case.
\<close>

theorem shm_session_released:
  assumes "holds_all t" and "hs \<in> shuffles (clt_closing ci co) (srv_closing si so)"
  shows "(clt_in_map (run_steps hs t) \<longleftrightarrow> ci < 0) \<and>
    (\<forall>r \<in> {clt_out_map, clt_caps, clt_ctx, ds_in_obj, ds_out_obj}. r (run_steps hs t) \<longleftrightarrow> ci < 0 \<or> co < 0) \<and>
    (srv_in_map (run_steps hs t) \<longleftrightarrow> si < 0) \<and>
    (\<forall>r \<in> {srv_out_map, srv_caps}. r (run_steps hs t) \<longleftrightarrow> si < 0 \<or> so < 0) \<and>
    \<not> srv_thread (run_steps hs t) \<and> backend (run_steps hs t) = backend t"
  using assms(1)
  by (simp add: run_steps_shuffle [OF assms(2) closing_commute] clt_closing_run srv_closing_run Let_def
      holds_all_def)

theorem shm_session_released_witness:
  "\<exists>t hs. shm_Init (retM ()) kind_kernel (fresh_session ''log'') = (Inr (), t) \<and>
     hs \<in> shuffles (clt_closing 0 0) (srv_closing 0 0) \<and> clt_ctx t \<and> \<not> clt_ctx (run_steps hs t) \<and>
     \<not> srv_in_map (run_steps hs t)"
proof -
  obtain t where t: "shm_Init (retM ()) kind_kernel (fresh_session ''log'') = (Inr (), t)" "holds_all t"
    by (simp add: shm_Init_run kind_kernel_def fresh_session_def retM_def holds_all_def)
  let ?hs = "splice (clt_closing 0 0) (srv_closing 0 0) :: (string session \<Rightarrow> string session) list"
  have "?hs \<in> shuffles (clt_closing 0 0) (srv_closing 0 0)" by (rule splice_in_shuffles)
  from shm_session_released [OF t(2) this] t this show ?thesis unfolding holds_all_def by blast
qed

end
