(* ===== verification/SqliteLib.thy ===== *)
theory SqliteLib
  imports DbApi "HOL-Library.Multiset"
begin

text \<open>
  The SQLite backend, \<open>server/lib/sqlite-lib-db/sqlite_lib_db.cc\<close>. The SQLite library itself is the
  parameter \<open>'w sqlite\<close>, its API functions over a state \<open>'w\<close> of the library that is never looked
  into; database connections and statements are handles. What the backend does with it is modelled
  statement by statement: the SQL text, the statement cache of a thread, the binding, stepping and
  resetting of statements, and every return code that ends an operation.
\<close>

section \<open>The API\<close>

definition SQLITE_OK :: int where "SQLITE_OK = 0"

definition SQLITE_LOCKED :: int where "SQLITE_LOCKED = 6"

definition SQLITE_ROW :: int where "SQLITE_ROW = 100"

definition SQLITE_DONE :: int where "SQLITE_DONE = 101"

text \<open>
  \<open>sq_escape\<close> is \<open>sqlite3_mprintf\<close> with the format \<open>%Q\<close>; \<open>sq_column_text\<close> is \<open>None\<close> for a null
  pointer, which SQLite returns for a NULL value.
\<close>

record 'w sqlite =
  sq_escape :: "string \<Rightarrow> string"
  sq_open :: "string \<Rightarrow> bool \<Rightarrow> 'w \<Rightarrow> (int \<times> nat) \<times> 'w"
  sq_close :: "nat \<Rightarrow> 'w \<Rightarrow> int \<times> 'w"
  sq_exec :: "nat \<Rightarrow> string \<Rightarrow> 'w \<Rightarrow> int \<times> 'w"
  sq_prepare :: "nat \<Rightarrow> string \<Rightarrow> 'w \<Rightarrow> (int \<times> nat) \<times> 'w"
  sq_bind_text :: "nat \<Rightarrow> nat \<Rightarrow> string \<Rightarrow> 'w \<Rightarrow> int \<times> 'w"
  sq_bind_int :: "nat \<Rightarrow> nat \<Rightarrow> int \<Rightarrow> 'w \<Rightarrow> int \<times> 'w"
  sq_step :: "nat \<Rightarrow> 'w \<Rightarrow> int \<times> 'w"
  sq_data_count :: "nat \<Rightarrow> 'w \<Rightarrow> nat"
  sq_column_name :: "nat \<Rightarrow> nat \<Rightarrow> 'w \<Rightarrow> string"
  sq_column_text :: "nat \<Rightarrow> nat \<Rightarrow> 'w \<Rightarrow> string option"
  sq_clear_bindings :: "nat \<Rightarrow> 'w \<Rightarrow> int \<times> 'w"
  sq_reset :: "nat \<Rightarrow> 'w \<Rightarrow> int \<times> 'w"
  sq_finalize :: "nat \<Rightarrow> 'w \<Rightarrow> int \<times> 'w"

text \<open>
  \<open>Ctx\<close> of one thread: its connection and its statement cache, with the library's state. The order
  of the cache stands for the iteration order of the \<open>unordered_map\<close>.
\<close>

record 'w sql_ctx =
  database :: "nat option"
  stmts :: "(string \<times> nat) list"
  lib :: 'w

type_synonym ('w, 'a) sql_op = "('w sql_ctx, 'a) op"

definition call_lib :: "('w \<Rightarrow> 'a \<times> 'w) \<Rightarrow> ('w, 'a) sql_op" where
  "call_lib f s = (case f (lib s) of (x, w) \<Rightarrow> (Inr x, s\<lparr>lib := w\<rparr>))"

definition ask_lib :: "('w \<Rightarrow> 'a) \<Rightarrow> ('w, 'a) sql_op" where
  "ask_lib f s = (Inr (f (lib s)), s)"

definition check_sqlite :: "('w \<Rightarrow> int \<times> 'w) \<Rightarrow> ('w, unit) sql_op" where
  "check_sqlite f =
     bindM (call_lib f) (\<lambda>r.
       if r \<noteq> SQLITE_OK then throwM (RuntimeError ''sqlite command failed'') else retM ())"

definition bind_string :: "'w sqlite \<Rightarrow> nat \<Rightarrow> nat \<Rightarrow> string \<Rightarrow> ('w, unit) sql_op" where
  "bind_string api pStmt pos str =
     bindM (call_lib (sq_bind_text api pStmt pos str)) (\<lambda>rc.
       if rc \<noteq> SQLITE_OK then throwM (RuntimeError ''Failed to bind parameter'') else retM ())"

definition bind_int :: "'w sqlite \<Rightarrow> nat \<Rightarrow> nat \<Rightarrow> int \<Rightarrow> ('w, unit) sql_op" where
  "bind_int api pStmt pos val =
     bindM (call_lib (sq_bind_int api pStmt pos val)) (\<lambda>rc.
       if rc \<noteq> SQLITE_OK then throwM (RuntimeError ''Failed to bind parameter'') else retM ())"

section \<open>Statement texts\<close>

text \<open>\<open>escape_sql\<close> is given the C string of a name.\<close>

definition escape_sql :: "'w sqlite \<Rightarrow> string \<Rightarrow> string" where
  "escape_sql api str = sq_escape api (c_str str)"

definition create_sql :: "'w sqlite \<Rightarrow> table_desc \<Rightarrow> string" where
  "create_sql api t =
     ''CREATE TABLE IF NOT EXISTS '' @ escape_sql api (table_name t) @
     '' (YCSBC_KEY VARCHAR PRIMARY KEY'' @
     concat (map (\<lambda>col. '', '' @ escape_sql api col @ '' TEXT'') (table_columns t)) @ '');''"

definition read_sql :: "'w sqlite \<Rightarrow> string \<Rightarrow> string" where
  "read_sql api table = ''SELECT * FROM '' @ escape_sql api table @ ''  WHERE YCSBC_KEY = ?''"

definition scan_sql :: "'w sqlite \<Rightarrow> string \<Rightarrow> string" where
  "scan_sql api table =
     ''SELECT * FROM '' @ escape_sql api table @ ''  WHERE YCSBC_KEY >= ? LIMIT ?;''"

fun set_clauses :: "'w sqlite \<Rightarrow> bool \<Rightarrow> fieldvals \<Rightarrow> string" where
  "set_clauses api first [] = []"
| "set_clauses api first (v # vs) =
     (if first then [] else '', '') @ escape_sql api (fst v) @ '' = ?'' @ set_clauses api False vs"

definition update_sql :: "'w sqlite \<Rightarrow> string \<Rightarrow> fieldvals \<Rightarrow> string" where
  "update_sql api table values' =
     ''UPDATE '' @ escape_sql api table @ '' SET '' @ set_clauses api True values' @
     '' WHERE YCSBC_KEY = ?;''"

definition insert_sql :: "'w sqlite \<Rightarrow> string \<Rightarrow> fieldvals \<Rightarrow> string" where
  "insert_sql api table values' =
     ''INSERT INTO '' @ escape_sql api table @ '' (YCSBC_KEY'' @
     concat (map (\<lambda>v. '', '' @ escape_sql api (fst v)) values') @ '') VALUES (?'' @
     concat (map (\<lambda>_. '', ?'') values') @ '');''"

definition delete_sql :: "'w sqlite \<Rightarrow> string \<Rightarrow> string" where
  "delete_sql api table = ''DELETE FROM '' @ escape_sql api table @ '' WHERE YCSBC_KEY = ?''"

section \<open>Connections\<close>

text \<open>\<open>OpenDB\<close>; the flag of \<open>sq_open\<close> is \<open>SQLITE_OPEN_URI\<close>.\<close>

definition OpenDB :: "'w sqlite \<Rightarrow> string \<Rightarrow> ('w, nat) sql_op" where
  "OpenDB api filename =
     (let in_memory = (filename = '':memory:'');
          name = (if in_memory then ''file::memory:?cache=shared'' else c_str filename)
      in bindM (call_lib (sq_open api name in_memory)) (\<lambda>(rc, database).
         if rc \<noteq> SQLITE_OK
         then bindM (call_lib (sq_close api database)) (\<lambda>_. throwM (RuntimeError ''Failed to open database.''))
         else retM database))"

fun create_tables :: "'w sqlite \<Rightarrow> nat \<Rightarrow> table_desc list \<Rightarrow> ('w, unit) sql_op" where
  "create_tables api db [] = retM ()"
| "create_tables api db (t # ts) =
     bindM (call_lib (sq_exec api db (create_sql api t))) (\<lambda>rc.
       if rc \<noteq> SQLITE_OK then throwM (RuntimeError ''Failed to create table'')
       else create_tables api db ts)"

text \<open>\<open>CreateSchema\<close>, which returns the connection it keeps open.\<close>

definition sql_CreateSchema :: "'w sqlite \<Rightarrow> string \<Rightarrow> table_desc list \<Rightarrow> ('w, nat) sql_op" where
  "sql_CreateSchema api filename tables =
     bindM (OpenDB api filename) (\<lambda>db. thenM (create_tables api db tables) (retM db))"

definition sql_Init :: "'w sqlite \<Rightarrow> string \<Rightarrow> ('w, unit) sql_op" where
  "sql_Init api filename =
     thenM (modifyM (\<lambda>s. s\<lparr>database := None, stmts := []\<rparr>))
       (bindM (OpenDB api filename) (\<lambda>db. modifyM (database_update (\<lambda>_. Some db))))"

fun release_stmts :: "'w sqlite \<Rightarrow> (string \<times> nat) list \<Rightarrow> ('w, unit) sql_op" where
  "release_stmts api [] = retM ()"
| "release_stmts api (e # es) =
     thenM (check_sqlite (sq_clear_bindings api (snd e)))
    (thenM (check_sqlite (sq_reset api (snd e)))
    (thenM (check_sqlite (sq_finalize api (snd e)))
           (release_stmts api es)))"

text \<open>
  \<open>Close\<close> deletes the context: the destructor of \<open>Ctx\<close>, and the destructor of \<open>SqliteLibDB\<close>. A
  destructor is \<open>noexcept\<close>, so an exception that leaves it is \<open>std::terminate\<close>.
\<close>

definition in_destructor :: "('s, 'a) op \<Rightarrow> ('s, 'a) op" where
  "in_destructor m s = (case m s of (Inl e, t) \<Rightarrow> (Inl Terminate, t) | (Inr x, t) \<Rightarrow> (Inr x, t))"

definition sql_Close :: "'w sqlite \<Rightarrow> ('w, unit) sql_op" where
  "sql_Close api =
     in_destructor
      (bindM (getM stmts) (\<lambda>es. thenM (release_stmts api es)
        (bindM (getM database) (\<lambda>db. case db of
           None \<Rightarrow> retM ()
         | Some h \<Rightarrow> check_sqlite (sq_close api h)))))"

definition sql_destroy :: "'w sqlite \<Rightarrow> nat \<Rightarrow> ('w, unit) sql_op" where
  "sql_destroy api schema_database = in_destructor (check_sqlite (sq_close api schema_database))"

section \<open>The statement cache\<close>

text \<open>
  The lookup that opens every operation: a statement that is not in the cache is prepared and
  inserted. \<open>db_handle\<close> is the context's connection, null when \<open>Init\<close> has not run.
\<close>

definition db_handle :: "'w sql_ctx \<Rightarrow> nat" where
  "db_handle s = (case database s of None \<Rightarrow> 0 | Some h \<Rightarrow> h)"

definition get_stmt :: "'w sqlite \<Rightarrow> string \<Rightarrow> string \<Rightarrow> ('w, nat) sql_op" where
  "get_stmt api stmt msg =
     bindM (getM stmts) (\<lambda>cache.
     case map_of cache stmt of
       Some pStmt \<Rightarrow> retM pStmt
     | None \<Rightarrow>
         bindM (getM db_handle) (\<lambda>db.
         bindM (call_lib (sq_prepare api db stmt)) (\<lambda>(rc, pStmt).
         if rc \<noteq> SQLITE_OK then throwM (RuntimeError msg)
         else thenM (modifyM (stmts_update (\<lambda>c. (stmt, pStmt) # c))) (retM pStmt))))"

definition finish_stmt :: "'w sqlite \<Rightarrow> nat \<Rightarrow> ('w, unit) sql_op" where
  "finish_stmt api pStmt =
     thenM (check_sqlite (sq_clear_bindings api pStmt)) (check_sqlite (sq_reset api pStmt))"

section \<open>Queries\<close>

definition wanted :: "string list option \<Rightarrow> string \<Rightarrow> bool" where
  "wanted flds name \<longleftrightarrow> (case flds of None \<Rightarrow> True | Some fs \<Rightarrow> fs = [] \<or> name \<in> set fs)"

text \<open>
  The columns of the current row from index \<open>i\<close> on. Building a \<open>std::string\<close> from a null pointer is
  \<open>std::logic_error\<close>.
\<close>

fun read_columns :: "'w sqlite \<Rightarrow> nat \<Rightarrow> string list option \<Rightarrow> nat \<Rightarrow> nat \<Rightarrow> fieldvals \<Rightarrow> ('w, fieldvals) sql_op" where
  "read_columns api pStmt flds i 0 result = retM result"
| "read_columns api pStmt flds i (Suc n) result =
     bindM (ask_lib (\<lambda>w. c_str (sq_column_name api pStmt i w))) (\<lambda>col_name.
     if wanted flds col_name
     then bindM (ask_lib (sq_column_text api pStmt i)) (\<lambda>col_content.
          case col_content of
            None \<Rightarrow> throwM LogicError
          | Some txt \<Rightarrow>
              read_columns api pStmt flds (Suc i) n (result @ [(col_name, c_str txt)]))
     else read_columns api pStmt flds (Suc i) n result)"

definition sql_Read ::
  "'w sqlite \<Rightarrow> string \<Rightarrow> string \<Rightarrow> string list option \<Rightarrow> fieldvals \<Rightarrow> ('w, int \<times> fieldvals) sql_op" where
  "sql_Read api table key flds result =
     bindM (get_stmt api (read_sql api table) ''Failed to prepare read statement'') (\<lambda>pStmt.
     thenM (bind_string api pStmt 1 key)
    (bindM (call_lib (sq_step api pStmt)) (\<lambda>db_rc.
     bindM
      (if db_rc = SQLITE_DONE then retM (kErrorNoData, result)
       else if db_rc = SQLITE_ROW
       then bindM (ask_lib (sq_data_count api pStmt)) (\<lambda>col_cnt.
            bindM (read_columns api pStmt flds 0 col_cnt result) (\<lambda>result. retM (kOK, result)))
       else throwM (RuntimeError ''Failed to step read statement''))
      (\<lambda>res. thenM (finish_stmt api pStmt) (retM res)))))"

text \<open>
  The loop of \<open>Scan\<close>, with the rounds it is given. A row vector starts with as many empty pairs as
  \<open>vector(n)\<close> default-constructs.
\<close>

fun scan_rows :: "nat \<Rightarrow> 'w sqlite \<Rightarrow> nat \<Rightarrow> string list option \<Rightarrow> int \<Rightarrow> fieldvals list \<Rightarrow>
    ('w, int \<times> fieldvals list) sql_op" where
  "scan_rows 0 api pStmt flds retval result = throwM OutOfFuel"
| "scan_rows (Suc fuel) api pStmt flds retval result =
     bindM (call_lib (sq_step api pStmt)) (\<lambda>db_rc.
     if db_rc = SQLITE_DONE then retM (retval, result)
     else if db_rc = SQLITE_ROW
     then bindM (ask_lib (sq_data_count api pStmt)) (\<lambda>col_cnt.
          bindM (read_columns api pStmt flds 0 col_cnt
                  (replicate (case flds of None \<Rightarrow> col_cnt | Some fs \<Rightarrow> length fs) ([], []))) (\<lambda>row_vec.
          scan_rows fuel api pStmt flds kOK (result @ [row_vec])))
     else throwM (RuntimeError ''Failed to step scan statement''))"

definition sql_Scan ::
  "nat \<Rightarrow> 'w sqlite \<Rightarrow> string \<Rightarrow> string \<Rightarrow> int \<Rightarrow> string list option \<Rightarrow> fieldvals list \<Rightarrow>
     ('w, int \<times> fieldvals list) sql_op" where
  "sql_Scan fuel api table key len flds result =
     bindM (get_stmt api (scan_sql api table) ''Failed to prepare scan statement'') (\<lambda>pStmt.
     thenM (bind_string api pStmt 1 key)
    (thenM (bind_int api pStmt 2 len)
    (bindM (scan_rows fuel api pStmt flds kErrorNoData result) (\<lambda>res.
     thenM (finish_stmt api pStmt) (retM res)))))"

section \<open>Modifications\<close>

text \<open>The retry loop on \<open>SQLITE_LOCKED\<close>, with the rounds it is given.\<close>

fun step_locked :: "nat \<Rightarrow> 'w sqlite \<Rightarrow> nat \<Rightarrow> ('w, int) sql_op" where
  "step_locked 0 api pStmt = throwM OutOfFuel"
| "step_locked (Suc fuel) api pStmt =
     bindM (call_lib (sq_step api pStmt)) (\<lambda>rc.
       if rc = SQLITE_LOCKED then step_locked fuel api pStmt else retM rc)"

fun bind_values :: "'w sqlite \<Rightarrow> nat \<Rightarrow> nat \<Rightarrow> fieldvals \<Rightarrow> ('w, unit) sql_op" where
  "bind_values api pStmt pos [] = retM ()"
| "bind_values api pStmt pos (v # vs) =
     thenM (bind_string api pStmt pos (snd v)) (bind_values api pStmt (Suc pos) vs)"

definition sql_Update :: "nat \<Rightarrow> 'w sqlite \<Rightarrow> string \<Rightarrow> string \<Rightarrow> fieldvals \<Rightarrow> ('w, int) sql_op" where
  "sql_Update fuel api table key values' =
     bindM (get_stmt api (update_sql api table values') ''Failed to prepare update statement'') (\<lambda>pStmt.
     thenM (bind_values api pStmt 1 values')
    (thenM (bind_string api pStmt (length values' + 1) key)
    (bindM (step_locked fuel api pStmt) (\<lambda>rc.
     if rc \<noteq> SQLITE_DONE then throwM (RuntimeError ''Failed to step update statement'')
     else thenM (finish_stmt api pStmt) (retM kOK)))))"

text \<open>
  \<open>std::sort\<close> by field name. The order of equal names is left open by the standard; the model keeps
  the order they came in.
\<close>

definition sort_fields :: "fieldvals \<Rightarrow> fieldvals" where
  "sort_fields values' = sort_key fst values'"

definition sql_Insert :: "nat \<Rightarrow> 'w sqlite \<Rightarrow> string \<Rightarrow> string \<Rightarrow> fieldvals \<Rightarrow> ('w, int) sql_op" where
  "sql_Insert fuel api table key values' =
     (let vs = sort_fields values' in
     bindM (get_stmt api (insert_sql api table vs) ''Failed to prepare insert statement'') (\<lambda>pStmt.
     thenM (bind_string api pStmt 1 key)
    (thenM (bind_values api pStmt 2 vs)
    (bindM (step_locked fuel api pStmt) (\<lambda>rc.
     if rc \<noteq> SQLITE_DONE then throwM (RuntimeError ''Failed to step insert statement'')
     else thenM (finish_stmt api pStmt) (retM kOK))))))"

definition sql_Delete :: "'w sqlite \<Rightarrow> string \<Rightarrow> string \<Rightarrow> ('w, int) sql_op" where
  "sql_Delete api table key =
     bindM (get_stmt api (delete_sql api table) ''Failed to prepare delete statement'') (\<lambda>pStmt.
     thenM (bind_string api pStmt 1 key)
    (bindM (call_lib (sq_step api pStmt)) (\<lambda>rc.
     if rc \<noteq> SQLITE_DONE then throwM (RuntimeError ''Failed to step delete statement'')
     else thenM (finish_stmt api pStmt) (retM kOK))))"

definition sqlite_db_ops :: "nat \<Rightarrow> 'w sqlite \<Rightarrow> 'w sql_ctx db_ops" where
  "sqlite_db_ops fuel api =
     \<lparr>op_Read = sql_Read api, op_Scan = sql_Scan fuel api, op_Update = sql_Update fuel api,
      op_Insert = sql_Insert fuel api, op_Delete = sql_Delete api\<rparr>"


section \<open>The cache\<close>

text \<open>
  \<open>cache_kept m\<close>: no run of \<open>m\<close> touches the cache. Everything but the lookup that opens an operation
  is of this kind, so an operation adds at most the statement it looked up.
\<close>

definition cache_kept :: "('w, 'a) sql_op \<Rightarrow> bool" where
  "cache_kept m \<longleftrightarrow> (\<forall>s. stmts (snd (m s)) = stmts s)"

named_theorems kept_rules \<open>operations that leave the statement cache alone\<close>

lemma kept_basic [kept_rules]:
  "cache_kept (retM x)" "cache_kept (throwM e)" "cache_kept (call_lib f)" "cache_kept (ask_lib g)"
  by (simp_all add: cache_kept_def op_simps call_lib_def ask_lib_def split: prod.split)

lemma kept_bindM [kept_rules]:
  "cache_kept m \<Longrightarrow> (\<And>x. cache_kept (f x)) \<Longrightarrow> cache_kept (bindM m f)"
  by (auto simp: cache_kept_def bindM_def split: prod.split sum.split) (metis snd_conv)+

lemma kept_thenM [kept_rules]: "cache_kept m \<Longrightarrow> cache_kept n \<Longrightarrow> cache_kept (thenM m n)"
  by (simp add: thenM_def kept_bindM)

lemma kept_if [kept_rules]: "cache_kept m \<Longrightarrow> cache_kept n \<Longrightarrow> cache_kept (if b then m else n)"
  by simp

lemma kept_checks [kept_rules]:
  "cache_kept (check_sqlite f)" "cache_kept (bind_string api p i str)" "cache_kept (bind_int api p i val)"
  unfolding check_sqlite_def bind_string_def bind_int_def by (intro kept_rules)+

lemma kept_finish [kept_rules]: "cache_kept (finish_stmt api p)"
  unfolding finish_stmt_def by (intro kept_rules)

lemma kept_option: "cache_kept m \<Longrightarrow> (\<And>x. cache_kept (f x)) \<Longrightarrow> cache_kept (case a of None \<Rightarrow> m | Some x \<Rightarrow> f x)"
  by (cases a) simp_all

lemma kept_columns [kept_rules]: "cache_kept (read_columns api p flds i n result)"
  by (induction n arbitrary: i result) (auto intro!: kept_rules kept_option)

lemma kept_rows [kept_rules]: "cache_kept (scan_rows fuel api p flds rv result)"
  by (induction fuel arbitrary: rv result) (auto intro!: kept_rules simp del: if_split)

lemma kept_step [kept_rules]: "cache_kept (step_locked fuel api p)"
  by (induction fuel) (auto intro!: kept_rules)

lemma kept_values [kept_rules]: "cache_kept (bind_values api p i vs)"
  by (induction vs arbitrary: i) (auto intro!: kept_rules)

text \<open>The cache has one statement per text, and an operation only ever adds the one it looks up.\<close>

definition cache_inv :: "'w sql_ctx \<Rightarrow> bool" where
  "cache_inv s \<longleftrightarrow> distinct (map fst (stmts s))"

definition cache_adds :: "string \<Rightarrow> 'w sql_ctx \<Rightarrow> 'w sql_ctx \<Rightarrow> bool" where
  "cache_adds stmt s t \<longleftrightarrow>
     stmts t = stmts s \<or>
     (map_of (stmts s) stmt = None \<and> (\<exists>p. stmts t = (stmt, p) # stmts s))"

text \<open>
  A run that starts by looking up a statement: the cache gains at most that statement, and has it
  when the run returns.
\<close>

definition caches :: "string \<Rightarrow> 'w sql_ctx \<Rightarrow> (fault + 'a) \<times> 'w sql_ctx \<Rightarrow> bool" where
  "caches stmt s r \<longleftrightarrow>
     cache_adds stmt s (snd r) \<and> (isl (fst r) \<or> stmt \<in> fst ` set (stmts (snd r)))"

lemma get_stmt_caches: "caches stmt s (get_stmt api stmt msg s)"
  by (auto simp: get_stmt_def caches_def cache_adds_def bindM_def thenM_def op_simps call_lib_def
      image_iff split: option.split prod.split dest!: map_of_SomeD intro: bexI [rotated])

lemma bind_get_stmt_caches:
  assumes "\<And>p. cache_kept (f p)"
  shows "caches stmt s (bindM (get_stmt api stmt msg) f s)"
proof (cases "get_stmt api stmt msg s")
  case (Pair r t)
  then have "caches stmt s (r, t)" using get_stmt_caches [of stmt s api msg] by simp
  moreover have "stmts (snd (f p t)) = stmts t" for p using assms by (simp add: cache_kept_def)
  ultimately show ?thesis using Pair
    by (cases r) (simp_all add: bindM_def caches_def cache_adds_def)
qed

lemma cache_adds_inv: "cache_adds stmt s t \<Longrightarrow> cache_inv s \<Longrightarrow> cache_inv t"
  by (auto simp: cache_adds_def cache_inv_def map_of_eq_None_iff)

lemma get_stmt_cached:
  "map_of (stmts s) stmt = Some p \<Longrightarrow> get_stmt api stmt msg s = (Inr p, s)"
  by (simp add: get_stmt_def bindM_def op_simps)

lemma sql_ops_cache:
  "caches (read_sql api table) s (sql_Read api table key flds result s)"
  "caches (scan_sql api table) s (sql_Scan fuel api table key len flds rows s)"
  "caches (update_sql api table vs) s (sql_Update fuel api table key vs s)"
  "caches (insert_sql api table (sort_fields vs)) s (sql_Insert fuel api table key vs s)"
  "caches (delete_sql api table) s (sql_Delete api table key s)"
  unfolding sql_Read_def sql_Scan_def sql_Update_def sql_Insert_def sql_Delete_def Let_def
  by (intro bind_get_stmt_caches kept_rules)+


section \<open>What the operations do\<close>

text \<open>
  A scripted library for examples: its state is the list of the codes that the next steps return,
  every other call succeeds, and a row has the one column \<open>f\<close> with the value \<open>v\<close>.
\<close>

definition script_api :: "int list sqlite" where
  "script_api =
     \<lparr>sq_escape = (\<lambda>s. CHR 0x27 # s @ [CHR 0x27]), sq_open = (\<lambda>_ _ w. ((SQLITE_OK, 1), w)),
      sq_close = (\<lambda>_ w. (SQLITE_OK, w)), sq_exec = (\<lambda>_ _ w. (SQLITE_OK, w)),
      sq_prepare = (\<lambda>_ _ w. ((SQLITE_OK, 7), w)), sq_bind_text = (\<lambda>_ _ _ w. (SQLITE_OK, w)),
      sq_bind_int = (\<lambda>_ _ _ w. (SQLITE_OK, w)),
      sq_step = (\<lambda>_ w. case w of [] \<Rightarrow> (SQLITE_DONE, []) | c # cs \<Rightarrow> (c, cs)),
      sq_data_count = (\<lambda>_ _. 1), sq_column_name = (\<lambda>_ _ _. ''f''),
      sq_column_text = (\<lambda>_ _ _. Some ''v''), sq_clear_bindings = (\<lambda>_ w. (SQLITE_OK, w)),
      sq_reset = (\<lambda>_ w. (SQLITE_OK, w)), sq_finalize = (\<lambda>_ w. (SQLITE_OK, w))\<rparr>"

definition script_ctx :: "int list \<Rightarrow> int list sql_ctx" where
  "script_ctx codes = \<lparr>database = Some 1, stmts = [(read_sql script_api ''t'', 7)], lib = codes\<rparr>"

lemma script_codes: "SQLITE_ROW \<noteq> SQLITE_DONE" "SQLITE_DONE \<noteq> SQLITE_LOCKED"
  by (simp_all add: SQLITE_ROW_def SQLITE_DONE_def SQLITE_LOCKED_def)

lemma script_calls:
  "sq_step script_api p (c # cs) = (c, cs)" "sq_step script_api p [] = (SQLITE_DONE, [])"
  "sq_data_count script_api p w = 1" "sq_column_name script_api p i w = ''f''"
  "sq_column_text script_api p i w = Some ''v''"
  by (simp_all add: script_api_def)

lemma script_runs:
  "bind_string script_api p i str s = (Inr (), s)" "bind_int script_api p i n s = (Inr (), s)"
  "finish_stmt script_api p s = (Inr (), s)"
  by (simp_all add: script_api_def bind_string_def bind_int_def finish_stmt_def check_sqlite_def
      call_lib_def bindM_def thenM_def op_run)

lemma script_ctx_simps [simp]:
  "lib (script_ctx codes) = codes" "stmts (script_ctx codes) = [(read_sql script_api ''t'', 7)]"
  "script_ctx codes\<lparr>lib := codes'\<rparr> = script_ctx codes'"
  by (simp_all add: script_ctx_def)

text \<open>
  C5: The statement cache keeps one prepared statement per SQL text. Every operation leaves the
  entries it found and adds at most the statement of its own text, and only when that was not cached
  yet; when it returns, that statement is cached. A text that is in the cache is answered from it
  without a call of the library, so no text is prepared twice.
\<close>

theorem sql_prepared_once:
  assumes "cache_inv s"
  shows "caches (read_sql api table) s (sql_Read api table key flds result s) \<and>
    caches (scan_sql api table) s (sql_Scan fuel api table key len flds rows s) \<and>
    caches (update_sql api table vs) s (sql_Update fuel api table key vs s) \<and>
    caches (insert_sql api table (sort_fields vs)) s (sql_Insert fuel api table key vs s) \<and>
    caches (delete_sql api table) s (sql_Delete api table key s) \<and>
    (\<forall>t stmt. cache_adds stmt s t \<longrightarrow> cache_inv t) \<and>
    (\<forall>stmt p msg. (stmt, p) \<in> set (stmts s) \<longrightarrow> get_stmt api stmt msg s = (Inr p, s))"
  by (intro conjI allI impI sql_ops_cache cache_adds_inv [OF _ assms] get_stmt_cached)
    (use assms in \<open>auto simp: cache_inv_def intro: map_of_is_SomeI\<close>)

theorem sql_prepared_once_witness:
  "get_stmt script_api (read_sql script_api ''t'') ''m'' (script_ctx []) = (Inr 7, script_ctx [])"
proof -
  have "cache_inv (script_ctx [])" by (simp add: cache_inv_def)
  then show ?thesis
    by (rule sql_prepared_once [THEN conjunct2, THEN conjunct2, THEN conjunct2, THEN conjunct2,
          THEN conjunct2, THEN conjunct2, rule_format]) simp
qed

text \<open>
  The order of the values does not matter to an insert: for different field names every order
  of the same pairs gives the same SQL text and the same bindings, so the same run from any state.
\<close>

theorem sql_Insert_order:
  assumes "mset vs = mset ws" and "distinct (map fst vs)"
  shows "sql_Insert fuel api table key vs s = sql_Insert fuel api table key ws s"
proof -
  have "inj_on fst (set vs)" using assms(2) by (simp add: distinct_map)
  then have "sort_fields vs = sort_fields ws"
    unfolding sort_fields_def using assms(1) by (intro sort_key_eq_sort_key) auto
  then show ?thesis by (simp add: sql_Insert_def Let_def)
qed

theorem sql_Insert_order_witness:
  "sql_Insert 3 script_api ''t'' ''k'' [(''b'', ''2''), (''a'', ''1'')] (script_ctx []) =
   sql_Insert 3 script_api ''t'' ''k'' [(''a'', ''1''), (''b'', ''2'')] (script_ctx [])"
  by (rule sql_Insert_order) simp_all

text \<open>The columns of the current row that a query wants, and the pairs made of them.\<close>

definition row_columns :: "'w sqlite \<Rightarrow> nat \<Rightarrow> nat \<Rightarrow> nat \<Rightarrow> 'w \<Rightarrow> (string \<times> string option) list" where
  "row_columns api p i n w =
     map (\<lambda>j. (c_str (sq_column_name api p j w), sq_column_text api p j w)) [i ..< i + n]"

definition wanted_columns :: "string list option \<Rightarrow> (string \<times> string option) list \<Rightarrow> (string \<times> string option) list" where
  "wanted_columns flds cols = filter (\<lambda>c. wanted flds (fst c)) cols"

definition column_pairs :: "(string \<times> string option) list \<Rightarrow> fieldvals" where
  "column_pairs cols = map (\<lambda>c. (fst c, c_str (the (snd c)))) cols"

lemma read_columns_run:
  "read_columns api p flds i n result s =
     (let cols = wanted_columns flds (row_columns api p i n (lib s)) in
      if \<exists>c \<in> set cols. snd c = None then (Inl LogicError, s)
      else (Inr (result @ column_pairs cols), s))"
proof (induction n arbitrary: i result)
  case 0
  show ?case by (simp add: row_columns_def wanted_columns_def column_pairs_def op_simps)
next
  case (Suc n)
  have cols: "row_columns api p i (Suc n) w =
      (c_str (sq_column_name api p i w), sq_column_text api p i w) # row_columns api p (Suc i) n w" for w
    by (simp add: row_columns_def upt_rec)
  show ?case
    by (auto simp: Suc.IH cols bindM_def ask_lib_def op_simps Let_def wanted_columns_def column_pairs_def
        split: option.split)
qed

lemma sql_Read_run:
  assumes "get_stmt api (read_sql api table) ''Failed to prepare read statement'' s = (Inr p, s1)"
    and "bind_string api p 1 key s1 = (Inr (), s2)"
    and "sq_step api p (lib s2) = (rc, w)"
    and "finish_stmt api p (s2\<lparr>lib := w\<rparr>) = (Inr (), s3)"
  shows "sql_Read api table key flds result s =
    (let cols = wanted_columns flds (row_columns api p 0 (sq_data_count api p w) w) in
     if rc = SQLITE_DONE then (Inr (kErrorNoData, result), s3)
     else if rc = SQLITE_ROW
     then (if \<exists>c \<in> set cols. snd c = None then (Inl LogicError, s2\<lparr>lib := w\<rparr>)
           else (Inr (kOK, result @ column_pairs cols), s3))
     else (Inl (RuntimeError ''Failed to step read statement''), s2\<lparr>lib := w\<rparr>))"
  using assms
  by (auto simp: sql_Read_def bindM_def thenM_def call_lib_def ask_lib_def op_simps read_columns_run
      Let_def SQLITE_DONE_def SQLITE_ROW_def)

text \<open>
  A read is decided by its one step. The values come back in column order, restricted to the
  requested fields (all of them for a null or an empty request), behind whatever the result vector
  held; no row is \<open>kErrorNoData\<close> with the vector as it was; a NULL in a wanted column and any other
  step result end in an exception.
\<close>

theorem sql_Read_result:
  assumes "get_stmt api (read_sql api table) ''Failed to prepare read statement'' s = (Inr p, s1)"
    and "bind_string api p 1 key s1 = (Inr (), s2)"
    and "sq_step api p (lib s2) = (rc, w)"
    and "finish_stmt api p (s2\<lparr>lib := w\<rparr>) = (Inr (), s3)"
  shows "sql_Read api table key flds result s =
    (let cols = wanted_columns flds (row_columns api p 0 (sq_data_count api p w) w) in
     if rc = SQLITE_DONE then (Inr (kErrorNoData, result), s3)
     else if rc = SQLITE_ROW
     then (if \<exists>c \<in> set cols. snd c = None then (Inl LogicError, s2\<lparr>lib := w\<rparr>)
           else (Inr (kOK, result @ column_pairs cols), s3))
     else (Inl (RuntimeError ''Failed to step read statement''), s2\<lparr>lib := w\<rparr>))"
  using assms by (rule sql_Read_run)

theorem sql_Read_result_witness:
  "fst (sql_Read script_api ''t'' ''k'' (Some [''f'']) [] (script_ctx [SQLITE_ROW])) = Inr (kOK, [(''f'', ''v'')])"
proof -
  let ?s = "script_ctx [SQLITE_ROW]"
  have "get_stmt script_api (read_sql script_api ''t'') ''Failed to prepare read statement'' ?s = (Inr 7, ?s)"
    by (rule get_stmt_cached) simp
  moreover have "sq_step script_api 7 (lib ?s) = (SQLITE_ROW, [])" by (simp add: script_calls)
  ultimately show ?thesis
    using sql_Read_result [OF _ script_runs(1) _ script_runs(3)] script_codes(1)
    by (simp add: script_calls row_columns_def wanted_columns_def wanted_def column_pairs_def c_str_def
        Let_def)
qed

lemma scan_rows_result:
  assumes "scan_rows fuel api p flds rv result s = (Inr (rc, res), t)"
  shows "\<exists>rows. res = result @ rows \<and> rc = (if rows = [] then rv else kOK) \<and>
    (\<forall>row \<in> set rows. \<exists>cols w. row =
       replicate (case flds of None \<Rightarrow> sq_data_count api p w | Some fs \<Rightarrow> length fs) ([], []) @
       column_pairs (wanted_columns flds cols))"
  using assms
proof (induction fuel arbitrary: rv result s)
  case 0
  then show ?case by (simp add: op_simps)
next
  case (Suc fuel)
  obtain c w where step: "sq_step api p (lib s) = (c, w)" by fastforce
  show ?case
  proof (cases "c = SQLITE_DONE")
    case True
    with Suc.prems step show ?thesis by (simp add: bindM_def call_lib_def op_simps)
  next
    case False
    let ?cols = "wanted_columns flds (row_columns api p 0 (sq_data_count api p w) w)"
    let ?row = "replicate (case flds of None \<Rightarrow> sq_data_count api p w | Some fs \<Rightarrow> length fs) ([], []) @
      column_pairs ?cols"
    from Suc.prems step False have
      "scan_rows fuel api p flds kOK (result @ [?row]) (s\<lparr>lib := w\<rparr>) = (Inr (rc, res), t)"
      by (auto simp: bindM_def call_lib_def ask_lib_def op_simps read_columns_run Let_def
          split: if_splits)
    from Suc.IH [OF this] obtain rows where rows: "res = (result @ [?row]) @ rows"
      "rc = (if rows = [] then kOK else kOK)" and all: "\<forall>row \<in> set rows. \<exists>cols w. row =
         replicate (case flds of None \<Rightarrow> sq_data_count api p w | Some fs \<Rightarrow> length fs) ([], []) @
         column_pairs (wanted_columns flds cols)" by blast
    show ?thesis
      by (intro exI [of _ "?row # rows"]) (use rows all in auto)
  qed
qed

text \<open>
  Every row that a scan appends starts with one empty pair for each requested field, and the
  wanted columns come only after them; the status says whether a row was appended.
\<close>

theorem sql_Scan_rows:
  assumes "sql_Scan fuel api table key len (Some fs) result s = (Inr (rc, res), t)"
  shows "\<exists>rows. res = result @ rows \<and> rc = (if rows = [] then kErrorNoData else kOK) \<and>
    (\<forall>row \<in> set rows. \<exists>cols. row =
       replicate (length fs) ([], []) @ column_pairs (wanted_columns (Some fs) cols))"
proof -
  from assms obtain p u v where "scan_rows fuel api p (Some fs) kErrorNoData result u = (Inr (rc, res), v)"
    by (auto simp: sql_Scan_def op_results op_simps)
  from scan_rows_result [OF this] show ?thesis by simp
qed

theorem sql_Scan_rows_witness:
  "\<exists>rows. [[([], []), (''f'', ''v'')]] = [] @ rows \<and> kOK = (if rows = [] then kErrorNoData else kOK) \<and>
    (\<forall>row \<in> set rows. \<exists>cols. row =
       replicate (length [''f'']) ([], []) @ column_pairs (wanted_columns (Some [''f'']) cols))"
proof -
  let ?s = "script_ctx [SQLITE_ROW]\<lparr>stmts := [(scan_sql script_api ''t'', 7)]\<rparr>"
  have "get_stmt script_api (scan_sql script_api ''t'') msg ?s = (Inr 7, ?s)" for msg
    by (rule get_stmt_cached) simp
  moreover have "scan_rows (Suc (Suc 0)) script_api 7 (Some [''f'']) kErrorNoData [] ?s =
      (Inr (kOK, [[([], []), (''f'', ''v'')]]), ?s\<lparr>lib := []\<rparr>)"
    using script_codes(1)
    by (simp add: call_lib_def ask_lib_def bindM_def op_run script_calls read_columns_run Let_def
        row_columns_def wanted_columns_def wanted_def column_pairs_def c_str_def)
  ultimately have "sql_Scan (Suc (Suc 0)) script_api ''t'' ''k'' 2 (Some [''f'']) [] ?s =
      (Inr (kOK, [[([], []), (''f'', ''v'')]]), ?s\<lparr>lib := []\<rparr>)"
    by (simp add: sql_Scan_def bindM_def thenM_def retM_def script_runs del: scan_rows.simps)
  then show ?thesis by (rule sql_Scan_rows)
qed

text \<open>The library after \<open>k\<close> steps of a statement.\<close>

definition stepped :: "'w sqlite \<Rightarrow> nat \<Rightarrow> nat \<Rightarrow> 'w \<Rightarrow> 'w" where
  "stepped api p k w = ((\<lambda>w. snd (sq_step api p w)) ^^ k) w"

lemma step_locked_run:
  assumes "\<And>j. j < k \<Longrightarrow> fst (sq_step api p (stepped api p j (lib s))) = SQLITE_LOCKED"
    and "fst (sq_step api p (stepped api p k (lib s))) = rc" and "rc \<noteq> SQLITE_LOCKED" and "k < fuel"
  shows "step_locked fuel api p s = (Inr rc, s\<lparr>lib := stepped api p (Suc k) (lib s)\<rparr>)"
  using assms
proof (induction k arbitrary: s fuel)
  case 0
  then obtain f where "fuel = Suc f" by (cases fuel) auto
  with 0 show ?case
    by (cases "sq_step api p (lib s)") (simp add: bindM_def call_lib_def op_simps stepped_def)
next
  case (Suc k)
  then obtain f where f: "fuel = Suc f" "k < f" by (cases fuel) auto
  obtain w where w: "sq_step api p (lib s) = (SQLITE_LOCKED, w)"
    using Suc.prems(1) [of 0] by (cases "sq_step api p (lib s)") (simp add: stepped_def)
  have shift: "stepped api p (Suc j) (lib s) = stepped api p j w" for j
    by (simp only: stepped_def funpow_Suc_right) (simp add: w)
  have "step_locked f api p (s\<lparr>lib := w\<rparr>) = (Inr rc, s\<lparr>lib := stepped api p (Suc k) w\<rparr>)"
    using Suc.IH [of "s\<lparr>lib := w\<rparr>" f] Suc.prems f shift by fastforce
  with w f shift show ?case by (simp add: bindM_def call_lib_def)
qed



end
