(* ===== verification/SqlText.thy ===== *)
theory SqlText
  imports SqliteLib
begin

text \<open>
  What the SQL texts of \<open>sqlite_lib_db.cc\<close> mean. The texts are put together from fixed parts and from names
  that \<open>sqlite3_mprintf\<close> quotes; \<open>parse_sql\<close> reads a text of the six forms back as the statement it stands
  for. That every text of the backend parses as the intended statement, whatever the names contain, is what
  makes the statement cache and the contract with SQLite (\<open>SqlStore\<close>) talk about statements.
\<close>

section \<open>Statements\<close>

datatype sql_stmt =
    SelectRow string
  | SelectRange string
  | UpdateRow string "string list"
  | InsertRow string "string list"
  | DeleteRow string
  | CreateTable string "string list"

text \<open>The format \<open>%Q\<close> of \<open>sqlite3_mprintf\<close>: quotes around the string, and every quote inside doubled.\<close>

definition quote_body :: "string \<Rightarrow> string" where
  "quote_body s = concat (map (\<lambda>c. if c = CHR 0x27 then [CHR 0x27, CHR 0x27] else [c]) s)"

definition quote_sql :: "string \<Rightarrow> string" where
  "quote_sql s = CHR 0x27 # quote_body s @ [CHR 0x27]"

section \<open>Parsing\<close>

fun literal :: "string \<Rightarrow> string \<Rightarrow> string option" where
  "literal [] s = Some s"
| "literal (c # cs) [] = None"
| "literal (c # cs) (d # s) = (if c = d then literal cs s else None)"

text \<open>The rest of a quoted name behind its opening quote, and a quoted name.\<close>

fun unquote :: "string \<Rightarrow> (string \<times> string) option" where
  "unquote [] = None"
| "unquote (c # s) =
     (if c \<noteq> CHR 0x27 then map_option (apfst (Cons c)) (unquote s)
      else case s of
        [] \<Rightarrow> Some ([], [])
      | d # s' \<Rightarrow> if d = CHR 0x27 then map_option (apfst (Cons c)) (unquote s') else Some ([], s))"

definition name_at :: "string \<Rightarrow> (string \<times> string) option" where
  "name_at s = Option.bind (literal [CHR 0x27] s) unquote"

text \<open>Repeated parts, with a bound on their number: a text has no more of them than characters.\<close>

primrec names_at :: "nat \<Rightarrow> string \<Rightarrow> string \<Rightarrow> string \<Rightarrow> string list \<times> string" where
  "names_at 0 pre post s = ([], s)"
| "names_at (Suc n) pre post s =
     (case Option.bind (literal pre s) name_at of
        None \<Rightarrow> ([], s)
      | Some (x, s1) \<Rightarrow>
          (case literal post s1 of
             None \<Rightarrow> ([], s)
           | Some s2 \<Rightarrow> apfst (Cons x) (names_at n pre post s2)))"

primrec marks_at :: "nat \<Rightarrow> string \<Rightarrow> nat \<times> string" where
  "marks_at 0 s = (0, s)"
| "marks_at (Suc n) s = (case literal '', ?'' s of None \<Rightarrow> (0, s) | Some s' \<Rightarrow> apfst Suc (marks_at n s'))"

definition parse_select :: "string \<Rightarrow> sql_stmt option" where
  "parse_select s =
     Option.bind (literal ''SELECT * FROM '' s) (\<lambda>s. Option.bind (name_at s) (\<lambda>(t, s).
       if s = ''  WHERE YCSBC_KEY = ?'' then Some (SelectRow t)
       else if s = ''  WHERE YCSBC_KEY >= ? LIMIT ?;'' then Some (SelectRange t) else None))"

definition parse_update :: "string \<Rightarrow> sql_stmt option" where
  "parse_update s =
     Option.bind (literal ''UPDATE '' s) (\<lambda>s. Option.bind (name_at s) (\<lambda>(t, s).
     Option.bind (literal '' SET '' s) (\<lambda>s. Option.bind (name_at s) (\<lambda>(c, s).
     Option.bind (literal '' = ?'' s) (\<lambda>s.
       case names_at (length s) '', '' '' = ?'' s of (cs, s) \<Rightarrow>
         if s = '' WHERE YCSBC_KEY = ?;'' then Some (UpdateRow t (c # cs)) else None)))))"

definition parse_insert :: "string \<Rightarrow> sql_stmt option" where
  "parse_insert s =
     Option.bind (literal ''INSERT INTO '' s) (\<lambda>s. Option.bind (name_at s) (\<lambda>(t, s).
     Option.bind (literal '' (YCSBC_KEY'' s) (\<lambda>s.
       case names_at (length s) '', '' [] s of (cs, s) \<Rightarrow>
     Option.bind (literal '') VALUES (?'' s) (\<lambda>s.
       case marks_at (length s) s of (n, s) \<Rightarrow>
         if s = '');'' \<and> n = length cs then Some (InsertRow t cs) else None))))"

definition parse_delete :: "string \<Rightarrow> sql_stmt option" where
  "parse_delete s =
     Option.bind (literal ''DELETE FROM '' s) (\<lambda>s. Option.bind (name_at s) (\<lambda>(t, s).
       if s = '' WHERE YCSBC_KEY = ?'' then Some (DeleteRow t) else None))"

definition parse_create :: "string \<Rightarrow> sql_stmt option" where
  "parse_create s =
     Option.bind (literal ''CREATE TABLE IF NOT EXISTS '' s) (\<lambda>s. Option.bind (name_at s) (\<lambda>(t, s).
     Option.bind (literal '' (YCSBC_KEY VARCHAR PRIMARY KEY'' s) (\<lambda>s.
       case names_at (length s) '', '' '' TEXT'' s of (cs, s) \<Rightarrow>
         if s = '');'' then Some (CreateTable t cs) else None)))"

definition or_else :: "'a option \<Rightarrow> 'a option \<Rightarrow> 'a option" where
  "or_else a b = (case a of None \<Rightarrow> b | Some x \<Rightarrow> Some x)"

definition parse_sql :: "string \<Rightarrow> sql_stmt option" where
  "parse_sql s =
     or_else (parse_select s) (or_else (parse_update s) (or_else (parse_insert s)
       (or_else (parse_delete s) (parse_create s))))"

section \<open>Reading back what was written\<close>

lemma literal_append [simp]: "literal l (l @ s) = Some s"
  by (induction l) simp_all

text \<open>What may follow a quoted name: anything but another quote.\<close>

definition ends_name :: "string \<Rightarrow> bool" where
  "ends_name s \<longleftrightarrow> (case s of [] \<Rightarrow> True | c # _ \<Rightarrow> c \<noteq> CHR 0x27)"

lemma unquote_body: "ends_name s \<Longrightarrow> unquote (quote_body n @ CHR 0x27 # s) = Some (n, s)"
  by (induction n) (auto simp: quote_body_def ends_name_def split: list.splits)

lemma name_at_quote [simp]: "ends_name s \<Longrightarrow> name_at (quote_sql n @ s) = Some (n, s)"
  by (simp add: name_at_def quote_sql_def unquote_body)

lemma names_at_list:
  assumes "\<And>x. ends_name (post @ pre @ x)" and "ends_name (post @ s)" and "literal pre s = None"
    and "length ns \<le> n"
  shows "names_at n pre post (concat (map (\<lambda>x. pre @ quote_sql x @ post) ns) @ s) = (ns, s)"
  using assms(4)
proof (induction ns arbitrary: n)
  case Nil
  then show ?case using assms(3) by (cases n) simp_all
next
  case (Cons x ns)
  then obtain m where m: "n = Suc m" "length ns \<le> m" by (cases n) auto
  let ?rest = "concat (map (\<lambda>x. pre @ quote_sql x @ post) ns) @ s"
  have "ends_name (post @ ?rest)" using assms(1,2) by (cases ns) simp_all
  from name_at_quote [OF this, of x] show ?case using Cons.IH [OF m(2)] m(1) by simp
qed

lemma marks_at_list:
  "literal '', ?'' s = None \<Longrightarrow> k \<le> n \<Longrightarrow> marks_at n (concat (replicate k '', ?'') @ s) = (k, s)"
proof (induction k arbitrary: n)
  case 0
  then show ?case by (cases n) simp_all
next
  case (Suc k)
  then obtain m where m: "n = Suc m" "k \<le> m" by (cases n) auto
  show ?case using Suc.IH [OF Suc.prems(1) m(2)] m(1) literal_append [of "'', ?''"] by simp
qed

lemma length_parts:
  "(\<And>x. 0 < length (f x)) \<Longrightarrow> length ns \<le> length (concat (map f ns) @ s)"
proof (induction ns)
  case (Cons x ns)
  obtain k where "length (f x) = Suc k" using Cons.prems [of x] gr0_implies_Suc by blast
  moreover have "length ns \<le> length (concat (map f ns) @ s)" by (rule Cons.IH) (rule Cons.prems)
  ultimately show ?case by simp
qed simp

lemma names_at_all:
  assumes "\<And>x. ends_name (post @ pre @ x)" and "ends_name (post @ s)" and "literal pre s = None"
  shows "names_at (length (concat (map (\<lambda>x. pre @ quote_sql x @ post) ns) @ s)) pre post
      (concat (map (\<lambda>x. pre @ quote_sql x @ post) ns) @ s) = (ns, s)"
  by (rule names_at_list [OF assms length_parts]) (simp add: quote_sql_def)

lemma marks_at_all:
  "literal '', ?'' s = None \<Longrightarrow>
     marks_at (length (concat (replicate k '', ?'') @ s)) (concat (replicate k '', ?'') @ s) = (k, s)"
  using length_parts [of "\<lambda>_. '', ?''" "replicate k ()" s] by (intro marks_at_list) simp_all

text \<open>A library whose \<open>sqlite3_mprintf\<close> quotes as documented.\<close>

definition quotes :: "'w sqlite \<Rightarrow> bool" where
  "quotes api \<longleftrightarrow> sq_escape api = quote_sql"

lemma escape_quotes: "quotes api \<Longrightarrow> escape_sql api n = quote_sql (c_str n)"
  by (simp add: quotes_def escape_sql_def)

lemma set_clauses_parts:
  "quotes api \<Longrightarrow> set_clauses api False vs =
     concat (map (\<lambda>x. '', '' @ quote_sql x @ '' = ?'') (map (c_str \<circ> fst) vs))"
  by (induction vs) (simp_all add: escape_quotes)

lemma parse_read: "quotes api \<Longrightarrow> parse_sql (read_sql api t) = Some (SelectRow (c_str t))"
  unfolding parse_sql_def parse_select_def read_sql_def escape_quotes
  by (simp add: or_else_def ends_name_def escape_quotes)

lemma parse_scan: "quotes api \<Longrightarrow> parse_sql (scan_sql api t) = Some (SelectRange (c_str t))"
  unfolding parse_sql_def parse_select_def scan_sql_def
  by (simp add: or_else_def ends_name_def escape_quotes)

lemma parse_delete: "quotes api \<Longrightarrow> parse_sql (delete_sql api t) = Some (DeleteRow (c_str t))"
  unfolding parse_sql_def parse_select_def parse_update_def parse_insert_def parse_delete_def delete_sql_def
  by (simp add: or_else_def ends_name_def escape_quotes)

lemma parse_create:
  assumes "quotes api"
  shows "parse_sql (create_sql api t) = Some (CreateTable (c_str (table_name t)) (map c_str (table_columns t)))"
proof -
  let ?s = "concat (map (\<lambda>x. '', '' @ quote_sql x @ '' TEXT'') (map c_str (table_columns t))) @ '');''"
  have sql: "create_sql api t = ''CREATE TABLE IF NOT EXISTS '' @ quote_sql (c_str (table_name t)) @
      '' (YCSBC_KEY VARCHAR PRIMARY KEY'' @ ?s"
    by (simp add: create_sql_def escape_quotes [OF assms] comp_def)
  have "names_at (length ?s) '', '' '' TEXT'' ?s = (map c_str (table_columns t), '');'')"
    by (rule names_at_all) (simp_all add: ends_name_def)
  then show ?thesis
    unfolding sql parse_sql_def parse_select_def parse_update_def parse_insert_def parse_delete_def parse_create_def
    by (simp add: or_else_def ends_name_def del: map_map length_append)
qed

lemma parse_insert:
  assumes "quotes api"
  shows "parse_sql (insert_sql api t vs) = Some (InsertRow (c_str t) (map (c_str \<circ> fst) vs))"
proof -
  let ?ns = "map (c_str \<circ> fst) vs" and ?v = "concat (replicate (length vs) '', ?'') @ '');''"
  let ?s = "concat (map (\<lambda>x. '', '' @ quote_sql x @ []) ?ns) @ '') VALUES (?'' @ ?v"
  have "concat (map (\<lambda>_. '', ?'') vs) = concat (replicate (length vs) '', ?'')" by (induction vs) simp_all
  then have sql: "insert_sql api t vs = ''INSERT INTO '' @ quote_sql (c_str t) @ '' (YCSBC_KEY'' @ ?s"
    by (simp add: insert_sql_def escape_quotes [OF assms] comp_def)
  have "names_at (length ?s) '', '' [] ?s = (?ns, '') VALUES (?'' @ ?v)"
    by (rule names_at_all) (simp_all add: ends_name_def)
  moreover have "marks_at (length ?v) ?v = (length vs, '');'')"
    by (rule marks_at_all) simp
  ultimately show ?thesis
    unfolding sql parse_sql_def parse_select_def parse_update_def parse_insert_def
    by (simp add: or_else_def ends_name_def del: map_map length_append)
qed

text \<open>An update of no field is no statement.\<close>

lemma parse_update:
  assumes "quotes api" and "vs \<noteq> []"
  shows "parse_sql (update_sql api t vs) = Some (UpdateRow (c_str t) (map (c_str \<circ> fst) vs))"
proof -
  obtain v ws where vs: "vs = v # ws" using assms(2) by (cases vs) simp_all
  let ?ns = "map (c_str \<circ> fst) ws"
  let ?s = "concat (map (\<lambda>x. '', '' @ quote_sql x @ '' = ?'') ?ns) @ '' WHERE YCSBC_KEY = ?;''"
  have sql: "update_sql api t vs = ''UPDATE '' @ quote_sql (c_str t) @ '' SET '' @ quote_sql (c_str (fst v)) @ '' = ?'' @ ?s"
    by (simp add: update_sql_def escape_quotes [OF assms(1)] vs set_clauses_parts [OF assms(1)])
  have "names_at (length ?s) '', '' '' = ?'' ?s = (?ns, '' WHERE YCSBC_KEY = ?;'')"
    by (rule names_at_all) (simp_all add: ends_name_def)
  then show ?thesis
    unfolding sql parse_sql_def parse_select_def parse_update_def
    by (simp add: or_else_def ends_name_def vs del: map_map length_append)
qed

text \<open>
  C25: Quoting makes every statement mean what it should. Whatever characters the names of tables and fields
  contain, quotes included, each text that the backend sends to SQLite parses as the intended statement with
  exactly these names; so no name changes the statement around it, and texts of the cache agree only when the
  statements do.
\<close>

theorem sql_texts_mean:
  assumes "quotes api"
  shows "parse_sql (read_sql api t) = Some (SelectRow (c_str t)) \<and>
    parse_sql (scan_sql api t) = Some (SelectRange (c_str t)) \<and>
    parse_sql (insert_sql api t vs) = Some (InsertRow (c_str t) (map (c_str \<circ> fst) vs)) \<and>
    (vs \<noteq> [] \<longrightarrow> parse_sql (update_sql api t vs) = Some (UpdateRow (c_str t) (map (c_str \<circ> fst) vs))) \<and>
    parse_sql (delete_sql api t) = Some (DeleteRow (c_str t)) \<and>
    parse_sql (create_sql api d) = Some (CreateTable (c_str (table_name d)) (map c_str (table_columns d)))"
  using assms by (simp add: parse_read parse_scan parse_insert parse_update parse_delete parse_create)

theorem sql_texts_mean_witness:
  "parse_sql (insert_sql (script_api\<lparr>sq_escape := quote_sql\<rparr>) ''t' ('' [(''a'', ''1'')]) =
     Some (InsertRow ''t' ('' [''a''])"
proof -
  have "quotes (script_api\<lparr>sq_escape := quote_sql\<rparr>)" by (simp add: quotes_def)
  from sql_texts_mean [OF this, of "''t' (''" "[(''a'', ''1'')]"] show ?thesis by (simp add: c_str_def)
qed

end
