(* ===== verification/SqlStore.thy ===== *)
theory SqlStore
  imports SqlText HashtableDB
begin

text \<open>
  The SQLite backend on a library that keeps its promises. The locale \<open>sqlite_contract\<close> states what the
  backend relies on of SQLite, as its documentation has it, over an abstract state (\<open>sql_view\<close>): tables with their
  rows, open connections, and prepared statements with their bindings and their place between two resets.
  Its lemmas follow the operations of \<open>sqlite_lib_db.cc\<close> call by call. \<open>mini_sqlite\<close> is a library with these
  promises, on which the properties are applied to concrete inputs.
\<close>

section \<open>What SQLite promises\<close>

text \<open>
  A row holds the columns that are not NULL; a table has its columns besides the key, and rows by key. A query
  stands at a row with the rows that are still to come.
\<close>

type_synonym sql_row = "string \<rightharpoonup> string"
type_synonym sql_table = "string list \<times> (string \<rightharpoonup> sql_row)"
type_synonym sql_tables = "string \<rightharpoonup> sql_table"

type_synonym shown_row = "(string \<times> string option) list"

datatype run = Ready | AtRow shown_row "shown_row list" | Ended | Failed

record prepared =
  ps_stmt :: sql_stmt
  ps_binds :: "nat \<rightharpoonup> string"
  ps_limit :: "int option"
  ps_run :: run

record sql_view =
  sv_tables :: sql_tables
  sv_conns :: "nat set"
  sv_stmts :: "nat \<rightharpoonup> prepared"

definition new_stmt :: "sql_stmt \<Rightarrow> prepared" where
  "new_stmt c = \<lparr>ps_stmt = c, ps_binds = Map.empty, ps_limit = None, ps_run = Ready\<rparr>"

text \<open>The parameters that are given a text; the limit of a range is a number and is bound apart.\<close>

primrec params :: "sql_stmt \<Rightarrow> nat" where
  "params (SelectRow t) = 1"
| "params (SelectRange t) = 1"
| "params (UpdateRow t cs) = Suc (length cs)"
| "params (InsertRow t cs) = Suc (length cs)"
| "params (DeleteRow t) = 1"
| "params (CreateTable t cs) = 0"

definition key_column :: string where
  "key_column = ''YCSBC_KEY''"

text \<open>
  The limits of the promises: SQL texts and values are ASCII without NUL of at most a million characters, a
  statement has at most 999 parameters, and names are told apart without regard to case.
\<close>

definition sql_string :: "string \<Rightarrow> bool" where
  "sql_string str \<longleftrightarrow> length str \<le> 1000000 \<and> (\<forall>c \<in> set str. c \<noteq> CHR 0x00 \<and> of_char c < (128 :: nat))"

definition fold_case :: "string \<Rightarrow> string" where
  "fold_case s = map (\<lambda>c. let n = of_char c in if (65 :: nat) \<le> n \<and> n \<le> 90 then char_of (n + 32) else c) s"

text \<open>A statement can be prepared when its table has the columns that it names.\<close>

definition columns_of :: "sql_tables \<Rightarrow> string \<Rightarrow> string list option" where
  "columns_of T t = map_option fst (T t)"

primrec stmt_ok :: "sql_tables \<Rightarrow> sql_stmt \<Rightarrow> bool" where
  "stmt_ok T (SelectRow t) = (columns_of T t \<noteq> None)"
| "stmt_ok T (SelectRange t) = (columns_of T t \<noteq> None)"
| "stmt_ok T (UpdateRow t cs) = (\<exists>cols. columns_of T t = Some cols \<and> set cs \<subseteq> set cols)"
| "stmt_ok T (InsertRow t cs) = (\<exists>cols. columns_of T t = Some cols \<and> set cs \<subseteq> set cols \<and> distinct cs)"
| "stmt_ok T (DeleteRow t) = (columns_of T t \<noteq> None)"
| "stmt_ok T (CreateTable t cs) = False"

definition create_ok :: "sql_tables \<Rightarrow> string \<Rightarrow> string list \<Rightarrow> bool" where
  "create_ok T t cs \<longleftrightarrow>
     distinct (map fold_case (key_column # cs)) \<and> length cs < 999 \<and> take 7 (fold_case t) \<noteq> ''sqlite_'' \<and>
     (\<forall>t' \<in> dom T. fold_case t' = fold_case t \<longrightarrow> t' = t)"

definition result_row :: "string list \<Rightarrow> string \<Rightarrow> sql_row \<Rightarrow> shown_row" where
  "result_row cols k r = (key_column, Some k) # map (\<lambda>c. (c, r c)) cols"

text \<open>
  One step of a statement whose parameters are bound: a statement that changes rows ends at once, and an insert
  of a key that is present violates the primary key. Of an assignment list the last value of a column counts.
\<close>

fun sql_step_spec :: "sql_tables \<Rightarrow> sql_stmt \<Rightarrow> string list \<Rightarrow> (sql_tables \<times> run) option" where
  "sql_step_spec T (SelectRow t) [k] =
     (case T t of None \<Rightarrow> None
      | Some (cols, rows) \<Rightarrow> Some (T, case rows k of None \<Rightarrow> Ended | Some r \<Rightarrow> AtRow (result_row cols k r) []))"
| "sql_step_spec T (InsertRow t cs) (k # vs) =
     (case T t of None \<Rightarrow> None
      | Some (cols, rows) \<Rightarrow>
          if rows k \<noteq> None then Some (T, Failed)
          else Some (T(t \<mapsto> (cols, rows(k \<mapsto> map_of (zip cs vs)))), Ended))"
| "sql_step_spec T (UpdateRow t cs) (vs) =
     (case T t of None \<Rightarrow> None
      | Some (cols, rows) \<Rightarrow>
          (case rows (last vs) of
             None \<Rightarrow> Some (T, Ended)
           | Some r \<Rightarrow> Some (T(t \<mapsto> (cols, rows(last vs \<mapsto> r ++ map_of (rev (zip cs vs))))), Ended)))"
| "sql_step_spec T (DeleteRow t) [k] =
     (case T t of None \<Rightarrow> None
      | Some (cols, rows) \<Rightarrow> Some (T(t \<mapsto> (cols, rows(k := None))), Ended))"
| "sql_step_spec T c vs = None"

primrec step_code :: "run \<Rightarrow> int \<Rightarrow> bool" where
  "step_code Ready rc = False"
| "step_code (AtRow r rs) rc = (rc = SQLITE_ROW)"
| "step_code Ended rc = (rc = SQLITE_DONE)"
| "step_code Failed rc = (rc \<noteq> SQLITE_ROW \<and> rc \<noteq> SQLITE_DONE \<and> rc \<noteq> SQLITE_LOCKED)"

text \<open>
  What a range query may answer. Without an \<open>ORDER BY\<close> the documentation leaves the order of its rows open, and
  with it which rows a limit keeps; a negative limit is none. Keys are compared byte by byte.
\<close>

definition keys_from :: "string \<Rightarrow> (string \<rightharpoonup> sql_row) \<Rightarrow> string set" where
  "keys_from k rows = {k' \<in> dom rows. k \<le> k'}"

definition range_keys :: "(string \<rightharpoonup> sql_row) \<Rightarrow> string \<Rightarrow> int \<Rightarrow> string list \<Rightarrow> bool" where
  "range_keys rows k n ks \<longleftrightarrow>
     distinct ks \<and> set ks \<subseteq> keys_from k rows \<and>
     length ks = (if 0 \<le> n then min (nat n) (card (keys_from k rows)) else card (keys_from k rows))"

definition range_rows :: "string list \<Rightarrow> (string \<rightharpoonup> sql_row) \<Rightarrow> string list \<Rightarrow> shown_row list" where
  "range_rows cols rows ks = map (\<lambda>k'. result_row cols k' (the (rows k'))) ks"

primrec run_of :: "shown_row list \<Rightarrow> run" where
  "run_of [] = Ended"
| "run_of (r # rs) = AtRow r rs"

text \<open>The values bound to the parameters, when all of them are.\<close>

definition bound :: "prepared \<Rightarrow> string list \<Rightarrow> bool" where
  "bound st vs \<longleftrightarrow> length vs = params (ps_stmt st) \<and> (\<forall>i < length vs. ps_binds st (Suc i) = Some (vs ! i))"

definition put_stmt :: "nat \<Rightarrow> prepared \<Rightarrow> sql_view \<Rightarrow> sql_view" where
  "put_stmt p st v = v\<lparr>sv_stmts := (sv_stmts v)(p \<mapsto> st)\<rparr>"

definition create_table :: "string \<Rightarrow> string list \<Rightarrow> sql_tables \<Rightarrow> sql_tables" where
  "create_table t cs T = (case T t of None \<Rightarrow> T(t \<mapsto> (cs, Map.empty)) | Some _ \<Rightarrow> T)"

lemma put_stmt_simps [simp]:
  "sv_tables (put_stmt p st v) = sv_tables v" "sv_conns (put_stmt p st v) = sv_conns v"
  "sv_stmts (put_stmt p st v) = (sv_stmts v)(p \<mapsto> st)" "put_stmt p st (put_stmt p st' v) = put_stmt p st v"
  "put_stmt p st v\<lparr>sv_tables := T\<rparr> = put_stmt p st (v\<lparr>sv_tables := T\<rparr>)"
  by (simp_all add: put_stmt_def)

lemma new_stmt_simps [simp]:
  "ps_stmt (new_stmt c) = c" "ps_binds (new_stmt c) = Map.empty" "ps_run (new_stmt c) = Ready"
  "ps_limit (new_stmt c) = None"
  by (simp_all add: new_stmt_def)

locale sqlite_contract =
  fixes api :: "'w sqlite" and name :: string and uri :: bool and view :: "'w \<Rightarrow> sql_view"
  assumes quoting: "quotes api"
    and opens: "\<exists>h w'. sq_open api name uri w = ((SQLITE_OK, h), w') \<and> h \<notin> sv_conns (view w) \<and>
      view w' = (view w)\<lparr>sv_conns := insert h (sv_conns (view w))\<rparr>"
    and executes: "h \<in> sv_conns (view w) \<Longrightarrow> sql_string sql \<Longrightarrow> parse_sql sql = Some (CreateTable t cs) \<Longrightarrow>
      create_ok (sv_tables (view w)) t cs \<Longrightarrow>
      \<exists>w'. sq_exec api h sql w = (SQLITE_OK, w') \<and>
        view w' = (view w)\<lparr>sv_tables := create_table t cs (sv_tables (view w))\<rparr>"
    and prepares: "h \<in> sv_conns (view w) \<Longrightarrow> sql_string sql \<Longrightarrow> parse_sql sql = Some c \<Longrightarrow>
      params c \<le> 999 \<Longrightarrow> stmt_ok (sv_tables (view w)) c \<Longrightarrow>
      \<exists>p w'. sq_prepare api h sql w = ((SQLITE_OK, p), w') \<and> sv_stmts (view w) p = None \<and>
        view w' = put_stmt p (new_stmt c) (view w)"
    and binds: "sv_stmts (view w) p = Some st \<Longrightarrow> ps_run st = Ready \<Longrightarrow> sql_string str \<Longrightarrow>
      1 \<le> i \<Longrightarrow> i \<le> params (ps_stmt st) \<Longrightarrow>
      \<exists>w'. sq_bind_text api p i str w = (SQLITE_OK, w') \<and>
        view w' = put_stmt p (st\<lparr>ps_binds := (ps_binds st)(i \<mapsto> str)\<rparr>) (view w)"
    and misuse: "sv_stmts (view w) p = Some st \<Longrightarrow> ps_run st \<noteq> Ready \<Longrightarrow>
      \<exists>rc w'. sq_bind_text api p i str w = (rc, w') \<and> rc \<noteq> SQLITE_OK \<and> view w' = view w"
    and steps: "sv_stmts (view w) p = Some st \<Longrightarrow> ps_run st = Ready \<Longrightarrow> bound st vs \<Longrightarrow>
      sql_step_spec (sv_tables (view w)) (ps_stmt st) vs = Some (T, r) \<Longrightarrow>
      \<exists>rc w'. sq_step api p w = (rc, w') \<and> step_code r rc \<and>
        view w' = put_stmt p (st\<lparr>ps_run := r\<rparr>) ((view w)\<lparr>sv_tables := T\<rparr>)"
    and limits: "sv_stmts (view w) p = Some st \<Longrightarrow> ps_run st = Ready \<Longrightarrow> ps_stmt st = SelectRange t \<Longrightarrow>
      \<exists>w'. sq_bind_int api p 2 n w = (SQLITE_OK, w') \<and> view w' = put_stmt p (st\<lparr>ps_limit := Some n\<rparr>) (view w)"
    and ranges: "sv_stmts (view w) p = Some st \<Longrightarrow> ps_run st = Ready \<Longrightarrow> ps_stmt st = SelectRange t \<Longrightarrow>
      bound st [k] \<Longrightarrow> ps_limit st = Some n \<Longrightarrow> sv_tables (view w) t = Some (cols, rows) \<Longrightarrow> finite (dom rows) \<Longrightarrow>
      \<exists>ks rc w'. range_keys rows k n ks \<and> sq_step api p w = (rc, w') \<and>
        step_code (run_of (range_rows cols rows ks)) rc \<and>
        view w' = put_stmt p (st\<lparr>ps_run := run_of (range_rows cols rows ks)\<rparr>) (view w)"
    and advances: "sv_stmts (view w) p = Some st \<Longrightarrow> ps_run st = AtRow row rest \<Longrightarrow>
      \<exists>rc w'. sq_step api p w = (rc, w') \<and> step_code (run_of rest) rc \<and>
        view w' = put_stmt p (st\<lparr>ps_run := run_of rest\<rparr>) (view w)"
    and shows_row: "sv_stmts (view w) p = Some st \<Longrightarrow> ps_run st = AtRow row rest \<Longrightarrow>
      sq_data_count api p w = length row \<and>
      (\<forall>i < length row. sq_column_name api p i w = fst (row ! i) \<and> sq_column_text api p i w = snd (row ! i))"
    and clears: "sv_stmts (view w) p = Some st \<Longrightarrow>
      \<exists>w'. sq_clear_bindings api p w = (SQLITE_OK, w') \<and> view w' = put_stmt p (st\<lparr>ps_binds := Map.empty, ps_limit := None\<rparr>) (view w)"
    and resets: "sv_stmts (view w) p = Some st \<Longrightarrow> ps_run st \<noteq> Failed \<Longrightarrow>
      \<exists>w'. sq_reset api p w = (SQLITE_OK, w') \<and> view w' = put_stmt p (st\<lparr>ps_run := Ready\<rparr>) (view w)"
begin

end

section \<open>The context of a thread\<close>

text \<open>
  A statement of the cache that is as its text says and can be used. A context is in order, apart from the
  texts in \<open>bad\<close>, when it has an open connection and every other statement of its cache can be used.
\<close>

definition stmt_in :: "sql_view \<Rightarrow> string \<Rightarrow> nat \<Rightarrow> bool" where
  "stmt_in v sql p \<longleftrightarrow> (\<exists>st. sv_stmts v p = Some st \<and> parse_sql sql = Some (ps_stmt st) \<and> ps_run st = Ready)"

text \<open>Names and contents of the tables are C strings, and tables are finite.\<close>

definition clean_table :: "sql_table \<Rightarrow> bool" where
  "clean_table tb \<longleftrightarrow> (\<forall>c \<in> set (fst tb). c_str c = c) \<and> finite (dom (snd tb)) \<and>
     (\<forall>k r. snd tb k = Some r \<longrightarrow> c_str k = k \<and> (\<forall>c v. r c = Some v \<longrightarrow> c_str v = v))"

definition clean :: "sql_tables \<Rightarrow> bool" where
  "clean T \<longleftrightarrow> (\<forall>t tb. T t = Some tb \<longrightarrow> clean_table tb)"

lemma clean_put: "clean T \<Longrightarrow> clean_table tb \<Longrightarrow> clean (T(t \<mapsto> tb))"
  by (cases tb) (simp add: clean_def)

lemma clean_row:
  assumes "clean_table (cols, rows)"
  shows "clean_table (cols, rows(k := None))"
    and "c_str k = k \<Longrightarrow> (\<And>c v. r c = Some v \<Longrightarrow> c_str v = v) \<Longrightarrow> clean_table (cols, rows(k \<mapsto> r))"
  using assms by (auto simp: clean_table_def)

definition ctx_ok :: "('w \<Rightarrow> sql_view) \<Rightarrow> string set \<Rightarrow> 'w sql_ctx \<Rightarrow> bool" where
  "ctx_ok view bad s \<longleftrightarrow> clean (sv_tables (view (lib s))) \<and> (\<exists>h. database s = Some h \<and> h \<in> sv_conns (view (lib s))) \<and> cache_inv s \<and> distinct (map snd (stmts s)) \<and>
     (\<forall>(sql, p) \<in> set (stmts s). sv_stmts (view (lib s)) p \<noteq> None \<and> (sql \<notin> bad \<longrightarrow> stmt_in (view (lib s)) sql p))"

abbreviation tables_of :: "('w \<Rightarrow> sql_view) \<Rightarrow> 'w sql_ctx \<Rightarrow> sql_tables" where
  "tables_of view s \<equiv> sv_tables (view (lib s))"

text \<open>The statement of a text in use: cached, under way in the library, with the state \<open>st\<close>.\<close>

definition in_use :: "('w \<Rightarrow> sql_view) \<Rightarrow> string set \<Rightarrow> string \<Rightarrow> nat \<Rightarrow> prepared \<Rightarrow> sql_tables \<Rightarrow> 'w sql_ctx \<Rightarrow> bool" where
  "in_use view bad sql p st T s \<longleftrightarrow>
     ctx_ok view (insert sql bad) s \<and> map_of (stmts s) sql = Some p \<and> sv_stmts (view (lib s)) p = Some st \<and>
     parse_sql sql = Some (ps_stmt st) \<and> tables_of view s = T"

lemma ctx_ok_put:
  assumes "ctx_ok view bad s" and "(sql, p) \<in> set (stmts s)" and "view w = put_stmt p st (view (lib s)\<lparr>sv_tables := T\<rparr>)"
    and "sql \<in> bad" and "clean T"
  shows "ctx_ok view bad (s\<lparr>lib := w\<rparr>)"
proof -
  have "stmt_in (view w) sql' q" if "(sql', q) \<in> set (stmts s)" "sql' \<notin> bad" for sql' q
  proof -
    have "inj_on snd (set (stmts s))" using assms(1) by (simp add: ctx_ok_def distinct_map)
    then have "q \<noteq> p" using inj_onD [of snd "set (stmts s)" "(sql', q)" "(sql, p)"] that assms(2,4) by auto
    then show ?thesis using assms(1,3) that by (auto simp: ctx_ok_def stmt_in_def)
  qed
  then show ?thesis using assms(1,3,5) by (auto simp: ctx_ok_def cache_inv_def)
qed

lemma in_use_step:
  assumes "in_use view bad sql p st T s" and "view w = put_stmt p st' (view (lib s)\<lparr>sv_tables := T'\<rparr>)"
    and "ps_stmt st' = ps_stmt st" and "clean T'"
  shows "in_use view bad sql p st' T' (s\<lparr>lib := w\<rparr>)"
  using assms ctx_ok_put [of view "insert sql bad" s sql p w st' T']
  by (auto simp: in_use_def map_of_SomeD)

lemma in_use_clean: "in_use view bad sql p st T s \<Longrightarrow> clean T"
  by (auto simp: in_use_def ctx_ok_def)

lemma in_use_done:
  assumes "in_use view bad sql p st T s" and "ps_run st = Ready"
  shows "ctx_ok view bad s"
proof -
  have u: "ctx_ok view (insert sql bad) s" "(sql, p) \<in> set (stmts s)" "sv_stmts (view (lib s)) p = Some st"
    "parse_sql sql = Some (ps_stmt st)"
    using assms(1) by (auto simp: in_use_def map_of_SomeD)
  have "q = p" if "(sql, q) \<in> set (stmts s)" for q
    using that u(1,2) eq_key_imp_eq_value [of "stmts s" sql q p] by (simp add: ctx_ok_def cache_inv_def)
  then have "\<forall>(sql', q) \<in> set (stmts s). sql' = sql \<longrightarrow> stmt_in (view (lib s)) sql' q"
    using u(3,4) assms(2) by (auto simp: stmt_in_def)
  then show ?thesis using u(1) by (fastforce simp: ctx_ok_def)
qed

text \<open>An operation that stops with its statement under way spoils the text of that statement.\<close>

definition stuck :: "('w \<Rightarrow> sql_view) \<Rightarrow> string \<Rightarrow> 'w sql_ctx \<Rightarrow> bool" where
  "stuck view sql s \<longleftrightarrow>
     (\<exists>p st. map_of (stmts s) sql = Some p \<and> sv_stmts (view (lib s)) p = Some st \<and> ps_run st \<noteq> Ready)"

text \<open>What values are bound from a position on.\<close>

fun bind_from :: "nat \<Rightarrow> string list \<Rightarrow> (nat \<rightharpoonup> string) \<Rightarrow> (nat \<rightharpoonup> string)" where
  "bind_from i [] b = b"
| "bind_from i (v # vs) b = bind_from (Suc i) vs (b(i \<mapsto> v))"

lemma bind_from_at:
  "bind_from i vs b j = (if i \<le> j \<and> j < i + length vs then Some (vs ! (j - i)) else b j)"
proof (induction vs arbitrary: i b)
  case (Cons v vs)
  show ?case by (auto simp: Cons.IH nth_Cons' Suc_le_eq)
qed auto

context sqlite_contract
begin

lemma get_stmt_run:
  assumes "ctx_ok view bad s" and "sql \<notin> bad" and "parse_sql sql = Some c" and "sql_string sql" and "params c \<le> 999"
    and "stmt_ok (tables_of view s) c"
  obtains p st s' where "get_stmt api sql msg s = (Inr p, s')" "in_use view bad sql p st (tables_of view s) s'"
    "ps_stmt st = c" "ps_run st = Ready"
proof (cases "map_of (stmts s) sql")
  case (Some p)
  then have "(sql, p) \<in> set (stmts s)" by (rule map_of_SomeD)
  then have "stmt_in (view (lib s)) sql p" using assms(1,2) by (auto simp: ctx_ok_def)
  then obtain st where st: "sv_stmts (view (lib s)) p = Some st" "ps_stmt st = c" "ps_run st = Ready"
    using assms(3) by (auto simp: stmt_in_def)
  moreover have "ctx_ok view (insert sql bad) s" using assms(1) by (auto simp: ctx_ok_def)
  ultimately show ?thesis using Some assms(3) get_stmt_cached [OF Some, of api msg]
    by (intro that [of p s st]) (simp_all add: in_use_def)
next
  case None
  obtain h where h: "database s = Some h" "h \<in> sv_conns (view (lib s))" using assms(1) by (auto simp: ctx_ok_def)
  from prepares [OF h(2) assms(4,3,5,6)] obtain p w where w: "sq_prepare api h sql (lib s) = ((SQLITE_OK, p), w)"
    "sv_stmts (view (lib s)) p = None" "view w = put_stmt p (new_stmt c) (view (lib s))" by blast
  let ?s = "s\<lparr>lib := w, stmts := (sql, p) # stmts s\<rparr>"
  have "get_stmt api sql msg s = (Inr p, ?s)"
    using None h(1) w(1) by (simp add: get_stmt_def bindM_def thenM_def op_run db_handle_def call_lib_def)
  moreover have "in_use view bad sql p (new_stmt c) (tables_of view s) ?s"
    using assms(1,3) None h w by (auto simp: in_use_def ctx_ok_def cache_inv_def stmt_in_def map_of_eq_None_iff image_iff)
  ultimately show ?thesis by (intro that [of p ?s "new_stmt c"]) simp_all
qed

lemma bind_run:
  assumes "in_use view bad sql p st T s" and "ps_run st = Ready" and "sql_string str"
    and "1 \<le> i" and "i \<le> params (ps_stmt st)"
  obtains s' where "bind_string api p i str s = (Inr (), s')"
    "in_use view bad sql p (st\<lparr>ps_binds := (ps_binds st)(i \<mapsto> str)\<rparr>) T s'"
proof -
  have "sv_stmts (view (lib s)) p = Some st" using assms(1) by (simp add: in_use_def)
  from binds [OF this assms(2-5)] obtain w where w: "sq_bind_text api p i str (lib s) = (SQLITE_OK, w)"
    "view w = put_stmt p (st\<lparr>ps_binds := (ps_binds st)(i \<mapsto> str)\<rparr>) (view (lib s))" by blast
  have "view (lib s)\<lparr>sv_tables := T\<rparr> = view (lib s)" using assms(1) by (simp add: in_use_def flip: sql_view.surjective)
  with w in_use_step [OF assms(1), of w _ T] in_use_clean [OF assms(1)] show ?thesis
    by (intro that [of "s\<lparr>lib := w\<rparr>"]) (simp_all add: bind_string_def bindM_def call_lib_def op_run)
qed

lemma bind_values_run:
  assumes "in_use view bad sql p st T s" and "ps_run st = Ready" and "\<forall>v \<in> set vs. sql_string (snd v)"
    and "1 \<le> i" and "i + length vs \<le> Suc (params (ps_stmt st))"
  shows "\<exists>s'. bind_values api p i vs s = (Inr (), s') \<and>
    in_use view bad sql p (st\<lparr>ps_binds := bind_from i (map snd vs) (ps_binds st)\<rparr>) T s'"
  using assms
proof (induction vs arbitrary: i st s)
  case Nil
  then show ?case by (simp add: op_simps)
next
  case (Cons v vs)
  let ?st = "st\<lparr>ps_binds := (ps_binds st)(i \<mapsto> snd v)\<rparr>"
  from Cons.prems have pre: "sql_string (snd v)" "i \<le> params (ps_stmt st)" by simp_all
  obtain s1 where s1: "bind_string api p i (snd v) s = (Inr (), s1)" "in_use view bad sql p ?st T s1"
    by (rule bind_run [OF Cons.prems(1,2) pre(1) Cons.prems(4) pre(2)])
  have "\<exists>s'. bind_values api p (Suc i) vs s1 = (Inr (), s') \<and>
    in_use view bad sql p (?st\<lparr>ps_binds := bind_from (Suc i) (map snd vs) (ps_binds ?st)\<rparr>) T s'"
    by (rule Cons.IH [OF s1(2)]) (use Cons.prems in simp_all)
  then show ?case using s1(1) by (auto simp: op_simps)
qed

lemma step_run:
  assumes "in_use view bad sql p st T s" and "ps_run st = Ready" and "bound st vs"
    and "sql_step_spec T (ps_stmt st) vs = Some (T', r)" and "clean T'"
  obtains rc w where "sq_step api p (lib s) = (rc, w)" "step_code r rc"
    "in_use view bad sql p (st\<lparr>ps_run := r\<rparr>) T' (s\<lparr>lib := w\<rparr>)"
proof -
  have u: "sv_stmts (view (lib s)) p = Some st" "tables_of view s = T" using assms(1) by (simp_all add: in_use_def)
  from steps [OF u(1) assms(2,3)] assms(4) u(2) obtain rc w where w: "sq_step api p (lib s) = (rc, w)" "step_code r rc"
    "view w = put_stmt p (st\<lparr>ps_run := r\<rparr>) (view (lib s)\<lparr>sv_tables := T'\<rparr>)" by blast
  with in_use_step [OF assms(1), of w] assms(5) show ?thesis by (intro that [of rc w]) simp_all
qed

lemma finish_run:
  assumes "in_use view bad sql p st T s" and "ps_run st \<noteq> Failed"
  obtains s' where "finish_stmt api p s = (Inr (), s')" "ctx_ok view bad s'" "tables_of view s' = T"
proof -
  have u: "sv_stmts (view (lib s)) p = Some st" "tables_of view s = T" using assms(1) by (simp_all add: in_use_def)
  then have T: "view (lib s)\<lparr>sv_tables := T\<rparr> = view (lib s)" by simp
  from clears [OF u(1)] obtain w1 where w1: "sq_clear_bindings api p (lib s) = (SQLITE_OK, w1)"
    "view w1 = put_stmt p (st\<lparr>ps_binds := Map.empty, ps_limit := None\<rparr>) (view (lib s))" by blast
  have one: "in_use view bad sql p (st\<lparr>ps_binds := Map.empty, ps_limit := None\<rparr>) T (s\<lparr>lib := w1\<rparr>)"
    using in_use_step [OF assms(1), of w1 _ T] w1(2) T in_use_clean [OF assms(1)] by simp
  from resets [of w1 p "st\<lparr>ps_binds := Map.empty, ps_limit := None\<rparr>"] w1(2) assms(2) obtain w2 where w2:
    "sq_reset api p w1 = (SQLITE_OK, w2)" "view w2 = put_stmt p (st\<lparr>ps_binds := Map.empty, ps_limit := None, ps_run := Ready\<rparr>) (view w1)"
    by auto
  have "view w1\<lparr>sv_tables := T\<rparr> = view w1" using w1(2) T by simp
  then have two: "in_use view bad sql p (st\<lparr>ps_binds := Map.empty, ps_limit := None, ps_run := Ready\<rparr>) T (s\<lparr>lib := w2\<rparr>)"
    using in_use_step [OF one, of w2 _ T] w2(2) in_use_clean [OF one] by simp
  have "finish_stmt api p s = (Inr (), s\<lparr>lib := w2\<rparr>)"
    using w1(1) w2(1) by (simp add: finish_stmt_def check_sqlite_def bindM_def thenM_def call_lib_def op_run)
  moreover have "tables_of view (s\<lparr>lib := w2\<rparr>) = T" using two by (simp add: in_use_def)
  ultimately show ?thesis using in_use_done [OF two] by (intro that [of "s\<lparr>lib := w2\<rparr>"]) simp_all
qed

lemma in_use_stuck:
  assumes "in_use view bad sql p st T s" and "ps_run st \<noteq> Ready"
  shows "ctx_ok view (insert sql bad) s" and "stuck view sql s" and "tables_of view s = T"
  using assms by (auto simp: in_use_def stuck_def)

end

section \<open>What the operations do to the tables\<close>

text \<open>The record that an insert writes and an update adds to is that of the in-memory backend (\<open>write_all\<close>).\<close>

lemma zip_names: "zip (map (c_str \<circ> fst) vs) (map snd vs) = map (\<lambda>v. (c_str (fst v), snd v)) vs"
  by (induction vs) simp_all

lemma sql_string_c_str: "sql_string s \<Longrightarrow> c_str s = s"
  by (auto simp: sql_string_def intro: c_str_id)

lemma write_all_zip:
  "\<forall>v \<in> set vs. sql_string (snd v) \<Longrightarrow>
     write_all vs r = r ++ map_of (rev (zip (map (c_str \<circ> fst) vs) (map snd vs)))"
  unfolding zip_names write_all_def
  by (intro arg_cong2 [where f = "(++)"] arg_cong [where f = map_of] arg_cong [where f = rev] map_cong refl)
    (simp add: sql_string_c_str)

text \<open>The order of different names does not matter.\<close>

lemma write_all_sorted:
  assumes "distinct (map (c_str \<circ> fst) vs)" and "\<forall>v \<in> set vs. sql_string (snd v)"
  shows "map_of (zip (map (c_str \<circ> fst) (sort_fields vs)) (map snd (sort_fields vs))) = write_all vs Map.empty"
proof -
  let ?f = "\<lambda>v. (c_str (fst v), snd v)"
  have d: "distinct (map fst (map ?f vs))" using assms(1) by (simp add: comp_def)
  have m: "mset (sort_fields vs) = mset vs" by (simp add: sort_fields_def)
  then have "mset (map ?f (sort_fields vs)) = mset (map ?f vs)" by simp
  then have "set (map ?f (sort_fields vs)) = set (map ?f vs)" by (rule mset_eq_setD)
  moreover have "mset (map fst (map ?f (sort_fields vs))) = mset (map fst (map ?f vs))" using m by simp
  then have "distinct (map fst (map ?f (sort_fields vs)))" using d mset_eq_imp_distinct_iff by blast
  moreover have "distinct (map fst (rev (map ?f vs)))" using d by (simp flip: rev_map)
  ultimately have "map_of (map ?f (sort_fields vs)) = map_of (rev (map ?f vs))"
    by (subst map_of_inject_set) simp_all
  then show ?thesis using write_all_zip [OF assms(2), of Map.empty] by (simp only: zip_names) simp
qed

lemma write_all_clean:
  "\<forall>c v. r c = Some v \<longrightarrow> c_str v = v \<Longrightarrow> write_all vs r c = Some v \<Longrightarrow> c_str v = v"
proof (induction vs arbitrary: r)
  case (Cons p ps)
  have "\<forall>c v. (r(c_str (fst p) \<mapsto> c_str (snd p))) c = Some v \<longrightarrow> c_str v = v" using Cons.prems(1) by simp
  from Cons.IH [OF this] Cons.prems(2) [unfolded write_all_simps] show ?case .
qed simp

lemma bound_insert:
  "params (ps_stmt st) = Suc (length vs) \<Longrightarrow> bound (st\<lparr>ps_binds := bind_from 2 vs (b(1 \<mapsto> k))\<rparr>) (k # vs)"
  by (auto simp: bound_def bind_from_at nth_Cons')

lemma bound_update:
  "params (ps_stmt st) = Suc (length vs) \<Longrightarrow>
     bound (st\<lparr>ps_binds := (bind_from 1 vs b)(Suc (length vs) \<mapsto> k)\<rparr>) (vs @ [k])"
  by (auto simp: bound_def bind_from_at nth_append less_Suc_eq)

lemma step_locked_once:
  "sq_step api p (lib s) = (rc, w) \<Longrightarrow> rc \<noteq> SQLITE_LOCKED \<Longrightarrow> 0 < fuel \<Longrightarrow>
     step_locked fuel api p s = (Inr rc, s\<lparr>lib := w\<rparr>)"
  by (cases fuel) (simp_all add: bindM_def call_lib_def op_run)

text \<open>The end of an insert or an update: the step with its retries, and the clean-up.\<close>

definition write_end :: "nat \<Rightarrow> 'w sqlite \<Rightarrow> nat \<Rightarrow> string \<Rightarrow> ('w, int) sql_op" where
  "write_end fuel api p msg =
     bindM (step_locked fuel api p) (\<lambda>rc.
       if rc \<noteq> SQLITE_DONE then throwM (RuntimeError msg) else thenM (finish_stmt api p) (retM kOK))"

context sqlite_contract
begin

lemma write_end_done:
  assumes use: "in_use view bad sql p st T s" "ps_run st = Ready" "bound st vs"
    and spec: "sql_step_spec T (ps_stmt st) vs = Some (T', Ended)" "clean T'" and fuel: "0 < fuel"
  shows "\<exists>s'. write_end fuel api p msg s = (Inr kOK, s') \<and> ctx_ok view bad s' \<and> tables_of view s' = T'"
proof -
  obtain rc w where step: "sq_step api p (lib s) = (rc, w)" "step_code Ended rc"
    "in_use view bad sql p (st\<lparr>ps_run := Ended\<rparr>) T' (s\<lparr>lib := w\<rparr>)"
    by (rule step_run [OF use spec])
  have "step_locked fuel api p s = (Inr SQLITE_DONE, s\<lparr>lib := w\<rparr>)"
    using step_locked_once [OF step(1) _ fuel] step(2) script_codes(2) by simp
  moreover obtain s' where "finish_stmt api p (s\<lparr>lib := w\<rparr>) = (Inr (), s')" "ctx_ok view bad s'" "tables_of view s' = T'"
    by (rule finish_run [OF step(3)]) simp_all
  ultimately show ?thesis by (simp add: write_end_def op_simps)
qed

lemma write_end_failed:
  assumes use: "in_use view bad sql p st T s" "ps_run st = Ready" "bound st vs"
    and spec: "sql_step_spec T (ps_stmt st) vs = Some (T, Failed)" and fuel: "0 < fuel"
  shows "\<exists>s'. write_end fuel api p msg s = (Inl (RuntimeError msg), s') \<and> ctx_ok view (insert sql bad) s' \<and>
    stuck view sql s' \<and> tables_of view s' = T"
proof -
  obtain rc w where step: "sq_step api p (lib s) = (rc, w)" "step_code Failed rc"
    "in_use view bad sql p (st\<lparr>ps_run := Failed\<rparr>) T (s\<lparr>lib := w\<rparr>)"
    by (rule step_run [OF use spec in_use_clean [OF use(1)]])
  have "step_locked fuel api p s = (Inr rc, s\<lparr>lib := w\<rparr>)"
    using step_locked_once [OF step(1) _ fuel] step(2) by simp
  with step(2) have "write_end fuel api p msg s = (Inl (RuntimeError msg), s\<lparr>lib := w\<rparr>)"
    by (simp add: write_end_def op_simps)
  with in_use_stuck [OF step(3)] show ?thesis by simp
qed

lemma insert_begins:
  assumes ok: "ctx_ok view bad s" and sql: "insert_sql api t (sort_fields vs) \<notin> bad" "sql_string (insert_sql api t (sort_fields vs))"
    and table: "tables_of view s (c_str t) = Some (cols, rows)"
    and fields: "set (map (c_str \<circ> fst) vs) \<subseteq> set cols" "distinct (map (c_str \<circ> fst) vs)" "length vs < 999"
    and strings: "sql_string k" "\<forall>v \<in> set vs. sql_string (snd v)"
  obtains p st s' where "sql_Insert fuel api t k vs s = write_end fuel api p ''Failed to step insert statement'' s'"
    "in_use view bad (insert_sql api t (sort_fields vs)) p st (tables_of view s) s'" "ps_run st = Ready"
    "ps_stmt st = InsertRow (c_str t) (map (c_str \<circ> fst) (sort_fields vs))" "bound st (k # map snd (sort_fields vs))"
proof -
  let ?vs = "sort_fields vs" and ?T = "tables_of view s"
  let ?sql = "insert_sql api t ?vs" and ?c = "InsertRow (c_str t) (map (c_str \<circ> fst) ?vs)"
  have perm: "mset ?vs = mset vs" by (simp add: sort_fields_def)
  then have len: "length ?vs = length vs" and set: "set ?vs = set vs" by (metis size_mset, metis set_mset_mset)
  have "mset (map (c_str \<circ> fst) ?vs) = mset (map (c_str \<circ> fst) vs)" using perm by simp
  then have "distinct (map (c_str \<circ> fst) ?vs)" using fields(2) mset_eq_imp_distinct_iff by blast
  then have stmt: "stmt_ok ?T ?c" using table fields(1) set by (auto simp: columns_of_def)
  have small: "params ?c \<le> 999" using fields(3) len by simp
  obtain p st s1 where get: "get_stmt api ?sql ''Failed to prepare insert statement'' s = (Inr p, s1)"
    "in_use view bad ?sql p st ?T s1" "ps_stmt st = ?c" "ps_run st = Ready"
    by (rule get_stmt_run [OF ok sql(1) parse_insert [OF quoting] sql(2) small stmt])
  obtain s2 where key: "bind_string api p 1 k s1 = (Inr (), s2)"
    "in_use view bad ?sql p (st\<lparr>ps_binds := (ps_binds st)(1 \<mapsto> k)\<rparr>) ?T s2"
    by (rule bind_run [OF get(2,4) strings(1), of 1]) (simp_all add: get(3))
  let ?st = "st\<lparr>ps_binds := bind_from 2 (map snd ?vs) ((ps_binds st)(1 \<mapsto> k))\<rparr>"
  obtain s3 where vals: "bind_values api p 2 ?vs s2 = (Inr (), s3)" "in_use view bad ?sql p ?st ?T s3"
    using bind_values_run [OF key(2), of ?vs 2] get(3,4) strings(2) set len by auto
  show ?thesis
  proof (rule that [of p s3 ?st])
    show "sql_Insert fuel api t k vs s = write_end fuel api p ''Failed to step insert statement'' s3"
      using get(1) key(1) vals(1) by (simp add: sql_Insert_def write_end_def Let_def op_simps)
    show "bound ?st (k # map snd ?vs)" using get(3) by (intro bound_insert) simp
  qed (use vals(2) get(3,4) in simp_all)
qed

lemma insert_new_run:
  assumes ok: "ctx_ok view bad s" and sql: "insert_sql api t (sort_fields vs) \<notin> bad" "sql_string (insert_sql api t (sort_fields vs))"
    and table: "tables_of view s (c_str t) = Some (cols, rows)" and new: "rows k = None"
    and fields: "set (map (c_str \<circ> fst) vs) \<subseteq> set cols" "distinct (map (c_str \<circ> fst) vs)" "length vs < 999"
    and strings: "sql_string k" "\<forall>v \<in> set vs. sql_string (snd v)" and fuel: "0 < fuel"
  shows "\<exists>s'. sql_Insert fuel api t k vs s = (Inr kOK, s') \<and> ctx_ok view bad s' \<and>
    tables_of view s' = (tables_of view s)(c_str t \<mapsto> (cols, rows(k \<mapsto> write_all vs Map.empty)))"
proof -
  let ?T' = "(tables_of view s)(c_str t \<mapsto> (cols, rows(k \<mapsto> write_all vs Map.empty)))"
  obtain p st s1 where b: "sql_Insert fuel api t k vs s = write_end fuel api p ''Failed to step insert statement'' s1"
    "in_use view bad (insert_sql api t (sort_fields vs)) p st (tables_of view s) s1" "ps_run st = Ready"
    "ps_stmt st = InsertRow (c_str t) (map (c_str \<circ> fst) (sort_fields vs))" "bound st (k # map snd (sort_fields vs))"
    by (rule insert_begins [OF ok sql table fields strings])
  have tb: "clean_table (cols, rows)" using in_use_clean [OF b(2)] table by (auto simp: clean_def)
  have "clean_table (cols, rows(k \<mapsto> write_all vs Map.empty))"
    by (rule clean_row(2) [OF tb sql_string_c_str [OF strings(1)]]) (rule write_all_clean, simp_all)
  then have clean: "clean ?T'" by (rule clean_put [OF in_use_clean [OF b(2)]])
  have "sql_step_spec (tables_of view s) (ps_stmt st) (k # map snd (sort_fields vs)) = Some (?T', Ended)"
    using table new write_all_sorted [OF fields(2) strings(2)] by (simp add: b(4))
  from write_end_done [OF b(2,3,5) this clean fuel] show ?thesis unfolding b(1) .
qed

lemma insert_present_run:
  assumes ok: "ctx_ok view bad s" and sql: "insert_sql api t (sort_fields vs) \<notin> bad" "sql_string (insert_sql api t (sort_fields vs))"
    and table: "tables_of view s (c_str t) = Some (cols, rows)" and present: "rows k \<noteq> None"
    and fields: "set (map (c_str \<circ> fst) vs) \<subseteq> set cols" "distinct (map (c_str \<circ> fst) vs)" "length vs < 999"
    and strings: "sql_string k" "\<forall>v \<in> set vs. sql_string (snd v)" and fuel: "0 < fuel"
  shows "\<exists>s'. sql_Insert fuel api t k vs s = (Inl (RuntimeError ''Failed to step insert statement''), s') \<and>
    ctx_ok view (insert (insert_sql api t (sort_fields vs)) bad) s' \<and>
    stuck view (insert_sql api t (sort_fields vs)) s' \<and> tables_of view s' = tables_of view s"
proof -
  obtain p st s1 where b: "sql_Insert fuel api t k vs s = write_end fuel api p ''Failed to step insert statement'' s1"
    "in_use view bad (insert_sql api t (sort_fields vs)) p st (tables_of view s) s1" "ps_run st = Ready"
    "ps_stmt st = InsertRow (c_str t) (map (c_str \<circ> fst) (sort_fields vs))" "bound st (k # map snd (sort_fields vs))"
    by (rule insert_begins [OF ok sql table fields strings])
  have "sql_step_spec (tables_of view s) (ps_stmt st) (k # map snd (sort_fields vs)) = Some (tables_of view s, Failed)"
    using table present by (simp add: b(4))
  from write_end_failed [OF b(2,3,5) this fuel] show ?thesis unfolding b(1) .
qed

lemma update_run:
  assumes ok: "ctx_ok view bad s" and sql: "update_sql api t vs \<notin> bad" "sql_string (update_sql api t vs)"
    and table: "tables_of view s (c_str t) = Some (cols, rows)"
    and fields: "set (map (c_str \<circ> fst) vs) \<subseteq> set cols" "vs \<noteq> []" "length vs < 999"
    and strings: "sql_string k" "\<forall>v \<in> set vs. sql_string (snd v)" and fuel: "0 < fuel"
  shows "\<exists>s'. sql_Update fuel api t k vs s = (Inr kOK, s') \<and> ctx_ok view bad s' \<and>
    tables_of view s' = (case rows k of
        None \<Rightarrow> tables_of view s
      | Some r \<Rightarrow> (tables_of view s)(c_str t \<mapsto> (cols, rows(k \<mapsto> write_all vs r))))"
proof -
  let ?T = "tables_of view s" and ?sql = "update_sql api t vs" and ?c = "UpdateRow (c_str t) (map (c_str \<circ> fst) vs)"
  let ?T' = "case rows k of None \<Rightarrow> ?T | Some r \<Rightarrow> ?T(c_str t \<mapsto> (cols, rows(k \<mapsto> write_all vs r)))"
  have stmt: "stmt_ok ?T ?c" using table fields(1) by (simp add: columns_of_def)
  have small: "params ?c \<le> 999" using fields(3) by simp
  obtain p st s1 where get: "get_stmt api ?sql ''Failed to prepare update statement'' s = (Inr p, s1)"
    "in_use view bad ?sql p st ?T s1" "ps_stmt st = ?c" "ps_run st = Ready"
    by (rule get_stmt_run [OF ok sql(1) parse_update [OF quoting fields(2)] sql(2) small stmt])
  let ?st = "st\<lparr>ps_binds := bind_from 1 (map snd vs) (ps_binds st)\<rparr>"
  obtain s2 where vals: "bind_values api p 1 vs s1 = (Inr (), s2)" "in_use view bad ?sql p ?st ?T s2"
    using bind_values_run [OF get(2,4) strings(2), of 1] get(3) by auto
  let ?st' = "?st\<lparr>ps_binds := (ps_binds ?st)(length vs + 1 \<mapsto> k)\<rparr>"
  obtain s3 where key: "bind_string api p (length vs + 1) k s2 = (Inr (), s3)" "in_use view bad ?sql p ?st' ?T s3"
    by (rule bind_run [OF vals(2) _ strings(1), of "length vs + 1"]) (simp_all add: get(3,4))
  have bound: "bound ?st' (map snd vs @ [k])" using bound_update [of st "map snd vs" "ps_binds st" k] get(3) by simp
  have tb: "clean_table (cols, rows)" using in_use_clean [OF get(2)] table by (auto simp: clean_def)
  have "clean_table (cols, rows(k \<mapsto> write_all vs r))" if "rows k = Some r" for r
    by (rule clean_row(2) [OF tb sql_string_c_str [OF strings(1)]])
      (rule write_all_clean, use tb that in \<open>auto simp: clean_table_def\<close>)
  then have clean: "clean ?T'" using in_use_clean [OF get(2)] by (auto intro: clean_put split: option.split)
  have spec: "sql_step_spec ?T (ps_stmt ?st') (map snd vs @ [k]) = Some (?T', Ended)"
    using table write_all_zip [OF strings(2)] by (simp add: get(3) zip_append2 split: option.split)
  have "sql_Update fuel api t k vs s = write_end fuel api p ''Failed to step update statement'' s3"
    using get(1) key(1) vals(1) by (simp add: sql_Update_def write_end_def op_simps)
  with write_end_done [OF key(2) _ bound spec clean fuel] get(4) show ?thesis by simp
qed

lemma delete_run:
  assumes ok: "ctx_ok view bad s" and sql: "delete_sql api t \<notin> bad" "sql_string (delete_sql api t)"
    and table: "tables_of view s (c_str t) = Some (cols, rows)" and strings: "sql_string k"
  shows "\<exists>s'. sql_Delete api t k s = (Inr kOK, s') \<and> ctx_ok view bad s' \<and>
    tables_of view s' = (tables_of view s)(c_str t \<mapsto> (cols, rows(k := None)))"
proof -
  let ?T = "tables_of view s" and ?sql = "delete_sql api t" and ?c = "DeleteRow (c_str t)"
  let ?T' = "?T(c_str t \<mapsto> (cols, rows(k := None)))"
  have stmt: "stmt_ok ?T ?c" using table by (simp add: columns_of_def)
  obtain p st s1 where get: "get_stmt api ?sql ''Failed to prepare delete statement'' s = (Inr p, s1)"
    "in_use view bad ?sql p st ?T s1" "ps_stmt st = ?c" "ps_run st = Ready"
    by (rule get_stmt_run [OF ok sql(1) parse_delete [OF quoting] sql(2) _ stmt]) simp_all
  let ?st = "st\<lparr>ps_binds := (ps_binds st)(1 \<mapsto> k)\<rparr>"
  obtain s2 where key: "bind_string api p 1 k s1 = (Inr (), s2)" "in_use view bad ?sql p ?st ?T s2"
    by (rule bind_run [OF get(2,4) strings, of 1]) (simp_all add: get(3))
  have tb: "clean_table (cols, rows)" using in_use_clean [OF get(2)] table by (auto simp: clean_def)
  have clean: "clean ?T'" by (rule clean_put [OF in_use_clean [OF get(2)] clean_row(1) [OF tb]])
  have bound: "bound ?st [k]" using get(3) by (simp add: bound_def)
  have spec: "sql_step_spec ?T (ps_stmt ?st) [k] = Some (?T', Ended)" using table by (simp add: get(3))
  obtain rc w where step: "sq_step api p (lib s2) = (rc, w)" "step_code Ended rc"
    "in_use view bad ?sql p (?st\<lparr>ps_run := Ended\<rparr>) ?T' (s2\<lparr>lib := w\<rparr>)"
    by (rule step_run [OF key(2) _ bound spec clean]) (simp add: get(4))
  obtain s3 where "finish_stmt api p (s2\<lparr>lib := w\<rparr>) = (Inr (), s3)" "ctx_ok view bad s3" "tables_of view s3 = ?T'"
    by (rule finish_run [OF step(3)]) simp_all
  with get(1) key(1) step(1,2) show ?thesis
    by (simp add: sql_Delete_def op_simps bindM_def thenM_def call_lib_def retM_def)
qed

lemma row_shown:
  assumes "in_use view bad sql p st T s" and "ps_run st = AtRow row rest" and "\<forall>c \<in> set row. c_str (fst c) = fst c"
  shows "row_columns api p 0 (sq_data_count api p (lib s)) (lib s) = row"
proof -
  have "sv_stmts (view (lib s)) p = Some st" using assms(1) by (simp add: in_use_def)
  from shows_row [OF this assms(2)] assms(3) show ?thesis
    by (auto simp: row_columns_def intro!: nth_equalityI)
qed

text \<open>A read up to its step.\<close>

lemma read_begins:
  assumes ok: "ctx_ok view bad s" and sql: "read_sql api t \<notin> bad" "sql_string (read_sql api t)"
    and table: "tables_of view s (c_str t) = Some (cols, rows)" and strings: "sql_string k"
  defines "r \<equiv> (case rows k of None \<Rightarrow> Ended | Some r \<Rightarrow> AtRow (result_row cols k r) [])"
  obtains p st rc s1 w s2 where "step_code r rc" "in_use view bad (read_sql api t) p st (tables_of view s) (s1\<lparr>lib := w\<rparr>)"
    "ps_run st = r" "ctx_ok view bad s2" "tables_of view s2 = tables_of view s"
    "sql_Read api t k flds result s =
      (let cs = wanted_columns flds (row_columns api p 0 (sq_data_count api p w) w) in
       if rc = SQLITE_DONE then (Inr (kErrorNoData, result), s2)
       else if rc = SQLITE_ROW
       then (if \<exists>c \<in> set cs. snd c = None then (Inl LogicError, s1\<lparr>lib := w\<rparr>)
             else (Inr (kOK, result @ column_pairs cs), s2))
       else (Inl (RuntimeError ''Failed to step read statement''), s1\<lparr>lib := w\<rparr>))"
proof -
  let ?T = "tables_of view s" and ?sql = "read_sql api t" and ?c = "SelectRow (c_str t)"
  have stmt: "stmt_ok ?T ?c" using table by (simp add: columns_of_def)
  obtain p st s0 where get: "get_stmt api ?sql ''Failed to prepare read statement'' s = (Inr p, s0)"
    "in_use view bad ?sql p st ?T s0" "ps_stmt st = ?c" "ps_run st = Ready"
    by (rule get_stmt_run [OF ok sql(1) parse_read [OF quoting] sql(2) _ stmt]) simp_all
  let ?st = "st\<lparr>ps_binds := (ps_binds st)(1 \<mapsto> k)\<rparr>"
  obtain s1 where key: "bind_string api p 1 k s0 = (Inr (), s1)" "in_use view bad ?sql p ?st ?T s1"
    by (rule bind_run [OF get(2,4) strings, of 1]) (simp_all add: get(3))
  have bound: "bound ?st [k]" using get(3) by (simp add: bound_def)
  have spec: "sql_step_spec ?T (ps_stmt ?st) [k] = Some (?T, r)" using table by (simp add: get(3) r_def)
  obtain rc w where step: "sq_step api p (lib s1) = (rc, w)" "step_code r rc"
    "in_use view bad ?sql p (?st\<lparr>ps_run := r\<rparr>) ?T (s1\<lparr>lib := w\<rparr>)"
    by (rule step_run [OF key(2) _ bound spec in_use_clean [OF get(2)]]) (simp add: get(4))
  have "r \<noteq> Failed" by (simp add: r_def split: option.split)
  then have run: "ps_run (?st\<lparr>ps_run := r\<rparr>) \<noteq> Failed" by simp
  obtain s2 where fin: "finish_stmt api p (s1\<lparr>lib := w\<rparr>) = (Inr (), s2)" "ctx_ok view bad s2" "tables_of view s2 = ?T"
    by (rule finish_run [OF step(3) run])
  show ?thesis
    by (rule that [OF step(2,3) _ fin(2,3) sql_Read_run [OF get(1) key(1) step(1) fin(1)]]) simp
qed

lemma read_absent_run:
  assumes "ctx_ok view bad s" and "read_sql api t \<notin> bad" "sql_string (read_sql api t)"
    and "tables_of view s (c_str t) = Some (cols, rows)" and "sql_string k" and "rows k = None"
  shows "\<exists>s'. sql_Read api t k flds result s = (Inr (kErrorNoData, result), s') \<and> ctx_ok view bad s' \<and>
    tables_of view s' = tables_of view s"
  by (rule read_begins [OF assms(1-5), of flds result]) (use assms(6) in \<open>simp add: Let_def\<close>)

text \<open>What a read gives of a record: the wanted columns of the row, in the order of the table, or an exception
  when one of them is NULL.\<close>

lemma read_present_run:
  fixes flds :: "string list option"
  assumes ok: "ctx_ok view bad s" and sql: "read_sql api t \<notin> bad" "sql_string (read_sql api t)"
    and table: "tables_of view s (c_str t) = Some (cols, rows)" and strings: "sql_string k" and r: "rows k = Some r"
  defines "cs \<equiv> wanted_columns flds (result_row cols k r)"
  shows "\<exists>s'. sql_Read api t k flds result s =
      (if \<exists>c \<in> set cs. snd c = None then (Inl LogicError, s') else (Inr (kOK, result @ column_pairs cs), s')) \<and>
    tables_of view s' = tables_of view s \<and>
    (if \<exists>c \<in> set cs. snd c = None then ctx_ok view (insert (read_sql api t) bad) s' \<and> stuck view (read_sql api t) s'
     else ctx_ok view bad s')"
proof -
  obtain p st rc s1 w s2 where
    b: "rc = SQLITE_ROW" "in_use view bad (read_sql api t) p st (tables_of view s) (s1\<lparr>lib := w\<rparr>)"
    "ps_run st = AtRow (result_row cols k r) []" "ctx_ok view bad s2" "tables_of view s2 = tables_of view s"
    "sql_Read api t k flds result s =
      (let cs = wanted_columns flds (row_columns api p 0 (sq_data_count api p w) w) in
       if rc = SQLITE_DONE then (Inr (kErrorNoData, result), s2)
       else if rc = SQLITE_ROW
       then (if \<exists>c \<in> set cs. snd c = None then (Inl LogicError, s1\<lparr>lib := w\<rparr>)
             else (Inr (kOK, result @ column_pairs cs), s2))
       else (Inl (RuntimeError ''Failed to step read statement''), s1\<lparr>lib := w\<rparr>))"
    by (rule read_begins [OF ok sql table strings, of flds result, unfolded r option.case step_code.simps])
  have "clean_table (cols, rows)" using ok table by (auto simp: ctx_ok_def clean_def)
  then have "\<forall>c \<in> set (result_row cols k r). c_str (fst c) = fst c"
    by (auto simp: result_row_def clean_table_def key_column_def c_str_def)
  from row_shown [OF b(2,3) this] have row: "row_columns api p 0 (sq_data_count api p w) w = result_row cols k r" by simp
  have stuck: "ctx_ok view (insert (read_sql api t) bad) (s1\<lparr>lib := w\<rparr>)" "stuck view (read_sql api t) (s1\<lparr>lib := w\<rparr>)"
    "tables_of view (s1\<lparr>lib := w\<rparr>) = tables_of view s"
    using in_use_stuck [OF b(2)] b(3) by simp_all
  have run: "sql_Read api t k flds result s =
      (if \<exists>c \<in> set cs. snd c = None then (Inl LogicError, s1\<lparr>lib := w\<rparr>) else (Inr (kOK, result @ column_pairs cs), s2))"
    using b(1,6) script_codes(1) by (simp add: row cs_def del: bex_simps)
  show ?thesis
  proof (cases "\<exists>c \<in> set cs. snd c = None")
    case True
    show ?thesis unfolding run if_P [OF True] using stuck by blast
  next
    case False
    show ?thesis unfolding run if_not_P [OF False] using b(4,5) by blast
  qed
qed

text \<open>A statement that was left under way is never bound again: every operation with its text fails.\<close>

lemma stuck_bind:
  assumes "stuck view sql s"
  shows "\<exists>s'. bindM (get_stmt api sql msg) (\<lambda>p. thenM (bind_string api p 1 k) (f p)) s =
      (Inl (RuntimeError ''Failed to bind parameter''), s') \<and>
    tables_of view s' = tables_of view s \<and> stuck view sql s'"
proof -
  obtain p st where p: "map_of (stmts s) sql = Some p" "sv_stmts (view (lib s)) p = Some st" "ps_run st \<noteq> Ready"
    using assms by (auto simp: stuck_def)
  from misuse [OF p(2,3)] obtain rc w where w: "sq_bind_text api p 1 k (lib s) = (rc, w)" "rc \<noteq> SQLITE_OK" "view w = view (lib s)"
    by blast
  have "stuck view sql (s\<lparr>lib := w\<rparr>)" using p w(3) by (auto simp: stuck_def)
  with w get_stmt_cached [OF p(1), of api msg] show ?thesis
    by (simp add: bind_string_def bindM_def thenM_def call_lib_def op_run)
qed

lemma stuck_insert:
  "stuck view (insert_sql api t (sort_fields vs)) s \<Longrightarrow>
     \<exists>s'. sql_Insert fuel api t k vs s = (Inl (RuntimeError ''Failed to bind parameter''), s') \<and>
       tables_of view s' = tables_of view s \<and> stuck view (insert_sql api t (sort_fields vs)) s'"
  unfolding sql_Insert_def Let_def by (rule stuck_bind)

lemma stuck_read:
  "stuck view (read_sql api t) s \<Longrightarrow>
     \<exists>s'. sql_Read api t k flds result s = (Inl (RuntimeError ''Failed to bind parameter''), s') \<and>
       tables_of view s' = tables_of view s \<and> stuck view (read_sql api t) s'"
  unfolding sql_Read_def by (rule stuck_bind)

end

section \<open>Set-up\<close>

text \<open>The tables of a schema can be created one after the other.\<close>

definition table_at :: "table_desc \<Rightarrow> sql_tables \<Rightarrow> sql_tables" where
  "table_at d = create_table (c_str (table_name d)) (map c_str (table_columns d))"

fun schema_ok :: "'w sqlite \<Rightarrow> sql_tables \<Rightarrow> table_desc list \<Rightarrow> bool" where
  "schema_ok api T [] = True"
| "schema_ok api T (d # ds) \<longleftrightarrow>
     sql_string (create_sql api d) \<and> create_ok T (c_str (table_name d)) (map c_str (table_columns d)) \<and>
     schema_ok api (table_at d T) ds"

lemma table_at_clean: "clean T \<Longrightarrow> clean (table_at d T)"
  by (auto simp: table_at_def create_table_def clean_table_def intro: clean_put split: option.split)

definition db_name :: "string \<Rightarrow> string" where
  "db_name filename = (if filename = '':memory:'' then ''file::memory:?cache=shared'' else c_str filename)"

context sqlite_contract
begin

lemma open_run:
  assumes "name = db_name filename" and "uri = (filename = '':memory:'')"
  obtains h w where "OpenDB api filename s = (Inr h, s\<lparr>lib := w\<rparr>)"
    "view w = (view (lib s))\<lparr>sv_conns := insert h (sv_conns (view (lib s)))\<rparr>"
  using opens [of "lib s"] assms
  by (auto simp: OpenDB_def db_name_def Let_def bindM_def call_lib_def op_run)

lemma init_run:
  assumes "name = db_name filename" and "uri = (filename = '':memory:'')" and "clean (tables_of view s)"
  shows "\<exists>s'. sql_Init api filename s = (Inr (), s') \<and> ctx_ok view {} s' \<and> tables_of view s' = tables_of view s"
proof -
  let ?s = "s\<lparr>database := None, stmts := []\<rparr>"
  obtain h w where o: "OpenDB api filename ?s = (Inr h, ?s\<lparr>lib := w\<rparr>)"
    "view w = (view (lib ?s))\<lparr>sv_conns := insert h (sv_conns (view (lib ?s)))\<rparr>"
    by (rule open_run [OF assms(1,2)])
  then show ?thesis using assms(3)
    by (simp add: sql_Init_def bindM_def thenM_def op_run ctx_ok_def cache_inv_def)
qed

lemma create_tables_run:
  "h \<in> sv_conns (view (lib s)) \<Longrightarrow> schema_ok api (tables_of view s) ds \<Longrightarrow>
     \<exists>w. create_tables api h ds s = (Inr (), s\<lparr>lib := w\<rparr>) \<and> sv_tables (view w) = fold table_at ds (tables_of view s)"
proof (induction ds arbitrary: s)
  case Nil
  show ?case by (rule exI [of _ "lib s"]) (simp add: op_run)
next
  case (Cons d ds)
  have "parse_sql (create_sql api d) = Some (CreateTable (c_str (table_name d)) (map c_str (table_columns d)))"
    by (rule parse_create [OF quoting])
  from executes [OF Cons.prems(1) _ this] Cons.prems(2) obtain w where
    w: "sq_exec api h (create_sql api d) (lib s) = (SQLITE_OK, w)"
      "view w = (view (lib s))\<lparr>sv_tables := table_at d (tables_of view s)\<rparr>"
    by (auto simp: table_at_def)
  from Cons.IH [of "s\<lparr>lib := w\<rparr>"] Cons.prems w(2) show ?case
    by (auto simp: w(1) bindM_def call_lib_def)
qed

lemma schema_run:
  assumes "name = db_name filename" and "uri = (filename = '':memory:'')" and "clean (tables_of view s)"
    and "schema_ok api (tables_of view s) ds"
  shows "\<exists>h s'. sql_CreateSchema api filename ds s = (Inr h, s') \<and> tables_of view s' = fold table_at ds (tables_of view s) \<and>
    clean (tables_of view s')"
proof -
  obtain h w where o: "OpenDB api filename s = (Inr h, s\<lparr>lib := w\<rparr>)"
    "view w = (view (lib s))\<lparr>sv_conns := insert h (sv_conns (view (lib s)))\<rparr>"
    by (rule open_run [OF assms(1,2)])
  have "clean (fold table_at ds T)" if "clean T" for T
    using that by (induction ds arbitrary: T) (simp_all add: table_at_clean)
  with o create_tables_run [of h "s\<lparr>lib := w\<rparr>" ds] assms(3,4) show ?thesis
    by (auto simp: sql_CreateSchema_def op_simps)
qed

end

end
