(* ===== verification/SqlLife.thy ===== *)
theory SqlLife
  imports SqlStore
begin

text \<open>
  A library that keeps the promises of \<open>SqlStore\<close>, and what they give for the backend: the life of a record
  from the creation of the schema on, and what a refused insert leaves behind.
\<close>

section \<open>A small library\<close>

text \<open>Connections are counted, and a statement's handle is its place in the list of all statements.\<close>

record mini =
  mini_tables :: sql_tables
  mini_conns :: nat
  mini_stmts :: "prepared list"

definition mini_view :: "mini \<Rightarrow> sql_view" where
  "mini_view m =
     \<lparr>sv_tables = mini_tables m, sv_conns = {..< mini_conns m},
      sv_stmts = (\<lambda>p. if p < length (mini_stmts m) then Some (mini_stmts m ! p) else None)\<rparr>"

definition mini_put :: "nat \<Rightarrow> prepared \<Rightarrow> mini \<Rightarrow> mini" where
  "mini_put p st m = m\<lparr>mini_stmts := (mini_stmts m)[p := st]\<rparr>"

definition mini_bind :: "nat \<Rightarrow> nat \<Rightarrow> string \<Rightarrow> mini \<Rightarrow> int \<times> mini" where
  "mini_bind p i str m =
     (if p < length (mini_stmts m) \<and> ps_run (mini_stmts m ! p) = Ready
      then (SQLITE_OK, mini_put p ((mini_stmts m ! p)\<lparr>ps_binds := (ps_binds (mini_stmts m ! p))(i \<mapsto> str)\<rparr>) m)
      else (21, m))"

definition mini_limit :: "nat \<Rightarrow> int \<Rightarrow> mini \<Rightarrow> int \<times> mini" where
  "mini_limit p n m =
     (if p < length (mini_stmts m) then (SQLITE_OK, mini_put p ((mini_stmts m ! p)\<lparr>ps_limit := Some n\<rparr>) m)
      else (21, m))"

definition bound_list :: "prepared \<Rightarrow> string list" where
  "bound_list st =
     map (\<lambda>i. case ps_binds st (Suc i) of None \<Rightarrow> [] | Some str \<Rightarrow> str) [0..<params (ps_stmt st)]"

primrec run_code :: "run \<Rightarrow> int" where
  "run_code Ready = 21"
| "run_code (AtRow row rest) = SQLITE_ROW"
| "run_code Ended = SQLITE_DONE"
| "run_code Failed = 19"

text \<open>The keys of a range in ascending order, as many as the limit lets through.\<close>

definition mini_range :: "prepared \<Rightarrow> sql_table \<Rightarrow> run" where
  "mini_range st tb =
     (let ks = sorted_list_of_set (keys_from (hd (bound_list st)) (snd tb))
      in run_of (range_rows (fst tb) (snd tb)
          (case ps_limit st of None \<Rightarrow> ks | Some n \<Rightarrow> if 0 \<le> n then take (nat n) ks else ks)))"

definition mini_first :: "prepared \<Rightarrow> sql_tables \<Rightarrow> (sql_tables \<times> run) option" where
  "mini_first st T =
     (case ps_stmt st of
        SelectRange t \<Rightarrow> map_option (\<lambda>tb. (T, mini_range st tb)) (T t)
      | _ \<Rightarrow> sql_step_spec T (ps_stmt st) (bound_list st))"

definition mini_step :: "nat \<Rightarrow> mini \<Rightarrow> int \<times> mini" where
  "mini_step p m =
     (let st = mini_stmts m ! p in
      if \<not> p < length (mini_stmts m) then (21, m)
      else case ps_run st of
          Ready \<Rightarrow>
            (case mini_first st (mini_tables m) of
               None \<Rightarrow> (1, m)
             | Some (T, r) \<Rightarrow> (run_code r, mini_put p (st\<lparr>ps_run := r\<rparr>) (m\<lparr>mini_tables := T\<rparr>)))
        | AtRow row rest \<Rightarrow> (run_code (run_of rest), mini_put p (st\<lparr>ps_run := run_of rest\<rparr>) m)
        | _ \<Rightarrow> (SQLITE_DONE, mini_put p (st\<lparr>ps_run := Ended\<rparr>) m))"

definition mini_row :: "nat \<Rightarrow> mini \<Rightarrow> shown_row" where
  "mini_row p m = (case ps_run (mini_stmts m ! p) of AtRow row rest \<Rightarrow> row | _ \<Rightarrow> [])"

definition mini_sqlite :: "mini sqlite" where
  "mini_sqlite =
     \<lparr>sq_escape = quote_sql,
      sq_open = (\<lambda>_ _ m. ((SQLITE_OK, mini_conns m), m\<lparr>mini_conns := Suc (mini_conns m)\<rparr>)),
      sq_close = (\<lambda>_ m. (SQLITE_OK, m)),
      sq_exec = (\<lambda>_ sql m. case parse_sql sql of
          Some (CreateTable t cs) \<Rightarrow> (SQLITE_OK, m\<lparr>mini_tables := create_table t cs (mini_tables m)\<rparr>)
        | _ \<Rightarrow> (1, m)),
      sq_prepare = (\<lambda>_ sql m. case parse_sql sql of
          None \<Rightarrow> ((1, 0), m)
        | Some c \<Rightarrow> ((SQLITE_OK, length (mini_stmts m)), m\<lparr>mini_stmts := mini_stmts m @ [new_stmt c]\<rparr>)),
      sq_bind_text = mini_bind,
      sq_bind_int = (\<lambda>p i n. mini_limit p n),
      sq_step = mini_step,
      sq_data_count = (\<lambda>p m. length (mini_row p m)),
      sq_column_name = (\<lambda>p i m. fst (mini_row p m ! i)),
      sq_column_text = (\<lambda>p i m. snd (mini_row p m ! i)),
      sq_clear_bindings = (\<lambda>p m. (SQLITE_OK, mini_put p ((mini_stmts m ! p)\<lparr>ps_binds := Map.empty, ps_limit := None\<rparr>) m)),
      sq_reset = (\<lambda>p m.
        (if ps_run (mini_stmts m ! p) = Failed then 19 else SQLITE_OK, mini_put p ((mini_stmts m ! p)\<lparr>ps_run := Ready\<rparr>) m)),
      sq_finalize = (\<lambda>_ m. (SQLITE_OK, m))\<rparr>"

lemma mini_view_simps [simp]:
  "sv_tables (mini_view m) = mini_tables m" "sv_conns (mini_view m) = {..< mini_conns m}"
  "mini_view (m\<lparr>mini_tables := T\<rparr>) = mini_view m\<lparr>sv_tables := T\<rparr>"
  by (auto simp: mini_view_def fun_eq_iff)

lemma mini_stmt: "sv_stmts (mini_view m) p = Some st \<longleftrightarrow> p < length (mini_stmts m) \<and> mini_stmts m ! p = st"
  by (simp add: mini_view_def)

lemma mini_view_put:
  "p < length (mini_stmts m) \<Longrightarrow>
     mini_view (mini_put p st (m\<lparr>mini_tables := T\<rparr>)) = put_stmt p st (mini_view m\<lparr>sv_tables := T\<rparr>)"
  "p < length (mini_stmts m) \<Longrightarrow> mini_view (mini_put p st m) = put_stmt p st (mini_view m)"
  by (auto simp: mini_view_def mini_put_def put_stmt_def fun_eq_iff)

lemma bound_list: "bound st vs \<Longrightarrow> bound_list st = vs"
  by (auto simp: bound_def bound_list_def intro: nth_equalityI)

lemma run_code: "r \<noteq> Ready \<Longrightarrow> step_code r (run_code r)"
  by (cases r) (simp_all add: SQLITE_ROW_def SQLITE_DONE_def SQLITE_LOCKED_def)

lemma sql_step_not_ready: "sql_step_spec T c vs = Some (T', r) \<Longrightarrow> r \<noteq> Ready"
  by (induction T c vs rule: sql_step_spec.induct) (auto split: option.splits if_splits)

lemma mini_step_spec:
  assumes "sv_stmts (mini_view m) p = Some st" and "ps_run st = Ready" and "bound st vs"
    and "sql_step_spec (mini_tables m) (ps_stmt st) vs = Some (T, r)"
  shows "\<exists>rc m'. mini_step p m = (rc, m') \<and> step_code r rc \<and>
    mini_view m' = put_stmt p (st\<lparr>ps_run := r\<rparr>) (mini_view m\<lparr>sv_tables := T\<rparr>)"
proof -
  have "mini_first st (mini_tables m) = Some (T, r)"
    using assms(4) bound_list [OF assms(3)] by (cases "ps_stmt st") (simp_all add: mini_first_def)
  then show ?thesis using assms run_code [OF sql_step_not_ready [OF assms(4)]]
    by (auto simp: mini_step_def mini_stmt mini_view_put Let_def)
qed

lemma run_of_not_ready: "run_of rs \<noteq> Ready"
  by (cases rs) simp_all

lemma mini_same_tables: "mini_view m\<lparr>sv_tables := mini_tables m\<rparr> = mini_view m"
  by (simp add: mini_view_def)

lemma mini_range_spec:
  assumes "sv_stmts (mini_view m) p = Some st" and "ps_run st = Ready" and "ps_stmt st = SelectRange t"
    and "bound st [k]" and "ps_limit st = Some n" and "mini_tables m t = Some (cols, rows)" and "finite (dom rows)"
  shows "\<exists>ks rc m'. range_keys rows k n ks \<and> mini_step p m = (rc, m') \<and>
    step_code (run_of (range_rows cols rows ks)) rc \<and>
    mini_view m' = put_stmt p (st\<lparr>ps_run := run_of (range_rows cols rows ks)\<rparr>) (mini_view m)"
proof -
  let ?all = "sorted_list_of_set (keys_from k rows)"
  let ?ks = "if 0 \<le> n then take (nat n) ?all else ?all"
  have "finite (keys_from k rows)" using assms(7) by (simp add: keys_from_def)
  then have "range_keys rows k n ?ks"
    by (auto simp: range_keys_def min.commute dest: in_set_takeD)
  moreover have "mini_first st (mini_tables m) = Some (mini_tables m, run_of (range_rows cols rows ?ks))"
    using assms(3,5,6) bound_list [OF assms(4)] by (simp add: mini_first_def mini_range_def Let_def)
  ultimately show ?thesis
    using assms(1,2) run_code [OF run_of_not_ready, of "range_rows cols rows ?ks"]
    by (intro exI [of _ ?ks]) (auto simp: mini_step_def mini_stmt mini_view_put mini_same_tables Let_def)
qed

lemma mini_advance_spec:
  assumes "sv_stmts (mini_view m) p = Some st" and "ps_run st = AtRow row rest"
  shows "\<exists>rc m'. mini_step p m = (rc, m') \<and> step_code (run_of rest) rc \<and>
    mini_view m' = put_stmt p (st\<lparr>ps_run := run_of rest\<rparr>) (mini_view m)"
  using assms run_code [OF run_of_not_ready] by (auto simp: mini_step_def mini_stmt mini_view_put Let_def)

lemma mini_limit_spec:
  "sv_stmts (mini_view m) p = Some st \<Longrightarrow>
     \<exists>m'. mini_limit p n m = (SQLITE_OK, m') \<and> mini_view m' = put_stmt p (st\<lparr>ps_limit := Some n\<rparr>) (mini_view m)"
  by (auto simp: mini_limit_def mini_stmt mini_view_put)

lemma mini_bind_spec:
  assumes "sv_stmts (mini_view m) p = Some st"
  shows "ps_run st = Ready \<Longrightarrow> \<exists>m'. mini_bind p i str m = (SQLITE_OK, m') \<and>
      mini_view m' = put_stmt p (st\<lparr>ps_binds := (ps_binds st)(i \<mapsto> str)\<rparr>) (mini_view m)"
    and "ps_run st \<noteq> Ready \<Longrightarrow> \<exists>rc m'. mini_bind p i str m = (rc, m') \<and> rc \<noteq> SQLITE_OK \<and> mini_view m' = mini_view m"
  using assms by (auto simp: mini_bind_def mini_stmt mini_view_put SQLITE_OK_def)

lemma mini_prepare: "parse_sql sql = Some c \<Longrightarrow> \<exists>p m'. sq_prepare mini_sqlite h sql m = ((SQLITE_OK, p), m') \<and>
    sv_stmts (mini_view m) p = None \<and> mini_view m' = put_stmt p (new_stmt c) (mini_view m)"
  by (auto simp: mini_sqlite_def mini_view_def put_stmt_def fun_eq_iff nth_append less_Suc_eq)

interpretation mini: sqlite_contract mini_sqlite name uri mini_view for name uri
proof
  show "quotes mini_sqlite" by (simp add: quotes_def mini_sqlite_def)
next
  fix m show "\<exists>h m'. sq_open mini_sqlite name uri m = ((SQLITE_OK, h), m') \<and> h \<notin> sv_conns (mini_view m) \<and>
      mini_view m' = (mini_view m)\<lparr>sv_conns := insert h (sv_conns (mini_view m))\<rparr>"
    by (auto simp: mini_sqlite_def mini_view_def)
next
  fix h sql t cs m
  assume "parse_sql sql = Some (CreateTable t cs)"
  then show "\<exists>m'. sq_exec mini_sqlite h sql m = (SQLITE_OK, m') \<and>
      mini_view m' = (mini_view m)\<lparr>sv_tables := create_table t cs (sv_tables (mini_view m))\<rparr>"
    by (simp add: mini_sqlite_def)
next
  fix p m st row rest
  assume "sv_stmts (mini_view m) p = Some st" "ps_run st = AtRow row rest"
  then show "sq_data_count mini_sqlite p m = length row \<and>
      (\<forall>i < length row. sq_column_name mini_sqlite p i m = fst (row ! i) \<and> sq_column_text mini_sqlite p i m = snd (row ! i))"
    by (simp add: mini_sqlite_def mini_stmt mini_row_def)
next
  fix p m st
  assume st: "sv_stmts (mini_view m) p = Some st"
  then show "\<exists>m'. sq_clear_bindings mini_sqlite p m = (SQLITE_OK, m') \<and>
      mini_view m' = put_stmt p (st\<lparr>ps_binds := Map.empty, ps_limit := None\<rparr>) (mini_view m)"
    by (simp add: mini_sqlite_def mini_stmt mini_view_put)
  assume "ps_run st \<noteq> Failed"
  with st show "\<exists>m'. sq_reset mini_sqlite p m = (SQLITE_OK, m') \<and> mini_view m' = put_stmt p (st\<lparr>ps_run := Ready\<rparr>) (mini_view m)"
    by (simp add: mini_sqlite_def mini_stmt mini_view_put)
qed (use mini_prepare mini_bind_spec mini_step_spec mini_limit_spec mini_range_spec mini_advance_spec in \<open>simp_all add: mini_sqlite_def\<close>)

section \<open>The two local backends\<close>

text \<open>Field values that a table takes, and SQL texts within the limits.\<close>

definition sql_values :: "string list \<Rightarrow> fieldvals \<Rightarrow> bool" where
  "sql_values cols vs \<longleftrightarrow>
     set (map (c_str \<circ> fst) vs) \<subseteq> set cols \<and> distinct (map (c_str \<circ> fst) vs) \<and> vs \<noteq> [] \<and> length vs < 999 \<and>
     (\<forall>v \<in> set vs. sql_string (snd v))"

definition texts_ok :: "'w sqlite \<Rightarrow> string \<Rightarrow> fieldvals \<Rightarrow> bool" where
  "texts_ok api t vs \<longleftrightarrow>
     sql_string (insert_sql api t (sort_fields vs)) \<and> sql_string (update_sql api t vs) \<and>
     sql_string (delete_sql api t) \<and> sql_string (read_sql api t)"

text \<open>
  A thread of the SQLite backend and the in-memory database hold the same records of the table \<open>t\<close>; in memory
  the index of a record is the name of its table followed by its key.
\<close>

definition same_rows ::
  "('w \<Rightarrow> sql_view) \<Rightarrow> string list \<Rightarrow> string \<Rightarrow> 'w sql_ctx \<Rightarrow> key_table \<Rightarrow> bool" where
  "same_rows view cols t s db \<longleftrightarrow> ctx_ok view {} s \<and> hdb_inv db \<and>
     (\<exists>rows. tables_of view s t = Some (cols, rows) \<and> (\<forall>k. sql_string k \<longrightarrow> hdb_view db (hdb_idx t k) = rows k))"

lemma sql_index: "c_str t = t \<Longrightarrow> sql_string k \<Longrightarrow> hdb_idx t k = t @ k"
proof -
  assume "c_str t = t" "sql_string k"
  then have "CHR 0x00 \<notin> set t" "CHR 0x00 \<notin> set k" using c_str_no_nul [of t] by (auto simp: sql_string_def)
  then show ?thesis by (simp add: hdb_idx_def key_index_def c_str_id)
qed

lemma same_rows_put:
  assumes "c_str t = t" and "sql_string k" and "ctx_ok view {} s'" and "hdb_inv db'"
    and "\<forall>k. sql_string k \<longrightarrow> hdb_view db (hdb_idx t k) = rows k"
    and "tables_of view s' t = Some (cols, rows(k := r))" and "hdb_view db' = (hdb_view db)(hdb_idx t k := r)"
  shows "same_rows view cols t s' db'"
  using assms sql_index [OF assms(1)] by (auto simp: same_rows_def)

lemma insert_spec_new:
  "distinct (map (c_str \<circ> fst) vs) \<Longrightarrow> \<forall>p \<in> set vs. m (c_str (fst p)) = None \<Longrightarrow>
     insert_spec vs m = (kOK, write_all vs m)"
proof (induction vs arbitrary: m)
  case (Cons p ps)
  have "\<forall>q \<in> set ps. (m(c_str (fst p) \<mapsto> c_str (snd p))) (c_str (fst q)) = None" using Cons.prems by (auto simp: image_iff)
  from Cons.IH [OF _ this] Cons.prems show ?case by (simp add: fun_upd_def)
qed simp

context sqlite_contract
begin

lemma agree_insert:
  assumes same: "same_rows view cols t s db" and t: "c_str t = t" and k: "sql_string k" and vs: "sql_values cols vs"
    and small: "texts_ok api t vs" and fuel: "0 < fuel" and new: "hdb_view db (hdb_idx t k) = None"
  shows "\<exists>s' db'. sql_Insert fuel api t k vs s = (Inr kOK, s') \<and> hdb_Insert lay t k vs db = (kOK, db') \<and>
    same_rows view cols t s' db'"
proof -
  obtain rows where r: "ctx_ok view {} s" "hdb_inv db" "tables_of view s t = Some (cols, rows)"
    "\<forall>k. sql_string k \<longrightarrow> hdb_view db (hdb_idx t k) = rows k" using same by (auto simp: same_rows_def)
  note v = vs [unfolded sql_values_def]
  have "\<exists>s'. sql_Insert fuel api t k vs s = (Inr kOK, s') \<and> ctx_ok view {} s' \<and>
      tables_of view s' = (tables_of view s)(c_str t \<mapsto> (cols, rows(k \<mapsto> write_all vs Map.empty)))"
    using r(3,4) t k v fuel small new by (intro insert_new_run [OF r(1)]) (auto simp: texts_ok_def)
  then obtain s' where s': "sql_Insert fuel api t k vs s = (Inr kOK, s')" "ctx_ok view {} s'"
    "tables_of view s' t = Some (cols, rows(k \<mapsto> write_all vs Map.empty))" using t by auto
  have "insert_spec vs Map.empty = (kOK, write_all vs Map.empty)"
    using insert_spec_new [of vs Map.empty] v by simp
  with hdb_Insert_laws [OF r(2), of vs t k] new have "fst (hdb_Insert lay t k vs db) = kOK"
    "hdb_inv (snd (hdb_Insert lay t k vs db))"
    "hdb_view (snd (hdb_Insert lay t k vs db)) = (hdb_view db)(hdb_idx t k \<mapsto> write_all vs Map.empty)" by simp_all
  with same_rows_put [OF t k s'(2) _ r(4) s'(3)] s'(1) show ?thesis by (metis prod.collapse)
qed

lemma agree_update:
  assumes same: "same_rows view cols t s db" and t: "c_str t = t" and k: "sql_string k" and vs: "sql_values cols vs"
    and small: "texts_ok api t vs" and fuel: "0 < fuel" and present: "hdb_view db (hdb_idx t k) = Some m"
  shows "\<exists>s' db'. sql_Update fuel api t k vs s = (Inr kOK, s') \<and> hdb_Update lay t k vs db = (kOK, db') \<and>
    same_rows view cols t s' db'"
proof -
  obtain rows where r: "ctx_ok view {} s" "hdb_inv db" "tables_of view s t = Some (cols, rows)"
    "\<forall>k. sql_string k \<longrightarrow> hdb_view db (hdb_idx t k) = rows k" using same by (auto simp: same_rows_def)
  note v = vs [unfolded sql_values_def]
  have table: "tables_of view s (c_str t) = Some (cols, rows)" using r(3) t by simp
  have row: "rows k = Some m" using r(4) k present by simp
  obtain s' where s': "sql_Update fuel api t k vs s = (Inr kOK, s')" "ctx_ok view {} s'"
    "tables_of view s' t = Some (cols, rows(k \<mapsto> write_all vs m))"
    using update_run [OF r(1) _ _ table, of vs k fuel] t k v fuel small row by (auto simp: texts_ok_def)
  from hdb_Update_laws [OF r(2), of lay t k vs] present have "fst (hdb_Update lay t k vs db) = kOK"
    "hdb_inv (snd (hdb_Update lay t k vs db))"
    "hdb_view (snd (hdb_Update lay t k vs db)) = (hdb_view db)(hdb_idx t k \<mapsto> write_all vs m)" by simp_all
  with same_rows_put [OF t k s'(2) _ r(4) s'(3)] s'(1) show ?thesis by (metis prod.collapse)
qed

lemma agree_delete:
  assumes same: "same_rows view cols t s db" and t: "c_str t = t" and k: "sql_string k"
    and small: "sql_string (delete_sql api t)"
  shows "\<exists>s'. sql_Delete api t k s = (Inr kOK, s') \<and> same_rows view cols t s' (snd (hdb_Delete t k db))"
proof -
  obtain rows where r: "ctx_ok view {} s" "hdb_inv db" "tables_of view s t = Some (cols, rows)"
    "\<forall>k. sql_string k \<longrightarrow> hdb_view db (hdb_idx t k) = rows k" using same by (auto simp: same_rows_def)
  have table: "tables_of view s (c_str t) = Some (cols, rows)" using r(3) t by simp
  obtain s' where s': "sql_Delete api t k s = (Inr kOK, s')" "ctx_ok view {} s'"
    "tables_of view s' t = Some (cols, rows(k := None))"
    using delete_run [OF r(1) _ small table k] t by auto
  from hdb_Delete_laws [OF r(2), of t k] same_rows_put [OF t k s'(2) _ r(4) s'(3)] s'(1) show ?thesis by simp
qed

text \<open>Both reads give the same pairs; SQLite in the order of the columns, the hash table in that of the request.\<close>

lemma agree_read:
  assumes same: "same_rows view cols t s db" and t: "c_str t = t" and k: "sql_string k"
    and small: "sql_string (read_sql api t)" and present: "hdb_view db (hdb_idx t k) = Some m"
    and fs: "fs \<noteq> []" "set fs \<subseteq> set cols \<inter> dom m" "key_column \<notin> set fs"
  shows "\<exists>s' res res'. sql_Read api t k (Some fs) [] s = (Inr (kOK, res), s') \<and>
    hdb_Read t k (Some fs) [] db = (kOK, res') \<and> set res = set res' \<and> same_rows view cols t s' db"
proof -
  obtain rows where r: "ctx_ok view {} s" "hdb_inv db" "tables_of view s t = Some (cols, rows)"
    "\<forall>k. sql_string k \<longrightarrow> hdb_view db (hdb_idx t k) = rows k" using same by (auto simp: same_rows_def)
  have table: "tables_of view s (c_str t) = Some (cols, rows)" using r(3) t by simp
  have row: "rows k = Some m" using r(4) k present by simp
  have clean: "clean_table (cols, rows)" using r(1,3) by (auto simp: ctx_ok_def clean_def)
  let ?cs = "wanted_columns (Some fs) (result_row cols k m)"
  have cs: "set ?cs = (\<lambda>c. (c, m c)) ` set fs"
    using fs by (auto simp: wanted_columns_def wanted_def result_row_def)
  have full: "\<not> (\<exists>c \<in> set ?cs. snd c = None)" unfolding cs using fs(2) by auto
  obtain s' where s': "sql_Read api t k (Some fs) [] s = (Inr (kOK, column_pairs ?cs), s')" "ctx_ok view {} s'"
    "tables_of view s' = tables_of view s"
    using read_present_run [OF r(1) _ small table k row, of "Some fs" "[]"] full by auto
  have pairs: "set (column_pairs ?cs) = (\<lambda>f. (f, the (m f))) ` set fs"
  proof -
    have "c_str (the (m f)) = the (m f)" if "f \<in> set fs" for f
      using clean row fs(2) that by (fastforce simp: clean_table_def)
    then show ?thesis unfolding column_pairs_def set_map cs by force
  qed
  have same_f: "c_str f = f" if "f \<in> set fs" for f using clean fs(2) that by (auto simp: clean_table_def)
  have "set (List.map_filter (\<lambda>f. map_option (Pair f) (m (c_str f))) fs) = (\<lambda>f. (f, the (m f))) ` set fs"
    using fs(2) same_f by (force simp: map_filter_def)
  with pairs stl_store.rd_present [OF r(2) present, of fs] s' r show ?thesis
    by (auto simp: same_rows_def)
qed

end

text \<open>The pairs that a read makes of a row, for requested columns that are filled.\<close>

lemma row_pairs:
  assumes "fs \<noteq> []" and "key_column \<notin> set fs" and "\<forall>c \<in> set fs. \<exists>v. r c = Some v \<and> c_str v = v"
  shows "\<not> (\<exists>c \<in> set (wanted_columns (Some fs) (result_row cols k r)). snd c = None)"
    and "column_pairs (wanted_columns (Some fs) (result_row cols k r)) =
      map (\<lambda>c. (c, the (r c))) (filter (\<lambda>c. c \<in> set fs) cols)"
proof -
  have w: "wanted_columns (Some fs) (result_row cols k r) = map (\<lambda>c. (c, r c)) (filter (\<lambda>c. c \<in> set fs) cols)"
    using assms(1,2) by (simp add: wanted_columns_def wanted_def result_row_def filter_map comp_def)
  then show "\<not> (\<exists>c \<in> set (wanted_columns (Some fs) (result_row cols k r)). snd c = None)" using assms(3) by auto
  show "column_pairs (wanted_columns (Some fs) (result_row cols k r)) =
      map (\<lambda>c. (c, the (r c))) (filter (\<lambda>c. c \<in> set fs) cols)"
    unfolding w column_pairs_def using assms(3) by auto
qed

lemma write_all_dom: "dom (write_all vs m) = dom m \<union> set (map (c_str \<circ> fst) vs)"
  by (induction vs arbitrary: m) auto

context sqlite_contract
begin

lemma life_run:
  assumes db: "name = db_name filename" "uri = (filename = '':memory:'')"
    and schema: "clean (tables_of view s)" "schema_ok api (tables_of view s) ds"
    and table: "fold table_at ds (tables_of view s) (c_str t) = Some (cols, rows)" "rows k = None"
    and vs: "sql_values cols vs" and small: "texts_ok api t vs" and k: "sql_string k" and fuel: "0 < fuel"
    and fs: "fs \<noteq> []" "set fs \<subseteq> set (map (c_str \<circ> fst) vs)" "key_column \<notin> set fs"
  shows "\<exists>h s1 s2 s3 s4. sql_CreateSchema api filename ds s = (Inr h, s1) \<and> sql_Init api filename s1 = (Inr (), s2) \<and>
    sql_Insert fuel api t k vs s2 = (Inr kOK, s3) \<and>
    sql_Read api t k (Some fs) [] s3 =
      (Inr (kOK, map (\<lambda>c. (c, the (write_all vs Map.empty c))) (filter (\<lambda>c. c \<in> set fs) cols)), s4) \<and>
    tables_of view s4 = (fold table_at ds (tables_of view s))(c_str t \<mapsto> (cols, rows(k \<mapsto> write_all vs Map.empty)))"
proof -
  let ?r = "write_all vs Map.empty"
  note v = vs [unfolded sql_values_def] and tx = small [unfolded texts_ok_def]
  obtain h s1 where s1: "sql_CreateSchema api filename ds s = (Inr h, s1)"
    "tables_of view s1 = fold table_at ds (tables_of view s)" "clean (tables_of view s1)"
    using schema_run [OF db schema] by blast
  obtain s2 where s2: "sql_Init api filename s1 = (Inr (), s2)" "ctx_ok view {} s2" "tables_of view s2 = tables_of view s1"
    using init_run [OF db s1(3)] by blast
  have at: "tables_of view s2 (c_str t) = Some (cols, rows)" using s1(2) s2(3) table(1) by simp
  obtain s3 where s3: "sql_Insert fuel api t k vs s2 = (Inr kOK, s3)" "ctx_ok view {} s3"
    "tables_of view s3 = (tables_of view s2)(c_str t \<mapsto> (cols, rows(k \<mapsto> ?r)))"
    using insert_new_run [OF s2(2) _ _ at table(2) _ _ _ k _ fuel, of vs] v tx by blast
  have at3: "tables_of view s3 (c_str t) = Some (cols, rows(k \<mapsto> ?r))" using s3(3) by simp
  have "\<exists>x. ?r c = Some x \<and> c_str x = x" if "c \<in> set fs" for c
  proof -
    have "c \<in> dom ?r" using fs(2) that by (auto simp: write_all_dom)
    then show ?thesis using write_all_clean [of Map.empty vs c] by auto
  qed
  then have r: "\<forall>c \<in> set fs. \<exists>x. ?r c = Some x \<and> c_str x = x" by blast
  have "(rows(k \<mapsto> ?r)) k = Some ?r" by simp
  from read_present_run [OF s3(2) _ _ at3 k this, of "Some fs" "[]"] tx row_pairs [OF fs(1,3) r, of cols k]
  obtain s4 where "sql_Read api t k (Some fs) [] s3 =
      (Inr (kOK, map (\<lambda>c. (c, the (?r c))) (filter (\<lambda>c. c \<in> set fs) cols)), s4)" "tables_of view s4 = tables_of view s3"
    by auto
  with s1(1,2) s2(1,3) s3(1,3) show ?thesis by (metis (no_types, lifting))
qed

end

section \<open>What the backend does with its library\<close>

lemma insert_sql_names:
  assumes "map fst ws = map fst vs"
  shows "insert_sql api t ws = insert_sql api t vs"
proof -
  have "map (\<lambda>v. '', '' @ escape_sql api (fst v)) us = map (\<lambda>n. '', '' @ escape_sql api n) (map fst us)"
    "map (\<lambda>_. '', ?'') us = replicate (length (map fst us)) '', ?''" for us :: fieldvals
    by (simp_all add: map_replicate_const comp_def)
  then show ?thesis unfolding insert_sql_def by (simp only: assms)
qed

text \<open>A thread of a benchmark on the small library, after the schema has been created.\<close>

definition mini_start :: "mini sql_ctx" where
  "mini_start = \<lparr>database = None, stmts = [], lib = \<lparr>mini_tables = Map.empty, mini_conns = 0, mini_stmts = []\<rparr>\<rparr>"

lemma mini_schema: "schema_ok mini_sqlite Map.empty [Table ''t'' [''a'', ''b'']]"
proof -
  have q: "escape_sql mini_sqlite n = quote_sql (c_str n)" for n by (rule escape_quotes [OF mini.quoting])
  show ?thesis
    by (simp add: create_sql_def q quote_sql_def quote_body_def c_str_def sql_string_def create_ok_def key_column_def
        fold_case_def char_of_def)
qed

lemma mini_ready:
  "\<exists>h s s'. sql_CreateSchema mini_sqlite ''f'' [Table ''t'' [''a'', ''b'']] mini_start = (Inr h, s) \<and>
     sql_Init mini_sqlite ''f'' s = (Inr (), s') \<and> ctx_ok mini_view {} s' \<and>
     tables_of mini_view s' = [''t'' \<mapsto> ([''a'', ''b''], Map.empty)]"
proof -
  have "\<exists>h s. sql_CreateSchema mini_sqlite ''f'' [Table ''t'' [''a'', ''b'']] mini_start = (Inr h, s) \<and>
      tables_of mini_view s = fold table_at [Table ''t'' [''a'', ''b'']] Map.empty \<and> clean (tables_of mini_view s)"
    using mini.schema_run [of "db_name ''f''" "''f''" False mini_start "[Table ''t'' [''a'', ''b'']]"] mini_schema
    by (simp add: mini_start_def clean_def)
  then obtain h s where s: "sql_CreateSchema mini_sqlite ''f'' [Table ''t'' [''a'', ''b'']] mini_start = (Inr h, s)"
    "tables_of mini_view s = [''t'' \<mapsto> ([''a'', ''b''], Map.empty)]" "clean (tables_of mini_view s)"
    by (auto simp: table_at_def create_table_def c_str_def)
  from mini.init_run [of "db_name ''f''" "''f''" False s] s show ?thesis by auto
qed

text \<open>The texts of the examples are within the limits.\<close>

lemma mini_texts: "texts_ok mini_sqlite ''t'' [(''b'', ''2''), (''a'', ''1'')]"
proof -
  have q: "escape_sql mini_sqlite n = quote_sql (c_str n)" for n by (rule escape_quotes [OF mini.quoting])
  show ?thesis
    by (simp add: texts_ok_def insert_sql_def update_sql_def delete_sql_def read_sql_def q quote_sql_def quote_body_def
        c_str_def sql_string_def sort_fields_def)
qed

lemma mini_values: "sql_values [''a'', ''b''] [(''b'', ''2''), (''a'', ''1'')]"
  by (simp add: sql_values_def sql_string_def c_str_def)

lemma mini_record:
  "\<exists>s. ctx_ok mini_view {} s \<and> tables_of mini_view s (c_str ''t'') =
     Some ([''a'', ''b''], Map.empty(''k'' \<mapsto> write_all [(''b'', ''2''), (''a'', ''1'')] Map.empty))"
proof -
  let ?vs = "[(''b'', ''2''), (''a'', ''1'')]"
  obtain s0 where s0: "ctx_ok mini_view {} s0" "tables_of mini_view s0 = [''t'' \<mapsto> ([''a'', ''b''], Map.empty)]"
    using mini_ready by blast
  have k: "sql_string ''k''" "c_str ''t'' = ''t''" by (simp_all add: sql_string_def c_str_def)
  then have "tables_of mini_view s0 (c_str ''t'') = Some ([''a'', ''b''], Map.empty)" using s0(2) by simp
  from mini.insert_new_run [OF s0(1) _ _ this refl, of ?vs "''k''" 1] k mini_values mini_texts show ?thesis
    unfolding sql_values_def texts_ok_def by auto
qed

text \<open>
  C23: From the schema to a record. Once the schema has been created and a thread has its connection, an
  insert of a new record succeeds and stores exactly its values; a read of some of the inserted fields then
  returns them in the order of the table's columns, and no other row of any table has changed.
\<close>

theorem sql_insert_then_read:
  assumes "sqlite_contract api name uri view" and "name = db_name filename" and "uri = (filename = '':memory:'')"
    and "clean (tables_of view s)" and "schema_ok api (tables_of view s) ds"
    and "fold table_at ds (tables_of view s) (c_str t) = Some (cols, rows)" and "rows k = None"
    and "sql_values cols vs" and "texts_ok api t vs" and "sql_string k" and "0 < fuel"
    and "fs \<noteq> []" and "set fs \<subseteq> set (map (c_str \<circ> fst) vs)" and "key_column \<notin> set fs"
  shows "\<exists>h s1 s2 s3 s4. sql_CreateSchema api filename ds s = (Inr h, s1) \<and> sql_Init api filename s1 = (Inr (), s2) \<and>
    sql_Insert fuel api t k vs s2 = (Inr kOK, s3) \<and>
    sql_Read api t k (Some fs) [] s3 =
      (Inr (kOK, map (\<lambda>c. (c, the (write_all vs Map.empty c))) (filter (\<lambda>c. c \<in> set fs) cols)), s4) \<and>
    tables_of view s4 = (fold table_at ds (tables_of view s))(c_str t \<mapsto> (cols, rows(k \<mapsto> write_all vs Map.empty)))"
  by (rule sqlite_contract.life_run [OF assms])

theorem sql_insert_then_read_witness:
  "\<exists>s3 s4 s2. sql_Insert 1 mini_sqlite ''t'' ''k'' [(''b'', ''2''), (''a'', ''1'')] s2 = (Inr kOK, s3) \<and>
     sql_Read mini_sqlite ''t'' ''k'' (Some [''b'', ''a'']) [] s3 = (Inr (kOK, [(''a'', ''1''), (''b'', ''2'')]), s4)"
proof -
  have schema: "fold table_at [Table ''t'' [''a'', ''b'']] (tables_of mini_view mini_start) (c_str ''t'') =
      Some ([''a'', ''b''], Map.empty)"
    by (simp add: mini_start_def table_at_def create_table_def c_str_def)
  have vs: "sql_values [''a'', ''b''] [(''b'', ''2''), (''a'', ''1'')]" "sql_string ''k''"
    by (simp_all add: sql_values_def sql_string_def c_str_def)
  have start: "clean (tables_of mini_view mini_start)" "tables_of mini_view mini_start = Map.empty"
    by (simp_all add: mini_start_def clean_def)
  have "\<exists>h s1 s2 s3 s4. sql_CreateSchema mini_sqlite ''f'' [Table ''t'' [''a'', ''b'']] mini_start = (Inr h, s1) \<and>
    sql_Init mini_sqlite ''f'' s1 = (Inr (), s2) \<and>
    sql_Insert 1 mini_sqlite ''t'' ''k'' [(''b'', ''2''), (''a'', ''1'')] s2 = (Inr kOK, s3) \<and>
    sql_Read mini_sqlite ''t'' ''k'' (Some [''b'', ''a'']) [] s3 =
      (Inr (kOK, map (\<lambda>c. (c, the (write_all [(''b'', ''2''), (''a'', ''1'')] Map.empty c)))
        (filter (\<lambda>c. c \<in> set [''b'', ''a'']) [''a'', ''b''])), s4) \<and>
    tables_of mini_view s4 = (fold table_at [Table ''t'' [''a'', ''b'']] (tables_of mini_view mini_start))
      (c_str ''t'' \<mapsto> ([''a'', ''b''], Map.empty(''k'' \<mapsto> write_all [(''b'', ''2''), (''a'', ''1'')] Map.empty)))"
    by (rule sql_insert_then_read [OF mini.sqlite_contract_axioms refl refl start(1) _ schema refl vs(1) mini_texts vs(2)])
      (use mini_schema in \<open>simp_all add: mini_start_def key_column_def c_str_def\<close>)
  then show ?thesis by (auto simp: c_str_def)
qed



text \<open>
  C39: A refused insert spoils its statement. An insert of a key that is present throws and stores nothing, but
  it leaves the cached statement without the reset that SQLite demands: from then on every insert with
  the same fields of the same thread throws when it binds its key, whatever that is, and stores nothing.
\<close>

theorem sql_insert_conflict_sticks:
  assumes "sqlite_contract api name uri view" and "ctx_ok view {} s"
    and "tables_of view s (c_str t) = Some (cols, rows)" and "rows k \<noteq> None"
    and "sql_values cols vs" and "texts_ok api t vs" and "sql_string k" and "0 < fuel"
  shows "\<exists>s1. sql_Insert fuel api t k vs s = (Inl (RuntimeError ''Failed to step insert statement''), s1) \<and>
    tables_of view s1 = tables_of view s \<and> stuck view (insert_sql api t (sort_fields vs)) s1 \<and>
    (\<forall>s2 k' ws. stuck view (insert_sql api t (sort_fields vs)) s2 \<and> map fst (sort_fields ws) = map fst (sort_fields vs) \<longrightarrow>
      (\<exists>s3. sql_Insert fuel api t k' ws s2 = (Inl (RuntimeError ''Failed to bind parameter''), s3) \<and>
        tables_of view s3 = tables_of view s2 \<and> stuck view (insert_sql api t (sort_fields vs)) s3))"
proof -
  have "insert_sql api t (sort_fields ws) = insert_sql api t (sort_fields vs)"
    if "map fst (sort_fields ws) = map fst (sort_fields vs)" for ws
    by (rule insert_sql_names [OF that])
  then show ?thesis
    using sqlite_contract.insert_present_run [OF assms(1,2) _ _ assms(3,4) _ _ _ assms(7) _ assms(8), of vs]
      sqlite_contract.stuck_insert [OF assms(1), of t _ _ fuel] assms(5,6)
    unfolding sql_values_def texts_ok_def by (metis empty_iff)
qed

theorem sql_insert_conflict_sticks_witness:
  "\<exists>s s1 s2. sql_Insert 1 mini_sqlite ''t'' ''k'' [(''b'', ''2''), (''a'', ''1'')] s =
       (Inl (RuntimeError ''Failed to step insert statement''), s1) \<and>
     sql_Insert 1 mini_sqlite ''t'' ''j'' [(''a'', ''3''), (''b'', ''4'')] s1 =
       (Inl (RuntimeError ''Failed to bind parameter''), s2)"
proof -
  let ?vs = "[(''b'', ''2''), (''a'', ''1'')]"
  have k: "sql_string ''k''" by (simp add: sql_string_def)
  obtain s where
    s: "ctx_ok mini_view {} s" "tables_of mini_view s (c_str ''t'') =
      Some ([''a'', ''b''], Map.empty(''k'' \<mapsto> write_all ?vs Map.empty))"
    using mini_record by blast
  have "(Map.empty(''k'' \<mapsto> write_all ?vs Map.empty)) ''k'' \<noteq> None" by simp
  from sql_insert_conflict_sticks [OF mini.sqlite_contract_axioms s this mini_values mini_texts k zero_less_one]
  obtain s1 where s1: "sql_Insert 1 mini_sqlite ''t'' ''k'' ?vs s = (Inl (RuntimeError ''Failed to step insert statement''), s1)"
    "stuck mini_view (insert_sql mini_sqlite ''t'' (sort_fields ?vs)) s1"
    and later: "\<forall>s2 k' ws. stuck mini_view (insert_sql mini_sqlite ''t'' (sort_fields ?vs)) s2 \<and>
      map fst (sort_fields ws) = map fst (sort_fields ?vs) \<longrightarrow>
      (\<exists>s3. sql_Insert 1 mini_sqlite ''t'' k' ws s2 = (Inl (RuntimeError ''Failed to bind parameter''), s3) \<and>
        tables_of mini_view s3 = tables_of mini_view s2 \<and>
        stuck mini_view (insert_sql mini_sqlite ''t'' (sort_fields ?vs)) s3)" by blast
  have "map fst (sort_fields [(''a'', ''3''), (''b'', ''4'')]) = map fst (sort_fields ?vs)" by (simp add: sort_fields_def)
  with later s1 show ?thesis by blast
qed

end
