(* ===== verification/Servers.thy ===== *)
theory Servers
  imports ShmSession Ipc SqlLife
begin

text \<open>
  The server programs as a whole: \<open>main\<close> of \<open>sqlite-ipc-srv/ipc.cc\<close> and of \<open>sqlite-shm-srv/shm.cc\<close> registers
  a \<open>DbServer\<close> and handles the calls that arrive, and the \<open>SqliteLibDB\<close> behind it is the SQLite backend of
  \<open>sqlite_lib_db.cc\<close>. Through the IPC server a record goes from the benchmark's task into the tables of the
  library and back.
\<close>

section \<open>The database of a server\<close>

text \<open>
  The pointer \<open>db\<close> of \<open>DbServer\<close>, null at first, with the file name that its \<open>SqliteLibDB\<close> was constructed
  with, and the context of the server's thread.
\<close>

record 'w server_db =
  srv_db :: "string option"
  srv_sql :: "'w sql_ctx"

definition on_sql :: "('w sql_ctx, 'a) op \<Rightarrow> ('w server_db, 'a) op" where
  "on_sql m = onM srv_sql (\<lambda>x. srv_sql_update (\<lambda>_. x)) m"

text \<open>The constructor of \<open>SqliteLibDB\<close> with \<open>CreateSchema\<close>, as \<open>op_schema\<close> calls them.\<close>

definition lib_schema :: "'w sqlite \<Rightarrow> string \<Rightarrow> table_desc list \<Rightarrow> ('w server_db, unit) op" where
  "lib_schema api fname tables =
     thenM (modifyM (srv_db_update (\<lambda>_. Some fname)))
       (on_sql (bindM (sql_CreateSchema api fname tables) (\<lambda>_. retM ())))"

text \<open>\<open>database->Init()\<close> of the constructor of \<open>BenchServer\<close>, which follows the pointer.\<close>

definition lib_init :: "'w sqlite \<Rightarrow> ('w server_db, unit) op" where
  "lib_init api =
     bindM (getM srv_db) (\<lambda>db. case db of None \<Rightarrow> throwM BadMemory | Some fname \<Rightarrow> on_sql (sql_Init api fname))"

definition server_ops :: "nat \<Rightarrow> 'w sqlite \<Rightarrow> 'w server_db db_ops" where
  "server_ops fuel api =
     \<lparr>op_Read = \<lambda>t k flds result. on_sql (sql_Read api t k flds result),
      op_Scan = \<lambda>t k len flds result. on_sql (sql_Scan fuel api t k len flds result),
      op_Update = \<lambda>t k vs. on_sql (sql_Update fuel api t k vs),
      op_Insert = \<lambda>t k vs. on_sql (sql_Insert fuel api t k vs),
      op_Delete = \<lambda>t k. on_sql (sql_Delete api t k)\<rparr>"

section \<open>The main thread\<close>

text \<open>
  \<open>registerServer\<close>, with the answer of the registry.
\<close>

definition registerServer :: "bool \<Rightarrow> fault + unit" where
  "registerServer valid =
     (if \<not> valid
      then Inl (RuntimeError ''Could not register IPC server, is there an 'ipc' in the caps table?'')
      else Inr ())"

definition shm_registerServer :: "bool \<Rightarrow> fault + unit" where
  "shm_registerServer valid =
     (if \<not> valid
      then Inl (RuntimeError ''Could not register IPC server, is there an 'shm' in the caps table?'')
      else Inr ())"

text \<open>
  The calls that the loop of the registry hands to the \<open>DbServer\<close>; \<open>op_spawn\<close> differs in the two programs. A
  schema call brings a page and the return code of its \<open>attach\<close>. What a handler throws ends the program;
  otherwise its return code is the answer.
\<close>

datatype main_call = SchemaCall bool int mem | SpawnCall kernel

definition db_dispatch ::
  "'w sqlite \<Rightarrow> (kernel \<Rightarrow> ('w server_db, int) session_op) \<Rightarrow> main_call \<Rightarrow> ('w server_db, int) session_op" where
  "db_dispatch api spawn call =
     (case call of
        SchemaCall cap_received attach_rc page \<Rightarrow>
          thenM (modifyM (infopage_update (\<lambda>_. page))) (srv_schema (lib_schema api) cap_received attach_rc)
      | SpawnCall k \<Rightarrow> spawn k)"

primrec server_loop ::
  "'w sqlite \<Rightarrow> (kernel \<Rightarrow> ('w server_db, int) session_op) \<Rightarrow> main_call list \<Rightarrow> ('w server_db, int list) session_op" where
  "server_loop api spawn [] = retM []"
| "server_loop api spawn (c # cs) =
     bindM (db_dispatch api spawn c) (\<lambda>rc. bindM (server_loop api spawn cs) (\<lambda>rcs. retM (rc # rcs)))"

definition ipc_main :: "'w sqlite \<Rightarrow> bool \<Rightarrow> main_call list \<Rightarrow> ('w server_db, int list) session_op" where
  "ipc_main api valid calls =
     thenM (liftM (registerServer valid)) (server_loop api (srv_spawn (lib_init api)) calls)"

definition shm_main :: "'w sqlite \<Rightarrow> bool \<Rightarrow> main_call list \<Rightarrow> ('w server_db, int list) session_op" where
  "shm_main api valid calls =
     thenM (liftM (shm_registerServer valid)) (server_loop api (shm_spawn (lib_init api)) calls)"

section \<open>A schema comes first\<close>

text \<open>A kernel that grants everything that a new session asks for.\<close>

definition grants :: "kernel \<Rightarrow> bool" where
  "grants k \<longleftrightarrow> 0 \<le> k_alloc_in k \<and> 0 \<le> k_alloc_out k \<and> 0 \<le> k_attach_in k \<and> 0 \<le> k_attach_out k \<and>
     k_in_received k \<and> k_out_received k \<and> 0 \<le> k_srv_attach_in k \<and> 0 \<le> k_srv_attach_out k \<and> k_thread k = 0 \<and>
     k_migrate k = 0 \<and> \<not> k_send_error k \<and> \<not> k_receive_error k"

lemma grants_kind [simp]: "grants kind_kernel"
  by (simp add: grants_def kind_kernel_def)

lemma spawn_run:
  assumes "grants k"
  shows "srv_spawn dbInit k s =
    (case dbInit (backend s) of
       (Inl e, b) \<Rightarrow> (Inl e, s\<lparr>srv_thread := True, srv_caps := True, srv_in_map := True, srv_out_map := True, backend := b\<rparr>)
     | (Inr u, b) \<Rightarrow> (Inr L4_EOK, s\<lparr>srv_thread := True, srv_caps := True, srv_in_map := True, srv_out_map := True,
         backend := b, srv_object := True\<rparr>))"
  using assms
  by (auto simp: grants_def srv_spawn_def bench_loop_def bench_new_def migrate_def liftM_def thenM_def bindM_def
      modifyM_def retM_def on_backend_def onM_def split: prod.split sum.split)

text \<open>What a server program promises of a way to start sessions, whichever thread does the work.\<close>

locale session_starter =
  fixes spawn :: "kernel \<Rightarrow> ('w server_db, int) session_op"
  assumes keeps_db: "spawn k s = (Inr rc, t) \<Longrightarrow> srv_db (backend t) = srv_db (backend s)"
    and needs_db: "spawn k s = (Inr L4_EOK, t) \<Longrightarrow> srv_db (backend s) \<noteq> None"
    and null_db: "grants k \<Longrightarrow> srv_db (backend s) = None \<Longrightarrow> fst (spawn k s) = Inl BadMemory"
begin

lemma rejected_schema:
  "db_dispatch api spawn (SchemaCall c r page) s = (Inr rc, t) \<Longrightarrow> rc \<noteq> L4_EOK \<Longrightarrow>
     srv_db (backend t) = srv_db (backend s)"
  by (auto simp: db_dispatch_def srv_schema_def op_run op_results L4_EOK_def split: if_splits)

lemma loop_run:
  assumes "server_loop api spawn calls s = (Inr rcs, t)"
  shows "length rcs = length calls \<and>
    (\<forall>i k. i < length calls \<and> calls ! i = SpawnCall k \<and> rcs ! i = L4_EOK \<longrightarrow>
      srv_db (backend s) \<noteq> None \<or> (\<exists>j < i. \<exists>c r page. calls ! j = SchemaCall c r page \<and> rcs ! j = L4_EOK))"
  using assms
proof (induction calls arbitrary: s rcs)
  case Nil
  then show ?case by (simp add: op_run)
next
  case (Cons call calls)
  obtain rc u rcs' where run: "db_dispatch api spawn call s = (Inr rc, u)" "server_loop api spawn calls u = (Inr rcs', t)"
    "rcs = rc # rcs'" using Cons.prems by (auto simp: op_run op_results)
  note IH = Cons.IH [OF run(2)]
  show ?case
  proof (intro conjI allI impI)
    show "length rcs = length (call # calls)" using IH run(3) by simp
    fix i k
    assume i: "i < length (call # calls) \<and> (call # calls) ! i = SpawnCall k \<and> rcs ! i = L4_EOK"
    show "srv_db (backend s) \<noteq> None \<or> (\<exists>j < i. \<exists>c r page. (call # calls) ! j = SchemaCall c r page \<and> rcs ! j = L4_EOK)"
    proof (cases i)
      case 0
      then show ?thesis using i run(1,3) needs_db [of k s u] by (simp add: db_dispatch_def)
    next
      case (Suc n)
      then consider "srv_db (backend u) \<noteq> None"
        | j c r page where "j < n" "calls ! j = SchemaCall c r page" "rcs' ! j = L4_EOK"
        using i IH run(3) by auto
      then show ?thesis
      proof cases
        case 1
        show ?thesis
        proof (cases call)
          case (SchemaCall c r page)
          then show ?thesis using 1 Suc run(1,3) rejected_schema [of api c r page s rc u] by fastforce
        next
          case (SpawnCall k')
          then show ?thesis using 1 run(1) keeps_db [of k' s rc u] by (simp add: db_dispatch_def)
        qed
      next
        case 2
        then show ?thesis using Suc run(3) by (intro disjI2 exI [of _ "Suc j"]) simp
      qed
    qed
  qed
qed

lemma spawn_first: "grants k \<Longrightarrow> srv_db (backend s) = None \<Longrightarrow> fst (server_loop api spawn (SpawnCall k # calls) s) = Inl BadMemory"
  using null_db [of k s] by (cases "spawn k s") (simp add: db_dispatch_def bindM_Inl)

end

interpretation ipc_starter: session_starter "srv_spawn (lib_init api)" for api
proof
  fix k rc and s t :: "'a server_db session"
  assume "srv_spawn (lib_init api) k s = (Inr rc, t)"
  then show "srv_db (backend t) = srv_db (backend s)"
    by (auto simp: srv_spawn_def bench_loop_def bench_new_def lib_init_def on_sql_def on_backend_def migrate_def op_run
        op_results split: if_splits option.splits)
next
  fix k and s t :: "'a server_db session"
  assume "srv_spawn (lib_init api) k s = (Inr L4_EOK, t)"
  then show "srv_db (backend s) \<noteq> None"
    by (auto simp: srv_spawn_def bench_loop_def bench_new_def lib_init_def on_sql_def on_backend_def migrate_def op_run
        op_results L4_EOK_def L4_EACCESS_def split: if_splits option.splits)
next
  fix k and s :: "'a server_db session"
  assume "grants k" "srv_db (backend s) = None"
  then show "fst (srv_spawn (lib_init api) k s) = Inl BadMemory"
    by (simp add: spawn_run lib_init_def bindM_def op_run)
qed

interpretation shm_starter: session_starter "shm_spawn (lib_init api)" for api
proof
  fix k rc and s t :: "'a server_db session"
  assume "shm_spawn (lib_init api) k s = (Inr rc, t)"
  then show "srv_db (backend t) = srv_db (backend s)"
    by (auto simp: shm_spawn_def shm_bench_new_def lib_init_def on_sql_def on_backend_def op_run
        op_results split: if_splits option.splits)
next
  fix k and s t :: "'a server_db session"
  assume "shm_spawn (lib_init api) k s = (Inr L4_EOK, t)"
  then show "srv_db (backend s) \<noteq> None"
    by (auto simp: shm_spawn_def shm_bench_new_def lib_init_def on_sql_def on_backend_def op_run
        op_results L4_EOK_def L4_EACCESS_def split: if_splits option.splits)
next
  fix k and s :: "'a server_db session"
  assume "grants k" "srv_db (backend s) = None"
  then show "fst (shm_spawn (lib_init api) k s) = Inl BadMemory"
    by (simp add: shm_spawn_def shm_bench_new_def grants_def lib_init_def on_backend_def onM_def thenM_def bindM_def op_run)
qed

text \<open>
  C36: A server gives out no session before it has a database. In both server programs every call is answered
  as long as the program runs, and when a session is granted an accepted schema came before it. A program
  whose object cannot be registered handles no call, and one that is asked for a session first follows the
  null pointer of its database.
\<close>

theorem server_schema_first:
  assumes "srv_db (backend s) = None" and "main \<in> {ipc_main api, shm_main api}"
  shows "(\<forall>rcs t. main valid calls s = (Inr rcs, t) \<longrightarrow>
      valid \<and> length rcs = length calls \<and>
      (\<forall>i k. i < length calls \<and> calls ! i = SpawnCall k \<and> rcs ! i = L4_EOK \<longrightarrow>
        (\<exists>j < i. \<exists>c r page. calls ! j = SchemaCall c r page \<and> rcs ! j = L4_EOK))) \<and>
    (\<forall>k. grants k \<longrightarrow> fst (main True (SpawnCall k # calls) s) = Inl BadMemory)"
proof (intro conjI allI impI)
  fix rcs t assume "main valid calls s = (Inr rcs, t)"
  then have valid: "valid" and run: "server_loop api (srv_spawn (lib_init api)) calls s = (Inr rcs, t) \<or>
      server_loop api (shm_spawn (lib_init api)) calls s = (Inr rcs, t)"
    using assms(2)
    by (auto simp: ipc_main_def shm_main_def registerServer_def shm_registerServer_def op_run op_results split: if_splits)
  show "valid" by (rule valid)
  show "length rcs = length calls" using run ipc_starter.loop_run shm_starter.loop_run by blast
  fix i k assume i: "i < length calls \<and> calls ! i = SpawnCall k \<and> rcs ! i = L4_EOK"
  from run show "\<exists>j < i. \<exists>c r page. calls ! j = SchemaCall c r page \<and> rcs ! j = L4_EOK"
  proof
    assume "server_loop api (srv_spawn (lib_init api)) calls s = (Inr rcs, t)"
    from ipc_starter.loop_run [OF this] i assms(1) show ?thesis by blast
  next
    assume "server_loop api (shm_spawn (lib_init api)) calls s = (Inr rcs, t)"
    from shm_starter.loop_run [OF this] i assms(1) show ?thesis by blast
  qed
next
  fix k assume "grants k"
  then show "fst (main True (SpawnCall k # calls) s) = Inl BadMemory"
    using assms ipc_starter.spawn_first [where k = k and s = s] shm_starter.spawn_first [where k = k and s = s]
    by (auto simp: ipc_main_def shm_main_def registerServer_def shm_registerServer_def thenM_def bindM_def op_run
        simp del: server_loop.simps)
qed

text \<open>A server of the examples: nothing has happened yet, and the library is the small one.\<close>

definition mini_server :: "mini server_db session" where
  "mini_server = fresh_session \<lparr>srv_db = None, srv_sql = mini_start\<rparr>"

theorem server_schema_first_witness:
  "fst (ipc_main mini_sqlite True [SpawnCall kind_kernel] mini_server) = Inl BadMemory \<and>
   fst (shm_main mini_sqlite True [SpawnCall kind_kernel] mini_server) = Inl BadMemory"
  using server_schema_first [of mini_server "ipc_main mini_sqlite" mini_sqlite True "[]"]
    server_schema_first [of mini_server "shm_main mini_sqlite" mini_sqlite True "[]"] grants_kind
  by (simp add: mini_server_def fresh_session_def)

section \<open>A record through the server\<close>

lemma ipc_Init_run:
  assumes "grants k" and "dbInit (backend s) = (Inr (), b)"
  shows "\<exists>t. ipc_Init dbInit k s = (Inr (), t) \<and> backend t = b"
proof -
  let ?s = "s\<lparr>clt_caps := True, ds_in_obj := True, ds_in := k_fresh_in k, ds_out_obj := True,
    ds_out := k_fresh_out k, clt_in_map := True, clt_out_map := True\<rparr>"
  have "open_dataspaces k s = (Inr (), ?s)" using assms(1) by (simp add: open_dataspaces_run grants_def)
  moreover have "backend ?s = backend s" by simp
  ultimately show ?thesis using spawn_run [OF assms(1), of dbInit ?s] assms(2)
    by (simp add: ipc_Init_def checked_call_def in_server_def thenM_def bindM_def op_run)
qed

lemma refinesE:
  assumes "refines r (Inr x, b)"
  obtains t where "r = (Inr x, t)" "backend t = b"
  using assms by (cases r) (simp add: refines_def)

text \<open>The messages of the life of a record, and its read result, can be carried by the pages.\<close>

definition messages_fit :: "string \<Rightarrow> table_desc list \<Rightarrow> string \<Rightarrow> string \<Rightarrow> fieldvals \<Rightarrow> string list \<Rightarrow> fieldvals \<Rightarrow> bool" where
  "messages_fit filename ds t k vs fs res \<longleftrightarrow>
     schema_req_ok filename ds \<and> length (enc_schema_req filename ds) \<le> 1048576 \<and>
     values_req_ok t k vs \<and> length (enc_values_req t k vs) \<le> 1048576 \<and>
     read_req_ok t k fs \<and> length (enc_read_req t k fs) \<le> 1048576 \<and>
     kvs_ok res \<and> length (enc_kvs res) \<le> 1048576"

context sqlite_contract
begin

lemma remote_life:
  assumes db: "name = db_name filename" "uri = (filename = '':memory:'')"
    and schema: "clean (tables_of view (srv_sql (backend s)))" "schema_ok api (tables_of view (srv_sql (backend s))) ds"
    and table: "fold table_at ds (tables_of view (srv_sql (backend s))) (c_str t) = Some (cols, rows)" "rows k = None"
    and vs: "sql_values cols vs" and small: "texts_ok api t vs" and k: "sql_string k" and fuel: "0 < fuel"
    and fs: "fs \<noteq> []" "set fs \<subseteq> set (map (c_str \<circ> fst) vs)" "key_column \<notin> set fs"
    and fit: "messages_fit filename ds t k vs fs (map (\<lambda>c. (c, the (write_all vs Map.empty c))) (filter (\<lambda>c. c \<in> set fs) cols))"
    and kernel: "grants kn"
  shows "\<exists>u1 u2 u3 u4. ipc_CreateSchema (lib_schema api) True 0 filename ds s = (Inr (), u1) \<and>
    ipc_Init (lib_init api) kn u1 = (Inr (), u2) \<and>
    ipc_Insert (server_ops fuel api) t k vs u2 = (Inr kOK, u3) \<and>
    ipc_Read (server_ops fuel api) t k (Some fs) result u3 =
      (Inr (kOK, map (\<lambda>c. (c, the (write_all vs Map.empty c))) (filter (\<lambda>c. c \<in> set fs) cols)), u4) \<and>
    tables_of view (srv_sql (backend u4)) =
      (fold table_at ds (tables_of view (srv_sql (backend s))))(c_str t \<mapsto> (cols, rows(k \<mapsto> write_all vs Map.empty)))"
proof -
  let ?res = "map (\<lambda>c. (c, the (write_all vs Map.empty c))) (filter (\<lambda>c. c \<in> set fs) cols)"
  let ?ops = "server_ops fuel api"
  have m: "schema_req_ok filename ds" "length (enc_schema_req filename ds) \<le> 1048576" "values_req_ok t k vs"
    "length (enc_values_req t k vs) \<le> 1048576" "read_req_ok t k fs" "length (enc_read_req t k fs) \<le> 1048576"
    "kvs_ok ?res" "length (enc_kvs ?res) \<le> 1048576"
    using fit unfolding messages_fit_def by blast+
  obtain h s1 s2 s3 s4 where lf: "sql_CreateSchema api filename ds (srv_sql (backend s)) = (Inr h, s1)"
    "sql_Init api filename s1 = (Inr (), s2)" "sql_Insert fuel api t k vs s2 = (Inr kOK, s3)"
    "sql_Read api t k (Some fs) [] s3 = (Inr (kOK, ?res), s4)"
    "tables_of view s4 = (fold table_at ds (tables_of view (srv_sql (backend s))))(c_str t \<mapsto> (cols, rows(k \<mapsto> write_all vs Map.empty)))"
    using life_run [OF db schema table vs small k fuel fs] by blast
  let ?b = "\<lambda>c. (backend s)\<lparr>srv_db := Some filename, srv_sql := c\<rparr>"
  have lib: "lib_schema api filename ds (backend s) = (Inr (), ?b s1)"
    using lf(1) by (simp add: lib_schema_def on_sql_def thenM_def bindM_def onM_def op_run)
  have "refines (ipc_CreateSchema (lib_schema api) True 0 filename ds s) (Inr (), ?b s1)"
    using schema_transfers [OF m(1,2), of "lib_schema api" True 0 s]
    by (simp add: ipc_CreateSchema_def lib)
  then obtain u1 where u1: "ipc_CreateSchema (lib_schema api) True 0 filename ds s = (Inr (), u1)" "backend u1 = ?b s1"
    by (rule refinesE)
  have "lib_init api (backend u1) = (Inr (), ?b s2)"
    using lf(2) u1(2) by (simp add: lib_init_def on_sql_def bindM_def onM_def op_run)
  from ipc_Init_run [of kn "lib_init api" u1, OF kernel this] obtain u2 where u2: "ipc_Init (lib_init api) kn u1 = (Inr (), u2)" "backend u2 = ?b s2"
    by (elim exE conjE)
  have "op_Insert ?ops t k vs (backend u2) = (Inr kOK, ?b s3)"
    using lf(3) u2(2) by (simp add: server_ops_def on_sql_def onM_def)
  then have "refines (ipc_Insert ?ops t k vs u2) (Inr kOK, ?b s3)"
    using ipc_commands_run [OF m(3), of ?ops u2] m(4) by (simp add: remote_command_def)
  then obtain u3 where u3: "ipc_Insert ?ops t k vs u2 = (Inr kOK, u3)" "backend u3 = ?b s3"
    by (rule refinesE)
  have read: "op_Read ?ops t k (Some fs) [] (backend u3) = (Inr (kOK, ?res), ?b s4)"
    using lf(4) u3(2) by (simp add: server_ops_def on_sql_def onM_def)
  have "set fs \<inter> set cols \<noteq> {}" using fs(1,2) vs by (cases fs) (auto simp: sql_values_def)
  then have "?res \<noteq> []" by (auto simp: filter_empty_conv)
  then have "refines (ipc_Read ?ops t k (Some fs) result u3) (Inr (kOK, ?res), ?b s4)"
    using ipc_Read_run [of t k "Some fs" ?ops u3 result] m(5-8) read
    by (simp add: sent_fields_def remote_query_def status_of_result_def)
  then obtain u4 where "ipc_Read ?ops t k (Some fs) result u3 = (Inr (kOK, ?res), u4)" "backend u4 = ?b s4"
    by (rule refinesE)
  with u1(1) u2(1) u3(1) lf(5) show ?thesis by auto
qed

end

text \<open>
  C15: A record through the whole stack. A benchmark on the IPC backend sends its schema to a server that was
  just started, opens a session, inserts a record and reads fields of it: the file name and the tables arrive
  in the library, every call succeeds, the values come back through the pages in the order of the table's
  columns, and in the library exactly that record has been added to exactly those tables.
\<close>

theorem remote_insert_then_read:
  assumes "sqlite_contract api name uri view" and "name = db_name filename" and "uri = (filename = '':memory:'')"
    and "clean (tables_of view (srv_sql (backend s)))" and "schema_ok api (tables_of view (srv_sql (backend s))) ds"
    and "fold table_at ds (tables_of view (srv_sql (backend s))) (c_str t) = Some (cols, rows)" and "rows k = None"
    and "sql_values cols vs" and "texts_ok api t vs" and "sql_string k" and "0 < fuel"
    and "fs \<noteq> []" and "set fs \<subseteq> set (map (c_str \<circ> fst) vs)" and "key_column \<notin> set fs"
    and "messages_fit filename ds t k vs fs (map (\<lambda>c. (c, the (write_all vs Map.empty c))) (filter (\<lambda>c. c \<in> set fs) cols))"
    and "grants kn"
  shows "\<exists>u1 u2 u3 u4. ipc_CreateSchema (lib_schema api) True 0 filename ds s = (Inr (), u1) \<and>
    ipc_Init (lib_init api) kn u1 = (Inr (), u2) \<and>
    ipc_Insert (server_ops fuel api) t k vs u2 = (Inr kOK, u3) \<and>
    ipc_Read (server_ops fuel api) t k (Some fs) result u3 =
      (Inr (kOK, map (\<lambda>c. (c, the (write_all vs Map.empty c))) (filter (\<lambda>c. c \<in> set fs) cols)), u4) \<and>
    tables_of view (srv_sql (backend u4)) =
      (fold table_at ds (tables_of view (srv_sql (backend s))))(c_str t \<mapsto> (cols, rows(k \<mapsto> write_all vs Map.empty)))"
  by (rule sqlite_contract.remote_life [OF assms])

theorem remote_insert_then_read_witness:
  "\<exists>u1 u2 u3 u4. ipc_CreateSchema (lib_schema mini_sqlite) True 0 ''f'' [Table ''t'' [''a'', ''b'']] mini_server = (Inr (), u1) \<and>
     ipc_Init (lib_init mini_sqlite) kind_kernel u1 = (Inr (), u2) \<and>
     ipc_Insert (server_ops 1 mini_sqlite) ''t'' ''k'' [(''b'', ''2''), (''a'', ''1'')] u2 = (Inr kOK, u3) \<and>
     ipc_Read (server_ops 1 mini_sqlite) ''t'' ''k'' (Some [''b'', ''a'']) [] u3 =
       (Inr (kOK, [(''a'', ''1''), (''b'', ''2'')]), u4)"
proof -
  let ?vs = "[(''b'', ''2''), (''a'', ''1'')]" and ?T = "tables_of mini_view (srv_sql (backend mini_server))"
  let ?res = "map (\<lambda>c. (c, the (write_all ?vs Map.empty c))) (filter (\<lambda>c. c \<in> set [''b'', ''a'']) [''a'', ''b''])"
  have T: "?T = Map.empty" by (simp add: mini_server_def fresh_session_def mini_start_def)
  have schema: "fold table_at [Table ''t'' [''a'', ''b'']] ?T (c_str ''t'') = Some ([''a'', ''b''], Map.empty)"
    unfolding T by (simp add: table_at_def create_table_def c_str_def)
  have start: "clean ?T" "schema_ok mini_sqlite ?T [Table ''t'' [''a'', ''b'']]"
    unfolding T using mini_schema by (simp_all add: clean_def)
  have k: "sql_string ''k''" by (simp add: sql_string_def)
  have res: "?res = [(''a'', ''1''), (''b'', ''2'')]" by (simp add: c_str_def)
  have fit: "messages_fit ''f'' [Table ''t'' [''a'', ''b'']] ''t'' ''k'' ?vs [''b'', ''a''] ?res"
    unfolding res
    by (simp add: messages_fit_def req_ok_defs codec_ok_defs enc_defs enc_schema_req_def enc_values_req_def enc_read_req_def)
  from remote_insert_then_read [OF mini.sqlite_contract_axioms refl refl start schema refl mini_values mini_texts k
      zero_less_one _ _ _ fit grants_kind, of "[]"]
  show ?thesis unfolding res by (fastforce simp: key_column_def c_str_def)
qed

end
