(* ===== verification/ShmMany.thy ===== *)
theory ShmMany
  imports Shm
begin

text \<open>
  Many clients of the shared-memory backend. \<open>op_spawn\<close> of \<open>shm.cc\<close> gives every client thread a pair of pages and
  a server thread of its own; all server threads work on the one database of the server's process.
  Every pair takes the steps of \<open>shm_step\<close>, in any interleaving with the others, on the common database.
\<close>

section \<open>The pairs\<close>

text \<open>
  \<open>many_hist\<close> lists the operations in the order in which the servers did them, with the results;
  nothing depends on it. The member \<open>shm_db\<close> of a pair is only what the database was at its last step.
\<close>

type_synonym served_op = "nat \<times> request \<times> (fault + answer)"

record 'db shm_many =
  many_db :: 'db
  pairs :: "'db shm list"
  many_hist :: "served_op list"

text \<open>The operation that a pair does in its next step, if its server stands before one.\<close>

definition op_ahead :: "'db shm \<Rightarrow> request option" where
  "op_ahead p =
     (case (srv_at p, clt_at p) of
        (SrvWork opc, CltSpin r) \<Rightarrow> if opc = char_byte CHR ''c'' then None else Some r
      | _ \<Rightarrow> None)"

definition did :: "'db db_ops \<Rightarrow> nat \<Rightarrow> 'db shm \<Rightarrow> 'db shm \<Rightarrow> served_op list" where
  "did ops i p q =
     (case op_ahead p of
        Some r \<Rightarrow> if srv_at q = srv_at p then [] else [(i, r, fst (shm_serve ops r (shm_db p)))]
      | None \<Rightarrow> [])"

inductive many_step :: "'db db_ops \<Rightarrow> 'db shm_many \<Rightarrow> 'db shm_many \<Rightarrow> bool" for ops where
  pair_step: "i < length (pairs m) \<Longrightarrow> p = (pairs m ! i)\<lparr>shm_db := many_db m\<rparr> \<Longrightarrow> shm_step ops p q \<Longrightarrow>
    many_step ops m (m\<lparr>many_db := shm_db q, pairs := (pairs m)[i := q], many_hist := many_hist m @ did ops i p q\<rparr>)"

text \<open>The start: every pair as \<open>Init\<close> leaves it, with the pages \<open>pages\<close>.\<close>

definition many_init :: "(mem \<times> mem) list \<Rightarrow> 'db \<Rightarrow> 'db shm_many" where
  "many_init pages db =
     \<lparr>many_db = db, pairs = map (\<lambda>(din, dout). shm_init din dout db) pages, many_hist = []\<rparr>"

section \<open>What the operations amount to\<close>

text \<open>Doing the operations of a history one after the other: each has its result, and what they leave.\<close>

fun redo :: "'db db_ops \<Rightarrow> served_op list \<Rightarrow> 'db \<Rightarrow> 'db option" where
  "redo ops [] b = Some b"
| "redo ops ((i, r, x) # h) b =
     (case shm_serve ops r b of (x', b') \<Rightarrow> if x' = x then redo ops h b' else None)"

lemma redo_append: "redo ops (h @ h') b = Option.bind (redo ops h b) (redo ops h')"
  by (induction h arbitrary: b) (auto split: prod.splits)

text \<open>The operations of one client, and its calls that have returned.\<close>

definition ops_of :: "nat \<Rightarrow> served_op list \<Rightarrow> (request \<times> (fault + answer)) list" where
  "ops_of i h = map snd (filter (\<lambda>e. fst e = i) h)"

definition returned :: "'db shm \<Rightarrow> (request \<times> (fault + answer)) list" where
  "returned p = map (\<lambda>(r, a). (r, Inr a)) (shm_log p)"

text \<open>The request of a pair that its server has done and its client has not returned from.\<close>

definition pending :: "'db shm \<Rightarrow> request option" where
  "pending p =
     (case clt_at p of
        CltSpin r \<Rightarrow>
          if r \<noteq> ReqClose \<and> (srv_at p = SrvReset \<or> srv_at p = SrvNotify \<or> (\<exists>e. srv_at p = SrvFault e) \<or>
             srv_at p = SrvPoll \<and> shm_out p 0 = 1) then Some r else None
      | CltAwake r \<Rightarrow> if r = ReqClose then None else Some r
      | CltRecv r \<Rightarrow> if r = ReqClose then None else Some r
      | _ \<Rightarrow> None)"

section \<open>One pair among others\<close>

text \<open>Only the server's operation looks at the database.\<close>

lemma other_step:
  assumes "shm_step ops (p\<lparr>shm_db := g\<rparr>) q" and "\<And>opc. srv_at p = SrvWork opc \<Longrightarrow> opc = char_byte CHR ''c'' \<or> srv_at q = srv_at p"
  shows "shm_db q = g \<and> shm_step ops (p\<lparr>shm_db := x\<rparr>) (q\<lparr>shm_db := x\<rparr>)"
  using assms(1)
proof cases
  case (clt_call r)
  then show ?thesis using shm_step.clt_call [of "p\<lparr>shm_db := x\<rparr>" r ops] by (cases p) simp
next
  case (clt_serialize r)
  have "clt_send r (p\<lparr>shm_db := x\<rparr>) = (clt_send r (p\<lparr>shm_db := g\<rparr>))\<lparr>shm_db := x\<rparr>" "shm_db (clt_send r (p\<lparr>shm_db := g\<rparr>)) = g"
    by (simp_all add: clt_send_def on_shm_in_def onM_def split: prod.split sum.split)
  then show ?thesis using clt_serialize shm_step.clt_serialize [of "p\<lparr>shm_db := x\<rparr>" r ops] by (cases p) simp
next
  case (clt_announce r)
  then show ?thesis using shm_step.clt_announce [of "p\<lparr>shm_db := x\<rparr>" r ops] by (cases p) simp
next
  case (clt_wake r)
  then show ?thesis using shm_step.clt_wake [of "p\<lparr>shm_db := x\<rparr>" r ops] by (cases p) simp
next
  case (clt_reset r)
  then show ?thesis using shm_step.clt_reset [of "p\<lparr>shm_db := x\<rparr>" r ops] by (cases p) simp
next
  case (clt_return r)
  have "clt_receive r (p\<lparr>shm_db := x\<rparr>) = (clt_receive r (p\<lparr>shm_db := g\<rparr>))\<lparr>shm_db := x\<rparr>" "shm_db (clt_receive r (p\<lparr>shm_db := g\<rparr>)) = g"
    by (simp_all add: clt_receive_def on_shm_out_def onM_def split: prod.split sum.split)
  then show ?thesis using clt_return shm_step.clt_return [of "p\<lparr>shm_db := x\<rparr>" r ops] by (cases p) simp
next
  case srv_take
  then show ?thesis using shm_step.srv_take [of "p\<lparr>shm_db := x\<rparr>" ops] by (cases p) simp
next
  case (srv_serve opc)
  have "srv_at (srv_work ops opc (p\<lparr>shm_db := g\<rparr>)) \<noteq> SrvWork opc"
    by (simp add: srv_work_def split: prod.split sum.split)
  with srv_serve assms(2) [of opc] show ?thesis by simp
next
  case srv_reset
  then show ?thesis using shm_step.srv_reset [of "p\<lparr>shm_db := x\<rparr>" ops] by (cases p) simp
next
  case srv_notify
  then show ?thesis using shm_step.srv_notify [of "p\<lparr>shm_db := x\<rparr>" ops] by (cases p) simp
next
  case (srv_ack_close opc)
  then show ?thesis using shm_step.srv_ack_close [of "p\<lparr>shm_db := x\<rparr>" opc ops] by (cases p) simp
next
  case srv_detached
  then show ?thesis using shm_step.srv_detached [of "p\<lparr>shm_db := x\<rparr>" ops] by (cases p) simp
next
  case srv_detach_failed
  then show ?thesis using shm_step.srv_detach_failed [of "p\<lparr>shm_db := x\<rparr>" ops] by (cases p) simp
qed

text \<open>What a pair has to do with its part \<open>h\<close> of the history.\<close>

definition pair_inv :: "'db db_ops \<Rightarrow> 'db shm \<Rightarrow> (request \<times> (fault + answer)) list \<Rightarrow> bool" where
  "pair_inv ops p h \<longleftrightarrow>
     (\<exists>d x. shm_phase ops d (p\<lparr>shm_db := x\<rparr>) \<and>
       h = returned p @ (case pending p of None \<Rightarrow> [] | Some r \<Rightarrow> [(r, fst (shm_serve ops r d))]))"

lemma pair_marks [simp]:
  "returned (p\<lparr>shm_db := x\<rparr>) = returned p" "op_ahead (p\<lparr>shm_db := x\<rparr>) = op_ahead p"
  by (simp_all add: returned_def op_ahead_def)

lemma pending_mark [simp]: "pending (p\<lparr>shm_db := x\<rparr>) = pending p"
  by (simp add: pending_def split: client_at.split)

lemma pending_kept:
  assumes "shm_step ops s t" and "shm_phase ops d s" and "\<And>opc. srv_at s = SrvWork opc \<Longrightarrow> opc = char_byte CHR ''c'' \<or> srv_at t = srv_at s"
    and "\<not> ((\<exists>r. clt_at s = CltRecv r \<and> r \<noteq> ReqClose) \<and> clt_at t \<noteq> clt_at s)"
  shows "pending t = pending s"
  using assms(1)
proof cases
  case (clt_serialize r)
  then show ?thesis
    by (auto simp: pending_def clt_send_def on_shm_in_def onM_def split: prod.splits sum.splits)
next
  case (clt_wake r)
  with assms(2) show ?thesis by (auto elim!: phase_cases simp: pending_def)
next
  case (clt_return r)
  then have "r = ReqClose" using assms(4)
    by (auto simp: clt_receive_def on_shm_out_def onM_def split: if_splits prod.splits sum.splits)
  with clt_return show ?thesis by (simp add: pending_def clt_receive_def)
next
  case (srv_serve opc)
  have "srv_at (srv_work ops opc s) \<noteq> SrvWork opc" by (simp add: srv_work_def split: prod.split sum.split)
  with srv_serve assms(3) [of opc] show ?thesis by simp
qed (use assms(2) in \<open>auto elim!: phase_cases simp: pending_def quiet_def\<close>)

lemma pair_other:
  assumes "pair_inv ops p h" and "backend_ok ops" and "shm_step ops (p\<lparr>shm_db := g\<rparr>) q"
    and "\<And>opc. srv_at p = SrvWork opc \<Longrightarrow> opc = char_byte CHR ''c'' \<or> srv_at q = srv_at p"
  shows "pair_inv ops q h \<and> shm_db q = g"
proof -
  obtain d x where ph: "shm_phase ops d (p\<lparr>shm_db := x\<rparr>)"
    and h: "h = returned p @ (case pending p of None \<Rightarrow> [] | Some r \<Rightarrow> [(r, fst (shm_serve ops r d))])"
    using assms(1) unfolding pair_inv_def by blast
  let ?s = "p\<lparr>shm_db := x\<rparr>" and ?t = "q\<lparr>shm_db := x\<rparr>"
  from other_step [OF assms(3,4), of x] have db: "shm_db q = g" and st: "shm_step ops ?s ?t" by auto
  note loc = phase_step_local [OF st ph assms(2)]
  show ?thesis
  proof (cases "(\<exists>r. clt_at ?s = CltRecv r \<and> r \<noteq> ReqClose) \<and> clt_at ?t \<noteq> clt_at ?s")
    case True
    from loc [unfolded if_P [OF True]] obtain r a where r: "clt_at p = CltRecv r" "r \<noteq> ReqClose" "shm_serve ops r d = (Inr a, x)"
      and t: "?t = ?s\<lparr>clt_at := CltIdle, shm_log := shm_log ?s @ [(r, a)]\<rparr>" "shm_phase ops x ?t" by auto
    have "shm_log q = shm_log p @ [(r, a)]" "clt_at q = CltIdle"
      using arg_cong [OF t(1), of shm_log] arg_cong [OF t(1), of clt_at] by simp_all
    then have "returned q = returned p @ [(r, Inr a)]" "pending q = None" by (simp_all add: returned_def pending_def)
    moreover have "pending p = Some r" using r by (simp add: pending_def)
    ultimately show ?thesis using t(2) db h r(3) unfolding pair_inv_def by (intro conjI exI [of _ x]) auto
  next
    case False
    from loc [unfolded if_not_P [OF False]] have t: "shm_log q = shm_log p" "shm_phase ops d ?t" by auto
    have "pending ?t = pending ?s" by (rule pending_kept [OF st ph _ False]) (use assms(4) in simp)
    then have "pending q = pending p" by simp
    moreover have "returned q = returned p" using t(1) by (simp add: returned_def)
    ultimately show ?thesis using t(2) db h unfolding pair_inv_def by (intro conjI exI [of _ d] exI [of _ x]) simp_all
  qed
qed

text \<open>The server's operation: it is on the common database, and its result is pending from then on.\<close>

lemma pair_serve:
  assumes "pair_inv ops p h" and "backend_ok ops" and "shm_step ops (p\<lparr>shm_db := g\<rparr>) q"
    and "srv_at p = SrvWork opc" and "opc \<noteq> char_byte CHR ''c''" and "srv_at q \<noteq> srv_at p"
  shows "\<exists>r. op_ahead p = Some r \<and> pair_inv ops q (h @ [(r, fst (shm_serve ops r g))]) \<and> shm_db q = snd (shm_serve ops r g)"
proof -
  let ?p = "p\<lparr>shm_db := g\<rparr>"
  obtain d x where ph: "shm_phase ops d (p\<lparr>shm_db := x\<rparr>)"
    and h: "h = returned p @ (case pending p of None \<Rightarrow> [] | Some r \<Rightarrow> [(r, fst (shm_serve ops r d))])"
    using assms(1) unfolding pair_inv_def by blast
  from ph assms(4,5) obtain r where r: "clt_at p = CltSpin r" "opc = opcode r" "placed r ?p" "shm_out p 0 = 0" "r \<noteq> ReqClose"
    by (auto elim!: phase_cases simp: placed_def)
  have q: "q = srv_work ops (opcode r) ?p"
    using assms(3-6) r by cases (auto simp: clt_receive_def)
  have "dispatched ops r ?p (shm_dispatch ops (opcode r) ?p)"
    using assms(2) r by (intro shm_dispatch_request) (auto simp: placed_def)
  then obtain u dout where "shm_dispatch ops (opcode r) ?p = (u, ?p\<lparr>shm_db := snd (shm_serve ops r (shm_db ?p)), shm_out := dout\<rparr>)"
    unfolding dispatched_def by (metis prod.collapse)
  then have q': "shm_db q = snd (shm_serve ops r g)" "clt_at q = CltSpin r" "shm_log q = shm_log p"
    "\<exists>e. srv_at q = SrvFault e \<or> srv_at q = SrvReset"
    using r(1) by (cases u; simp add: q srv_work_def)+
  have "shm_phase ops (shm_db ?p) q \<and> shm_log q = shm_log ?p"
    unfolding q by (rule srv_work_phase [OF assms(2) r(3)]) (use r in simp_all)
  then have "shm_phase ops g (q\<lparr>shm_db := shm_db q\<rparr>)" by simp
  moreover have "pending q = Some r" "pending p = None" using q'(2,4) r assms(4) by (auto simp: pending_def)
  moreover have "returned q = returned p" using q'(3) by (simp add: returned_def)
  ultimately have "pair_inv ops q (h @ [(r, fst (shm_serve ops r g))])" using h unfolding pair_inv_def by fastforce
  with q'(1) r assms(4,5) show ?thesis by (simp add: op_ahead_def)
qed

section \<open>All pairs\<close>

definition many_inv :: "'db db_ops \<Rightarrow> 'db \<Rightarrow> 'db shm_many \<Rightarrow> bool" where
  "many_inv ops b m \<longleftrightarrow> redo ops (many_hist m) b = Some (many_db m) \<and>
     (\<forall>i < length (pairs m). pair_inv ops (pairs m ! i) (ops_of i (many_hist m)))"

lemma ops_of_append [simp]:
  "ops_of i (h @ [(i, r, x)]) = ops_of i h @ [(r, x)]" "i \<noteq> j \<Longrightarrow> ops_of i (h @ [(j, r, x)]) = ops_of i h"
  by (simp_all add: ops_of_def)

lemma many_inv_step:
  assumes "many_step ops m m'" and "many_inv ops b m" and "backend_ok ops"
  shows "many_inv ops b m'"
  using assms(1)
proof cases
  case (pair_step i p q)
  have inv: "pair_inv ops (pairs m ! j) (ops_of j (many_hist m))" if "j < length (pairs m)" for j
    using assms(2) that by (simp add: many_inv_def)
  have db: "redo ops (many_hist m) b = Some (many_db m)" using assms(2) by (simp add: many_inv_def)
  note step = pair_step(4) [unfolded pair_step(3)]
  show ?thesis
  proof (cases "\<exists>opc. srv_at (pairs m ! i) = SrvWork opc \<and> opc \<noteq> char_byte CHR ''c'' \<and> srv_at q \<noteq> srv_at (pairs m ! i)")
    case True
    then obtain opc where opc: "srv_at (pairs m ! i) = SrvWork opc" "opc \<noteq> char_byte CHR ''c''" "srv_at q \<noteq> srv_at (pairs m ! i)" by blast
    from pair_serve [OF inv [OF pair_step(2)] assms(3) step opc] obtain r where
      r: "op_ahead (pairs m ! i) = Some r" "pair_inv ops q (ops_of i (many_hist m) @ [(r, fst (shm_serve ops r (many_db m)))])"
      "shm_db q = snd (shm_serve ops r (many_db m))" by blast
    have hist: "did ops i p q = [(i, r, fst (shm_serve ops r (many_db m)))]"
      using r(1) opc(3) by (simp add: did_def pair_step(3))
    have "redo ops (many_hist m') b = Some (many_db m')"
      using db r(3) by (simp add: pair_step(1) hist redo_append split: prod.split)
    moreover have "pair_inv ops (pairs m' ! j) (ops_of j (many_hist m'))" if "j < length (pairs m')" for j
      using that inv r(2) hist by (cases "i = j") (simp_all add: pair_step(1))
    ultimately show ?thesis by (simp add: many_inv_def)
  next
    case False
    then have "did ops i p q = []"
      by (auto simp: did_def op_ahead_def pair_step(3) split: option.split server_at.splits client_at.splits if_splits)
    moreover have "pair_inv ops q (ops_of i (many_hist m)) \<and> shm_db q = many_db m"
      by (rule pair_other [OF inv [OF pair_step(2)] assms(3) step]) (use False in auto)
    ultimately show ?thesis using db inv pair_step(2) by (auto simp: many_inv_def pair_step(1) nth_list_update)
  qed
qed

lemma many_inv_init:
  assumes "\<forall>(din, dout) \<in> set pages. dout 0 = 0"
  shows "many_inv ops b (many_init pages b)"
proof -
  have "pair_inv ops (shm_init din dout b) []" if "dout 0 = 0" for din dout
    unfolding pair_inv_def using that
    by (intro exI [of _ b]) (auto simp: shm_init_def returned_def pending_def quiet_def intro!: ph_idle)
  with assms show ?thesis by (fastforce simp: many_inv_def many_init_def ops_of_def split_beta)
qed

definition many_reachable :: "'db db_ops \<Rightarrow> (mem \<times> mem) list \<Rightarrow> 'db \<Rightarrow> 'db shm_many \<Rightarrow> bool" where
  "many_reachable ops pages b m \<longleftrightarrow> (\<forall>(din, dout) \<in> set pages. dout 0 = 0) \<and> (many_step ops)\<^sup>*\<^sup>* (many_init pages b) m"

lemma many_reachable_inv:
  assumes "backend_ok ops" and "many_reachable ops pages b m"
  shows "many_inv ops b m"
proof -
  from assms(2) have start: "many_inv ops b (many_init pages b)" and run: "(many_step ops)\<^sup>*\<^sup>* (many_init pages b) m"
    using many_inv_init by (auto simp: many_reachable_def)
  from run show ?thesis by (induction rule: rtranclp_induct) (auto intro: start many_inv_step assms(1))
qed

lemma many_length: "(many_step ops)\<^sup>*\<^sup>* m m' \<Longrightarrow> length (pairs m') = length (pairs m)"
  by (induction rule: rtranclp_induct) (auto elim: many_step.cases)

text \<open>A run of one pair while the others rest, and a call on fresh pages, for an example.\<close>

lemma pair_runs:
  assumes "(shm_step ops)\<^sup>*\<^sup>* s t" and "i < length (pairs m)" and "(pairs m ! i)\<lparr>shm_db := many_db m\<rparr> = s"
  shows "\<exists>m'. (many_step ops)\<^sup>*\<^sup>* m m' \<and> pairs m' = (pairs m)[i := (pairs m' ! i)] \<and> (pairs m' ! i)\<lparr>shm_db := many_db m'\<rparr> = t"
  using assms
proof (induction rule: rtranclp_induct)
  case base
  then show ?case by (intro exI [of _ m]) auto
next
  case (step u t)
  then obtain m1 where m1: "(many_step ops)\<^sup>*\<^sup>* m m1" "pairs m1 = (pairs m)[i := (pairs m1 ! i)]" "(pairs m1 ! i)\<lparr>shm_db := many_db m1\<rparr> = u"
    by blast
  have len: "i < length (pairs m1)" using m1(2) step.prems(1) by (metis length_list_update)
  note go = pair_step [OF len m1(3) [symmetric] step.hyps(2)]
  let ?m = "m1\<lparr>many_db := shm_db t, pairs := (pairs m1)[i := t], many_hist := many_hist m1 @ did ops i u t\<rparr>"
  have "(pairs m1)[i := t] = (pairs m)[i := t]" using arg_cong [OF m1(2), of "\<lambda>ps. ps[i := t]"] by simp
  then show ?case using go m1(1) len by (intro exI [of _ ?m]) (auto simp: step.prems(1) intro: rtranclp.rtrancl_into_rtrancl)
qed

lemma delete_call:
  "\<exists>t. (shm_step basic_db_ops)\<^sup>*\<^sup>* (fresh_shm b) t \<and> shm_log t = [(ReqDelete ''t'' ''k'', AnsStatus kOK)]"
proof -
  let ?r = "ReqDelete ''t'' ''k''"
  have r: "request_ok ?r" "length (enc_request ?r) \<le> 1048575" "?r \<noteq> ReqClose"
    by (simp_all add: req_ok_defs codec_ok_defs enc_key_req_def enc_defs)
  obtain d' where "shm_serve basic_db_ops ?r b = (Inr (AnsStatus kOK), d')"
    by (auto simp: serve_command_def basic_db_ops_def basic_Delete_def thenM_def bindM_def out_def op_run kOK_def)
  with call_starts [OF example_backends(1) fresh_reachable fresh_simps(1) r(1), of b]
    in_call_returns [of basic_db_ops b "(fresh_shm b)\<lparr>clt_at := CltSend ?r\<rparr>" ?r b "AnsStatus kOK" d'] example_backends(1) r
  show ?thesis by (metis append_Nil converse_rtranclp_into_rtranclp fresh_simps(2,3) shm.select_convs(6) shm.surjective shm.update_convs(4))
qed

definition two_pages :: "(mem \<times> mem) list" where
  "two_pages = [(\<lambda>_. 0, \<lambda>_. 0), (\<lambda>_. 0, \<lambda>_. 0)]"

lemma two_calls:
  "\<exists>m. many_reachable basic_db_ops two_pages ''log'' m \<and>
     shm_log (pairs m ! 0) = [(ReqDelete ''t'' ''k'', AnsStatus kOK)] \<and> shm_log (pairs m ! 1) = [(ReqDelete ''t'' ''k'', AnsStatus kOK)]"
proof -
  let ?m = "many_init two_pages ''log''" and ?log = "[(ReqDelete ''t'' ''k'', AnsStatus kOK)]"
  have start: "pairs ?m = [fresh_shm ''log'', fresh_shm ''log'']" "many_db ?m = ''log''"
    by (simp_all add: many_init_def two_pages_def fresh_shm_def)
  have fresh: "(fresh_shm ''log'')\<lparr>shm_db := b\<rparr> = fresh_shm b" for b by (simp add: fresh_shm_def shm_init_def)
  obtain t where t: "(shm_step basic_db_ops)\<^sup>*\<^sup>* (fresh_shm ''log'') t" "shm_log t = ?log" using delete_call by blast
  from pair_runs [OF t(1), of 0 ?m] start fresh obtain m1 where m1: "(many_step basic_db_ops)\<^sup>*\<^sup>* ?m m1"
    "pairs m1 = [pairs m1 ! 0, fresh_shm ''log'']" "(pairs m1 ! 0)\<lparr>shm_db := many_db m1\<rparr> = t" by auto
  have len: "1 < length (pairs m1)" and at: "pairs m1 ! 1 = fresh_shm ''log''"
    using arg_cong [OF m1(2), of length] arg_cong [OF m1(2), of "\<lambda>ps. ps ! 1"] by simp_all
  obtain u where u: "(shm_step basic_db_ops)\<^sup>*\<^sup>* (fresh_shm (many_db m1)) u" "shm_log u = ?log" using delete_call by blast
  from pair_runs [OF u(1), of 1 m1] len at fresh obtain m2 where m2: "(many_step basic_db_ops)\<^sup>*\<^sup>* m1 m2"
    "pairs m2 = (pairs m1)[1 := pairs m2 ! 1]" "(pairs m2 ! 1)\<lparr>shm_db := many_db m2\<rparr> = u" by auto
  have "pairs m2 ! 0 = pairs m1 ! 0" using arg_cong [OF m2(2), of "\<lambda>ps. ps ! 0"] by simp
  moreover have "shm_log (pairs m1 ! 0) = ?log" "shm_log (pairs m2 ! 1) = ?log"
    using t(2) u(2) arg_cong [OF m1(3), of shm_log] arg_cong [OF m2(3), of shm_log] by simp_all
  moreover have "many_reachable basic_db_ops two_pages ''log'' m2"
    using m1(1) m2(1) by (auto simp: many_reachable_def two_pages_def)
  ultimately show ?thesis by metis
qed



end
