(* ===== verification/HeapDB.thy ===== *)
theory HeapDB
  imports HashtableDB
begin

text \<open>
  The memory of the \<open>lock_stl\<close> backend. \<open>HashtableDB\<close> models its tables as values; here the copied keys, the
  values and the field tables are blocks of a heap with addresses, which \<open>hashtable_db.cc\<close>,
  \<open>lock_stl_db.h\<close>, \<open>stl_hashtable.h\<close> and \<open>lib/string.h\<close> allocate, reach through pointers, change in place
  and release. An access to a block that is not allocated, or a second release, is the fault
  \<open>BadMemory\<close>. Every operation is shown to be free of it and to compute what the value model computes, and
  the blocks that nothing refers to any more are counted.
\<close>

type_synonym addr = nat

text \<open>
  An element of a table is the hashed key, the block of its characters and the mapped value. Comparing
  keys reads the block of a key; the invariant says that it is allocated and holds what the hashed key shows.
\<close>

type_synonym 'v ptable = "(addr \<times> 'v) table"

record heap =
  h_next :: addr
  h_strs :: "addr \<rightharpoonup> string"
  h_tabs :: "addr \<rightharpoonup> addr ptable"
  h_keys :: "addr ptable"

type_synonym 'a heap_op = "(heap, 'a) op"

section \<open>Blocks\<close>

definition new_string :: "string \<Rightarrow> addr heap_op" where
  "new_string str h =
     (Inr (h_next h), h\<lparr>h_next := Suc (h_next h), h_strs := (h_strs h)(h_next h \<mapsto> str)\<rparr>)"

definition read_string :: "addr \<Rightarrow> string heap_op" where
  "read_string a h = (case h_strs h a of None \<Rightarrow> (Inl BadMemory, h) | Some str \<Rightarrow> (Inr str, h))"

definition delete_string :: "addr \<Rightarrow> unit heap_op" where
  "delete_string a h =
     (if h_strs h a = None then (Inl BadMemory, h) else (Inr (), h\<lparr>h_strs := (h_strs h)(a := None)\<rparr>))"

definition NewFieldHashtable :: "addr heap_op" where
  "NewFieldHashtable h =
     (Inr (h_next h), h\<lparr>h_next := Suc (h_next h), h_tabs := (h_tabs h)(h_next h \<mapsto> [])\<rparr>)"

definition read_table :: "addr \<Rightarrow> addr ptable heap_op" where
  "read_table a h = (case h_tabs h a of None \<Rightarrow> (Inl BadMemory, h) | Some t \<Rightarrow> (Inr t, h))"

definition write_table :: "addr \<Rightarrow> addr ptable \<Rightarrow> unit heap_op" where
  "write_table a t h =
     (if h_tabs h a = None then (Inl BadMemory, h) else (Inr (), h\<lparr>h_tabs := (h_tabs h)(a \<mapsto> t)\<rparr>))"

definition delete_table :: "addr \<Rightarrow> unit heap_op" where
  "delete_table a h =
     (if h_tabs h a = None then (Inl BadMemory, h) else (Inr (), h\<lparr>h_tabs := (h_tabs h)(a := None)\<rparr>))"

section \<open>\<open>StlHashtable\<close> with its key blocks\<close>

definition pt_Get :: "string \<Rightarrow> 'v ptable \<Rightarrow> 'v option" where
  "pt_Get key t = map_option snd (ht_Get key t)"

text \<open>\<open>Insert\<close> copies the key before it knows whether the element will be taken.\<close>

definition pt_Insert :: "layout \<Rightarrow> string \<Rightarrow> 'v \<Rightarrow> 'v ptable \<Rightarrow> (bool \<times> 'v ptable) heap_op" where
  "pt_Insert lay key val t =
     bindM (new_string key) (\<lambda>skey. retM (ht_Insert lay (Some key) (skey, val) t))"

definition pt_Update :: "string \<Rightarrow> 'v \<Rightarrow> 'v ptable \<Rightarrow> 'v option \<times> 'v ptable" where
  "pt_Update key val t =
     (case ht_Get key t of
        None \<Rightarrow> (None, t)
      | Some (skey, old) \<Rightarrow> (Some old, snd (ht_Update key (skey, val) t)))"

text \<open>\<open>Remove\<close> releases the copied key.\<close>

definition pt_Remove :: "string \<Rightarrow> 'v ptable \<Rightarrow> ('v option \<times> 'v ptable) heap_op" where
  "pt_Remove key t =
     (case ht_Remove key t of
        (None, t') \<Rightarrow> retM (None, t')
      | (Some (skey, old), t') \<Rightarrow> thenM (delete_string skey) (retM (Some old, t')))"

text \<open>An entry is the pointer to the key and the mapped value.\<close>

definition pt_Entries :: "string option \<Rightarrow> u64 \<Rightarrow> 'v ptable \<Rightarrow> (addr \<times> 'v) list" where
  "pt_Entries key n t = map snd (ht_Entries key n t)"

section \<open>\<open>HashtableDB\<close> and \<open>LockStlDB\<close> on the heap\<close>

primrec collectM :: "('a \<Rightarrow> ('s, 'b) op) \<Rightarrow> 'a list \<Rightarrow> ('s, 'b list) op" where
  "collectM f [] = retM []"
| "collectM f (x # xs) = bindM (f x) (\<lambda>y. bindM (collectM f xs) (\<lambda>ys. retM (y # ys)))"

definition p_all_fields :: "addr ptable \<Rightarrow> fieldvals heap_op" where
  "p_all_fields ft =
     collectM (\<lambda>(skey, a). bindM (read_string skey) (\<lambda>k. bindM (read_string a) (\<lambda>v. retM (k, v))))
       (pt_Entries None size_t_max ft)"

primrec p_some_fields :: "string list \<Rightarrow> addr ptable \<Rightarrow> fieldvals heap_op" where
  "p_some_fields [] ft = retM []"
| "p_some_fields (f # fs) ft =
     (case pt_Get (c_str f) ft of
        None \<Rightarrow> p_some_fields fs ft
      | Some a \<Rightarrow> bindM (read_string a) (\<lambda>v. bindM (p_some_fields fs ft) (\<lambda>r. retM ((f, v) # r))))"

definition p_fields :: "string list option \<Rightarrow> addr ptable \<Rightarrow> fieldvals heap_op" where
  "p_fields flds ft = (case flds of None \<Rightarrow> p_all_fields ft | Some fs \<Rightarrow> p_some_fields fs ft)"

definition p_Read :: "string \<Rightarrow> string \<Rightarrow> string list option \<Rightarrow> fieldvals \<Rightarrow> (int \<times> fieldvals) heap_op" where
  "p_Read table key flds result =
     bindM (getM h_keys) (\<lambda>kt.
     case pt_Get (c_str (key_index table key)) kt of
       None \<Rightarrow> retM (kErrorNoData, result)
     | Some a \<Rightarrow> bindM (read_table a) (\<lambda>ft. bindM (p_fields flds ft) (\<lambda>r. retM (kOK, r))))"

definition p_Scan :: "string \<Rightarrow> string \<Rightarrow> int \<Rightarrow> string list option \<Rightarrow> (int \<times> fieldvals list) heap_op" where
  "p_Scan table key len flds =
     bindM (getM h_keys) (\<lambda>kt.
     bindM (collectM (\<lambda>(_, a). bindM (read_table a) (p_fields flds))
       (pt_Entries (Some (c_str (key_index table key))) (word_of_int len) kt))
     (\<lambda>rows. retM (kOK, rows)))"

text \<open>Operations on a field table that is reached through a pointer.\<close>

definition field_Insert :: "layout \<Rightarrow> addr \<Rightarrow> string \<Rightarrow> addr \<Rightarrow> bool heap_op" where
  "field_Insert lay a key val =
     bindM (read_table a) (\<lambda>ft. bindM (pt_Insert lay key val ft) (\<lambda>(ok, ft').
       thenM (write_table a ft') (retM ok)))"

definition field_Update :: "addr \<Rightarrow> string \<Rightarrow> addr \<Rightarrow> addr option heap_op" where
  "field_Update a key val =
     bindM (read_table a) (\<lambda>ft. case pt_Update key val ft of (old, ft') \<Rightarrow>
       thenM (write_table a ft') (retM old))"

primrec p_fill_fields :: "layout \<Rightarrow> addr \<Rightarrow> fieldvals \<Rightarrow> unit heap_op" where
  "p_fill_fields lay a [] = retM ()"
| "p_fill_fields lay a (p # ps) =
     bindM (new_string (CopyString (snd p))) (\<lambda>val.
     bindM (field_Insert lay a (c_str (fst p)) val) (\<lambda>_. p_fill_fields lay a ps))"

primrec p_update_fields :: "layout \<Rightarrow> addr \<Rightarrow> fieldvals \<Rightarrow> unit heap_op" where
  "p_update_fields lay a [] = retM ()"
| "p_update_fields lay a (p # ps) =
     bindM (new_string (CopyString (snd p))) (\<lambda>val.
     bindM (field_Update a (c_str (fst p)) val) (\<lambda>old.
     thenM (case old of
         None \<Rightarrow> bindM (field_Insert lay a (c_str (fst p)) val) (\<lambda>_. retM ())
       | Some o' \<Rightarrow> delete_string o')
     (p_update_fields lay a ps)))"

primrec p_insert_fields :: "layout \<Rightarrow> addr \<Rightarrow> fieldvals \<Rightarrow> int heap_op" where
  "p_insert_fields lay a [] = retM kOK"
| "p_insert_fields lay a (p # ps) =
     bindM (new_string (CopyString (snd p))) (\<lambda>val.
     bindM (field_Insert lay a (c_str (fst p)) val) (\<lambda>ok.
     if \<not> ok then thenM (delete_string val) (retM kErrorConflict) else p_insert_fields lay a ps))"

text \<open>A new record: its field table, entered into the key table.\<close>

definition new_record :: "layout \<Rightarrow> string \<Rightarrow> addr heap_op" where
  "new_record lay key =
     bindM NewFieldHashtable (\<lambda>a.
     bindM (getM h_keys) (\<lambda>kt.
     bindM (pt_Insert lay key a kt) (\<lambda>(ok, kt').
     thenM (modifyM (h_keys_update (\<lambda>_. kt'))) (retM a))))"

definition p_Update :: "layout \<Rightarrow> string \<Rightarrow> string \<Rightarrow> fieldvals \<Rightarrow> int heap_op" where
  "p_Update lay table key vs =
     bindM (getM h_keys) (\<lambda>kt.
     case pt_Get (c_str (key_index table key)) kt of
       None \<Rightarrow> bindM (new_record lay (c_str (key_index table key))) (\<lambda>a.
         thenM (p_fill_fields lay a vs) (retM kOK))
     | Some a \<Rightarrow> thenM (p_update_fields lay a vs) (retM kOK))"

definition p_Insert :: "layout \<Rightarrow> string \<Rightarrow> string \<Rightarrow> fieldvals \<Rightarrow> int heap_op" where
  "p_Insert lay table key vs =
     bindM (getM h_keys) (\<lambda>kt.
     bindM (case pt_Get (c_str (key_index table key)) kt of
         None \<Rightarrow> new_record lay (c_str (key_index table key))
       | Some a \<Rightarrow> retM a)
     (\<lambda>a. p_insert_fields lay a vs))"

primrec delete_strings :: "addr list \<Rightarrow> unit heap_op" where
  "delete_strings [] = retM ()"
| "delete_strings (a # as) = thenM (delete_string a) (delete_strings as)"

text \<open>\<open>DeleteFieldHashtable\<close>: the destructor of the table does not know of the blocks its keys point to.\<close>

definition DeleteFieldHashtable :: "addr \<Rightarrow> unit heap_op" where
  "DeleteFieldHashtable a =
     bindM (read_table a) (\<lambda>ft.
     thenM (delete_strings (map snd (pt_Entries None size_t_max ft))) (delete_table a))"

definition p_Delete :: "string \<Rightarrow> string \<Rightarrow> int heap_op" where
  "p_Delete table key =
     bindM (getM h_keys) (\<lambda>kt.
     bindM (pt_Remove (c_str (key_index table key)) kt) (\<lambda>(old, kt').
     thenM (modifyM (h_keys_update (\<lambda>_. kt')))
       (case old of
          None \<Rightarrow> retM kErrorNoData
        | Some a \<Rightarrow> thenM (DeleteFieldHashtable a) (retM kOK))))"

primrec delete_tables :: "addr list \<Rightarrow> unit heap_op" where
  "delete_tables [] = retM ()"
| "delete_tables (a # as) = thenM (DeleteFieldHashtable a) (delete_tables as)"

text \<open>The destructor of \<open>LockStlDB\<close>; after it the key table is gone.\<close>

definition p_destroy :: "unit heap_op" where
  "p_destroy =
     bindM (getM h_keys) (\<lambda>kt.
     thenM (delete_tables (map snd (pt_Entries None size_t_max kt)))
       (modifyM (h_keys_update (\<lambda>_. []))))"

section \<open>Tables whose values are mapped\<close>

definition map_vals :: "('v \<Rightarrow> 'w) \<Rightarrow> 'v table \<Rightarrow> 'w table" where
  "map_vals f t = map (\<lambda>e. (fst e, f (snd e))) t"

lemma map_vals_simps [simp]:
  "map_vals f [] = []" "map_vals f (e # t) = (fst e, f (snd e)) # map_vals f t"
  "map_vals f (s @ t) = map_vals f s @ map_vals f t" "ht_keys (map_vals f t) = ht_keys t"
  "length (map_vals f t) = length t"
  by (simp_all add: map_vals_def ht_keys_def)

lemma ht_inv_vals [simp]: "ht_inv (map_vals f t) = ht_inv t"
  by (simp add: ht_inv_def list_all_iff) (simp add: map_vals_def)

lemma sort_key_map: "sort_key g (map f xs) = map f (sort_key (\<lambda>x. g (f x)) xs)"
proof -
  have "insort_key g (f x) (map f ys) = map f (insort_key (\<lambda>x. g (f x)) x ys)" for x ys
    by (induction ys) simp_all
  then show ?thesis by (induction xs) simp_all
qed

lemma ht_place_vals: "ht_place lay (k, f v) (map_vals f t) = map_vals f (ht_place lay (k, v) t)"
  using sort_key_map [of "\<lambda>x. lay (str_value k # ht_keys t) (str_value (fst x))" "\<lambda>e. (fst e, f (snd e))" "(k, v) # t"]
  by (simp add: ht_place_def flip: map_vals_def)

lemma ht_find_vals:
  "ht_find w (map_vals f t) = map_vals f (ht_find w t)" "ht_before w (map_vals f t) = map_vals f (ht_before w t)"
  by (induction t) (simp_all add: ht_find_def ht_before_def)

lemma ht_ops_vals:
  "ht_Get k (map_vals f t) = map_option f (ht_Get k t)"
  "ht_Insert lay (Some k) (f v) (map_vals f t) = apsnd (map_vals f) (ht_Insert lay (Some k) v t)"
  "ht_Update k (f v) (map_vals f t) = map_prod (map_option f) (map_vals f) (ht_Update k v t)"
  "ht_Remove k (map_vals f t) = map_prod (map_option f) (map_vals f) (ht_Remove k t)"
  "ht_Entries key n (map_vals f t) = map (apsnd f) (ht_Entries key n t)"
  by (auto simp: ht_Get_def ht_Insert_def ht_Update_def ht_Remove_def ht_find_vals ht_place_vals Let_def
      split: list.split)
    (cases key; simp add: ht_Entries_def ht_find_vals; simp add: map_vals_def take_map)

section \<open>Which blocks belong to the database\<close>

text \<open>The blocks of a field table: for each element its key and its value.\<close>

definition field_blocks :: "addr ptable \<Rightarrow> addr list" where
  "field_blocks ft = concat (map (\<lambda>e. [fst (snd e), snd (snd e)]) ft)"

definition key_live :: "heap \<Rightarrow> vmp_string \<times> addr \<times> 'v \<Rightarrow> bool" where
  "key_live h e \<longleftrightarrow> h_strs h (fst (snd e)) = Some (str_value (fst e))"

definition field_ok :: "heap \<Rightarrow> addr ptable \<Rightarrow> bool" where
  "field_ok h ft \<longleftrightarrow> ht_inv ft \<and> distinct (field_blocks ft) \<and>
     (\<forall>e \<in> set ft. key_live h e \<and> h_strs h (snd (snd e)) \<noteq> None)"

definition bounded :: "heap \<Rightarrow> bool" where
  "bounded h \<longleftrightarrow> (\<forall>a \<ge> h_next h. h_strs h a = None \<and> h_tabs h a = None)"

definition abs_field :: "heap \<Rightarrow> addr ptable \<Rightarrow> field_table" where
  "abs_field h ft = map_vals (\<lambda>p. the (h_strs h (snd p))) ft"

definition live :: "heap \<Rightarrow> int" where
  "live h = int (card (dom (h_strs h)))"

lemma field_blocks_simps [simp]:
  "field_blocks [] = []" "field_blocks (e # t) = fst (snd e) # snd (snd e) # field_blocks t"
  "field_blocks (s @ t) = field_blocks s @ field_blocks t"
  by (simp_all add: field_blocks_def)

lemma field_blocks_set: "a \<in> set (field_blocks ft) \<longleftrightarrow> (\<exists>e \<in> set ft. a = fst (snd e) \<or> a = snd (snd e))"
  by (induction ft) auto

lemma field_blocks_length: "length (field_blocks ft) = 2 * length ft"
  by (induction ft) simp_all

lemma mset_blocks: "mset (concat (map f xs)) = (\<Sum>x \<in># mset xs. mset (f x))"
  by (induction xs) simp_all

lemma field_blocks_mset: "mset s = mset t \<Longrightarrow> mset (field_blocks s) = mset (field_blocks t)"
  by (simp add: field_blocks_def mset_blocks)

lemma field_ok_live: "field_ok h ft \<Longrightarrow> a \<in> set (field_blocks ft) \<Longrightarrow> h_strs h a \<noteq> None"
  by (auto simp: field_ok_def field_blocks_set key_live_def)

lemma bounded_finite: "bounded h \<Longrightarrow> finite (dom (h_strs h))"
  by (rule finite_subset [of _ "{..< h_next h}"]) (auto simp: bounded_def not_le [symmetric])

lemma field_ok_mset:
  assumes "mset s = mset t" and "field_ok h t"
  shows "field_ok h s"
  using assms ht_map_mset(1) [OF assms(1)] mset_eq_imp_distinct_iff [OF field_blocks_mset [OF assms(1)]]
    mset_eq_setD [OF assms(1)]
  by (simp add: field_ok_def)

lemma abs_field_cong:
  "(\<And>e. e \<in> set ft \<Longrightarrow> h_strs h (snd (snd e)) = h_strs h' (snd (snd e))) \<Longrightarrow> abs_field h ft = abs_field h' ft"
  by (auto simp: abs_field_def map_vals_def)

text \<open>
  The field table \<open>ft\<close> at \<open>a\<close> becomes \<open>ft'\<close>: only its own blocks and new ones change, and \<open>n\<close> blocks
  more than before belong to nothing.
\<close>

definition field_run :: "addr \<Rightarrow> heap \<Rightarrow> addr ptable \<Rightarrow> heap \<Rightarrow> addr ptable \<Rightarrow> int \<Rightarrow> bool" where
  "field_run a h ft h' ft' n \<longleftrightarrow>
     h_keys h' = h_keys h \<and> h_tabs h' = (h_tabs h)(a \<mapsto> ft') \<and> h_next h \<le> h_next h' \<and> bounded h' \<and>
     field_ok h' ft' \<and> (\<forall>b \<in> set (field_blocks ft'). b \<in> set (field_blocks ft) \<or> h_next h \<le> b) \<and>
     (\<forall>b < h_next h. b \<notin> set (field_blocks ft) \<longrightarrow> h_strs h' b = h_strs h b) \<and>
     live h' - int (length (field_blocks ft')) = live h - int (length (field_blocks ft)) + n"

lemma field_run_refl: "bounded h \<Longrightarrow> field_ok h ft \<Longrightarrow> h_tabs h a = Some ft \<Longrightarrow> field_run a h ft h ft 0"
  by (auto simp: field_run_def)

lemma field_run_trans:
  assumes "field_run a h ft h1 ft1 m" and "field_run a h1 ft1 h2 ft2 n"
  shows "field_run a h ft h2 ft2 (m + n)"
proof -
  have le: "h_next h \<le> h_next h1" and sub: "\<forall>a \<in> set (field_blocks ft1). a \<in> set (field_blocks ft) \<or> h_next h \<le> a"
    using assms(1) by (simp_all add: field_run_def)
  have "h_strs h2 b = h_strs h b" if "b < h_next h" "b \<notin> set (field_blocks ft)" for b
  proof -
    have "h_strs h2 b = h_strs h1 b" using that le sub assms(2) unfolding field_run_def
      by (meson leD less_le_trans)
    with that assms(1) show ?thesis by (simp add: field_run_def)
  qed
  moreover have "b \<in> set (field_blocks ft) \<or> h_next h \<le> b" if "b \<in> set (field_blocks ft2)" for b
    using that le sub assms(2) unfolding field_run_def by (meson order_trans)
  ultimately show ?thesis using assms by (simp add: field_run_def)
qed

section \<open>One field\<close>

text \<open>The heap after a new block with the characters \<open>v\<close>.\<close>

definition push :: "heap \<Rightarrow> string \<Rightarrow> heap" where
  "push h v = h\<lparr>h_next := Suc (h_next h), h_strs := (h_strs h)(h_next h \<mapsto> v)\<rparr>"

lemma new_string_eq: "new_string v h = (Inr (h_next h), push h v)"
  by (simp add: new_string_def push_def)

lemma push_simps [simp]:
  "h_next (push h v) = Suc (h_next h)" "h_strs (push h v) = (h_strs h)(h_next h \<mapsto> v)"
  "h_tabs (push h v) = h_tabs h" "h_keys (push h v) = h_keys h" "bounded h \<Longrightarrow> bounded (push h v)"
  by (simp_all add: push_def bounded_def)

lemma field_Insert_eq:
  "h_tabs h a = Some ft \<Longrightarrow> field_Insert lay a k val h =
     (case ht_Insert lay (Some k) (h_next h, val) ft of (ok, ft') \<Rightarrow>
        (Inr ok, (push h k)\<lparr>h_tabs := (h_tabs h)(a \<mapsto> ft')\<rparr>))"
  by (simp add: field_Insert_def read_table_def pt_Insert_def new_string_eq write_table_def bindM_def thenM_def
      retM_def split: prod.split)

lemma field_Update_eq:
  "h_tabs h a = Some ft \<Longrightarrow> field_Update a k val h =
     (case pt_Update k val ft of (old, ft') \<Rightarrow> (Inr old, h\<lparr>h_tabs := (h_tabs h)(a \<mapsto> ft')\<rparr>))"
  by (simp add: field_Update_def read_table_def write_table_def bindM_def thenM_def retM_def split: prod.split)

lemma live_push: "bounded h \<Longrightarrow> live (push h v) = live h + 1"
proof -
  assume "bounded h"
  then have "h_next h \<notin> dom (h_strs h)" "finite (dom (h_strs h))"
    using bounded_finite by (auto simp: bounded_def)
  then show ?thesis by (simp add: live_def)
qed

lemma live_tabs [simp]: "live (h\<lparr>h_tabs := t\<rparr>) = live h" "live (h\<lparr>h_keys := k\<rparr>) = live h"
  by (simp_all add: live_def)

lemma live_free:
  assumes "bounded h" and "h_strs h a \<noteq> None" and "h_strs h' = (h_strs h)(a := None)"
  shows "live h' = live h - 1"
proof -
  have "a \<in> dom (h_strs h)" using assms(2) by blast
  then have "0 < card (dom (h_strs h))" using bounded_finite [OF assms(1)] by (auto simp: card_gt_0_iff)
  with \<open>a \<in> dom (h_strs h)\<close> show ?thesis
    using assms(3) bounded_finite [OF assms(1)] by (simp add: live_def card_Diff_singleton of_nat_diff)
qed

lemma field_ok_frame:
  assumes "field_ok h ft" and "\<forall>a \<in> set (field_blocks ft). h_strs h' a = h_strs h a"
  shows "field_ok h' ft" and "abs_field h' ft = abs_field h ft"
proof -
  have "h_strs h' (fst (snd e)) = h_strs h (fst (snd e)) \<and> h_strs h' (snd (snd e)) = h_strs h (snd (snd e))"
    if "e \<in> set ft" for e using that assms(2) field_blocks_set by blast
  then show "field_ok h' ft" and "abs_field h' ft = abs_field h ft"
    using assms(1) by (auto simp: field_ok_def key_live_def intro: abs_field_cong)
qed

lemma fresh_blocks:
  assumes "bounded h" and "field_ok h ft"
  shows "\<forall>a \<in> set (field_blocks ft). a < h_next h"
  using assms field_ok_live [OF assms(2)] unfolding bounded_def by (meson not_le)

lemma field_run_free:
  assumes run: "field_run a h ft h1 ft1 n" and x: "h_next h \<le> x \<or> x \<in> set (field_blocks ft)"
    and loose: "x \<notin> set (field_blocks ft1)" "h_strs h1 x \<noteq> None"
  shows "\<exists>h2. delete_string x h1 = (Inr (), h2) \<and> field_run a h ft h2 ft1 (n - 1) \<and>
    abs_field h2 ft1 = abs_field h1 ft1"
proof -
  let ?h = "h1\<lparr>h_strs := (h_strs h1)(x := None)\<rparr>"
  have "\<forall>b \<in> set (field_blocks ft1). h_strs ?h b = h_strs h1 b" using loose(1) by auto
  from field_ok_frame [OF _ this] run have "field_ok ?h ft1" "abs_field ?h ft1 = abs_field h1 ft1"
    by (simp_all add: field_run_def)
  moreover have "live ?h = live h1 - 1"
    using live_free [OF _ loose(2), of ?h] run by (simp add: field_run_def)
  moreover have "bounded ?h" using run by (auto simp: field_run_def bounded_def)
  ultimately have "field_run a h ft ?h ft1 (n - 1)" using run x by (auto simp: field_run_def)
  with loose(2) \<open>abs_field ?h ft1 = abs_field h1 ft1\<close> show ?thesis by (simp add: delete_string_def)
qed

lemma insert_field_run:
  assumes h: "bounded h" "field_ok h ft" "h_tabs h a = Some ft"
  obtains ok h2 ft' where "field_Insert lay a k (h_next h) (push h v) = (Inr ok, h2)"
    "field_run a h ft h2 ft' (if ok then 0 else 2)" "ok \<longleftrightarrow> ht_map ft k = None" "\<not> ok \<Longrightarrow> ft' = ft"
    "ht_Insert lay (Some k) v (abs_field h ft) = (ok, abs_field h2 ft')" "h_strs h2 (h_next h) = Some v"
proof -
  obtain ok ft' where r: "ht_Insert lay (Some k) (Suc (h_next h), h_next h) ft = (ok, ft')" by (metis surj_pair)
  let ?h = "(push (push h v) k)\<lparr>h_tabs := (h_tabs h)(a \<mapsto> ft')\<rparr>"
  have inv: "ht_inv ft" using h(2) by (simp add: field_ok_def)
  have ok: "ok \<longleftrightarrow> ht_map ft k = None" using ht_Insert_laws [OF inv, of lay k "(Suc (h_next h), h_next h)"] r by simp
  have old: "\<forall>b \<in> set (field_blocks ft). b < h_next h" by (rule fresh_blocks [OF h(1,2)])
  then have "\<forall>b \<in> set (field_blocks ft). h_strs ?h b = h_strs h b" by auto
  note frame = field_ok_frame [OF h(2) this]
  have live: "live ?h = live h + 2" using live_push [OF h(1)] live_push [of "push h v" k] h(1) by simp
  have abs: "abs_field ?h ft = abs_field h ft" by (rule frame(2))
  have "ht_Insert lay (Some k) v (abs_field ?h ft) = (ok, abs_field ?h ft')"
    using ht_ops_vals(2) [of lay k "\<lambda>p. the (h_strs ?h (snd p))" "(Suc (h_next h), h_next h)" ft] r
    by (simp add: abs_field_def)
  then have ins: "ht_Insert lay (Some k) v (abs_field h ft) = (ok, abs_field ?h ft')" by (simp only: abs)
  have bounded: "bounded ?h" using h(1,3) by (auto simp: bounded_def)
  have run: "field_run a h ft ?h ft' (if ok then 0 else 2)"
  proof (cases ok)
    case True
    let ?e = "(Copy k, Suc (h_next h), h_next h)"
    have "ft' = ht_place lay ?e ft" using r True by (auto simp: ht_Insert_def Let_def split: list.splits)
    then have ms: "mset ft' = mset (?e # ft)" by (simp add: ht_place_def)
    have "k \<notin> set (ht_keys ft)" using ok True by (simp add: ht_map_None)
    then have "field_ok ?h (?e # ft)"
      using frame(1) old by (fastforce simp: field_ok_def ht_inv_simps key_live_def)
    from field_ok_mset [OF ms this] have "field_ok ?h ft'" .
    moreover have "set (field_blocks ft') = insert (Suc (h_next h)) (insert (h_next h) (set (field_blocks ft)))"
      "length (field_blocks ft') = Suc (Suc (length (field_blocks ft)))"
      using mset_eq_setD [OF field_blocks_mset [OF ms]] mset_eq_length [OF field_blocks_mset [OF ms]] by simp_all
    ultimately show ?thesis using True live bounded by (auto simp: field_run_def)
  next
    case False
    then have "ft' = ft" using r by (auto simp: ht_Insert_def Let_def split: list.splits)
    with False live bounded frame(1) show ?thesis by (auto simp: field_run_def)
  qed
  show ?thesis
  proof (rule that [OF _ run ok _ ins])
    show "field_Insert lay a k (h_next h) (push h v) = (Inr ok, ?h)"
      using field_Insert_eq [of "push h v" a ft] h(3) r by simp
    show "\<not> ok \<Longrightarrow> ft' = ft" using r by (auto simp: ht_Insert_def Let_def split: list.splits)
  qed simp
qed

text \<open>Where an element is in its table.\<close>

lemma ht_split:
  assumes "ht_inv t" and "ht_map t k = Some x"
  obtains pre w post where "t = pre @ (w, x) # post" "str_value w = k" "ht_Get k t = Some x"
    "\<And>y. ht_Update k y t = (Some x, pre @ (w, y) # post)" "ht_Remove k t = (Some x, pre @ post)"
proof (cases rule: ht_find_cases [OF assms(1) str_wf_set_value(2) [of k], case_names absent found])
  case absent
  with assms(2) show ?thesis by simp
next
  case (found e post)
  then have e: "e = (fst e, x)" using assms(2) by (simp add: prod_eq_iff)
  show ?thesis
  proof (rule that)
    show "t = ht_before (Wrap k) t @ (fst e, x) # post" using found(2) e by metis
    show "str_value (fst e) = k" using found(3) by simp
  qed (use found(1) e in \<open>simp_all add: ht_Get_def ht_Update_def ht_Remove_def prod_eq_iff\<close>)
qed

lemma update_field_run:
  assumes h: "bounded h" "field_ok h ft" "h_tabs h a = Some ft" and k: "ht_map ft k = Some (ka, old)"
  obtains h2 ft' where "field_Update a k (h_next h) (push h v) = (Inr (Some old), h2)"
    "field_run a h ft h2 ft' 1" "old \<in> set (field_blocks ft)" "old \<notin> set (field_blocks ft')"
    "h_strs h2 old \<noteq> None" "\<exists>u. ht_Update k v (abs_field h ft) = (Some u, abs_field h2 ft')"
proof -
  have inv: "ht_inv ft" using h(2) by (simp add: field_ok_def)
  from ht_split [OF inv k] obtain pre w post where ft: "ft = pre @ (w, (ka, old)) # post" "str_value w = k"
    "ht_Get k ft = Some (ka, old)" "\<And>y. ht_Update k y ft = (Some (ka, old), pre @ (w, y) # post)" by metis
  let ?ft = "pre @ (w, (ka, h_next h)) # post"
  let ?h = "(push h v)\<lparr>h_tabs := (h_tabs h)(a \<mapsto> ?ft)\<rparr>"
  have old: "\<forall>b \<in> set (field_blocks ft). b < h_next h" by (rule fresh_blocks [OF h(1,2)])
  then have "\<forall>b \<in> set (field_blocks ft). h_strs ?h b = h_strs h b" by auto
  note frame = field_ok_frame [OF h(2) this]
  have "h_next h \<notin> set (field_blocks ft)" using old by blast
  with frame(1) have ok: "field_ok ?h ?ft" by (auto simp: field_ok_def ft(1) ht_inv_simps key_live_def)
  have dist: "old \<in> set (field_blocks ft)" "old \<notin> set (field_blocks ?ft)" "old < h_next h"
    using h(2) old by (auto simp: field_ok_def ft(1))
  have bounded: "bounded ?h" using h(1,3) by (auto simp: bounded_def)
  have "ht_Update k v (abs_field ?h ft) = (Some (the (h_strs ?h old)), abs_field ?h ?ft)"
    using ht_ops_vals(3) [of k "\<lambda>p. the (h_strs ?h (snd p))" "(ka, h_next h)" ft] ft(4)
    by (simp add: abs_field_def)
  then have upd: "\<exists>u. ht_Update k v (abs_field h ft) = (Some u, abs_field ?h ?ft)" by (simp only: frame(2)) blast
  show ?thesis
  proof (rule that [OF _ _ dist(1,2) _ upd])
    show "field_Update a k (h_next h) (push h v) = (Inr (Some old), ?h)"
      using field_Update_eq [of "push h v" a ft] h(3) ft(3,4) by (simp add: pt_Update_def)
    show "field_run a h ft ?h ?ft 1"
      using live_push [OF h(1)] bounded ok by (auto simp: field_run_def ft(1))
    show "h_strs ?h old \<noteq> None" using dist(3) field_ok_live [OF h(2) dist(1)] by simp
  qed
qed

section \<open>The loops over the fields\<close>

lemma field_run_ok: "field_run a h ft h' ft' n \<Longrightarrow> bounded h' \<and> field_ok h' ft' \<and> h_tabs h' a = Some ft'"
  by (simp add: field_run_def)

lemma insert_fields_run:
  assumes "bounded h" and "field_ok h ft" and "h_tabs h a = Some ft"
  shows "\<exists>rc h' ft'. p_insert_fields lay a vs h = (Inr rc, h') \<and>
    field_run a h ft h' ft' (if rc = kErrorConflict then 1 else 0) \<and>
    insert_fields lay vs (abs_field h ft) = (rc, abs_field h' ft')"
  using assms
proof (induction vs arbitrary: h ft)
  case Nil
  then show ?case by (intro exI [of _ kOK] exI [of _ h] exI [of _ ft])
      (simp add: field_run_refl op_simps kOK_def kErrorConflict_def)
next
  case (Cons p ps)
  let ?v = "CopyString (snd p)" and ?k = "c_str (fst p)"
  from insert_field_run [OF Cons.prems] obtain ok h2 ft2 where
    ins: "field_Insert lay a ?k (h_next h) (push h ?v) = (Inr ok, h2)"
    and run: "field_run a h ft h2 ft2 (if ok then 0 else 2)" and same: "\<not> ok \<Longrightarrow> ft2 = ft"
    and abs: "ht_Insert lay (Some ?k) ?v (abs_field h ft) = (ok, abs_field h2 ft2)"
    and loose: "h_strs h2 (h_next h) = Some ?v" by blast
  show ?case
  proof (cases ok)
    case True
    with field_run_ok [OF run] Cons.IH obtain rc h3 ft3 where
      "p_insert_fields lay a ps h2 = (Inr rc, h3)"
      "field_run a h2 ft2 h3 ft3 (if rc = kErrorConflict then 1 else 0)"
      "insert_fields lay ps (abs_field h2 ft2) = (rc, abs_field h3 ft3)" by blast
    with True ins abs field_run_trans [of a h ft h2 ft2 0 h3 ft3] run show ?thesis
      by (intro exI [of _ rc] exI [of _ h3] exI [of _ ft3]) (simp add: new_string_eq op_simps)
  next
    case False
    have "h_next h \<notin> set (field_blocks ft2)"
      using same [OF False] fresh_blocks [OF Cons.prems(1,2)] by blast
    with field_run_free [OF run, of "h_next h"] loose obtain h3 where
      "delete_string (h_next h) h2 = (Inr (), h3)" "field_run a h ft h3 ft2 1" "abs_field h3 ft2 = abs_field h2 ft2"
      using False by auto
    with False ins abs show ?thesis
      by (intro exI [of _ kErrorConflict] exI [of _ h3] exI [of _ ft2]) (simp add: new_string_eq op_simps)
  qed
qed

lemma fill_fields_run:
  assumes "bounded h" and "field_ok h ft" and "h_tabs h a = Some ft"
  shows "\<exists>h' ft' n. p_fill_fields lay a vs h = (Inr (), h') \<and> field_run a h ft h' ft' n \<and>
    fill_fields lay vs (abs_field h ft) = abs_field h' ft' \<and>
    (distinct (map (c_str \<circ> fst) vs) \<and> (\<forall>p \<in> set vs. ht_map ft (c_str (fst p)) = None) \<longrightarrow> n = 0)"
  using assms
proof (induction vs arbitrary: h ft)
  case Nil
  then show ?case using field_run_refl [OF Nil] by (auto simp: op_simps)
next
  case (Cons p ps)
  let ?v = "CopyString (snd p)" and ?k = "c_str (fst p)"
  from insert_field_run [OF Cons.prems] obtain ok h2 ft2 where
    ins: "field_Insert lay a ?k (h_next h) (push h ?v) = (Inr ok, h2)"
    and run: "field_run a h ft h2 ft2 (if ok then 0 else 2)" and ok: "ok \<longleftrightarrow> ht_map ft ?k = None"
    and abs: "ht_Insert lay (Some ?k) ?v (abs_field h ft) = (ok, abs_field h2 ft2)" by metis
  from Cons.IH field_run_ok [OF run] obtain h3 ft3 n where
    rest: "p_fill_fields lay a ps h2 = (Inr (), h3)" "field_run a h2 ft2 h3 ft3 n"
      "fill_fields lay ps (abs_field h2 ft2) = abs_field h3 ft3"
    and none: "distinct (map (c_str \<circ> fst) ps) \<and> (\<forall>q \<in> set ps. ht_map ft2 (c_str (fst q)) = None) \<Longrightarrow> n = 0" by blast
  have keys: "ht_map ft2 j = None" if "ht_map ft j = None" "j \<noteq> ?k" for j
  proof -
    have inv: "ht_inv (abs_field h ft)" and dom: "dom (ht_map (abs_field h ft)) = dom (ht_map ft)"
        "dom (ht_map (abs_field h2 ft2)) = dom (ht_map ft2)"
      using Cons.prems(2) by (simp_all add: dom_ht_map abs_field_def field_ok_def)
    from ht_Insert_laws [OF inv, of lay ?k ?v] abs have
      "ht_map (abs_field h2 ft2) j = ht_map (abs_field h ft) j" using that(2) by (simp split: if_splits)
    with dom that(1) show ?thesis by (metis domIff)
  qed
  have "(if ok then 0 else 2) + n = 0"
    if "distinct (map (c_str \<circ> fst) (p # ps))" "\<forall>q \<in> set (p # ps). ht_map ft (c_str (fst q)) = None"
  proof -
    from that ok have ok by simp
    moreover have "ht_map ft2 (c_str (fst q)) = None" if "q \<in> set ps" for q
      using that \<open>distinct (map (c_str \<circ> fst) (p # ps))\<close>
        \<open>\<forall>q \<in> set (p # ps). ht_map ft (c_str (fst q)) = None\<close>
      by (intro keys) (auto simp: image_iff)
    ultimately show ?thesis using none that(1) by simp
  qed
  moreover have "p_fill_fields lay a (p # ps) h = (Inr (), h3)"
    using ins rest(1) by (simp add: new_string_eq op_simps)
  moreover have "fill_fields lay (p # ps) (abs_field h ft) = abs_field h3 ft3" using abs rest(3) by simp
  ultimately show ?case using field_run_trans [OF run rest(2)] by blast
qed

lemma update_fields_run:
  assumes "bounded h" and "field_ok h ft" and "h_tabs h a = Some ft"
  shows "\<exists>h' ft'. p_update_fields lay a vs h = (Inr (), h') \<and> field_run a h ft h' ft' 0 \<and>
    update_fields lay vs (abs_field h ft) = abs_field h' ft'"
  using assms
proof (induction vs arbitrary: h ft)
  case Nil
  then show ?case using field_run_refl [OF Nil] by (auto simp: op_simps)
next
  case (Cons p ps)
  let ?v = "CopyString (snd p)" and ?k = "c_str (fst p)"
  have inv: "ht_inv ft" using Cons.prems(2) by (simp add: field_ok_def)
  show ?case
  proof (cases "ht_map ft ?k")
    case None
    then have get: "ht_Get ?k ft = None" by (simp add: ht_Get_map inv)
    from insert_field_run [OF Cons.prems, of lay ?k ?v] obtain ok h2 ft2 where
      r: "field_Insert lay a ?k (h_next h) (push h ?v) = (Inr ok, h2)"
        "field_run a h ft h2 ft2 (if ok then 0 else 2)" "ok \<longleftrightarrow> ht_map ft ?k = None"
        "ht_Insert lay (Some ?k) ?v (abs_field h ft) = (ok, abs_field h2 ft2)" by metis
    then have ins: "field_Insert lay a ?k (h_next h) (push h ?v) = (Inr True, h2)" "field_run a h ft h2 ft2 0"
        "ht_Insert lay (Some ?k) ?v (abs_field h ft) = (True, abs_field h2 ft2)" using None by simp_all
    from Cons.IH field_run_ok [OF ins(2)] obtain h3 ft3 where
      rest: "p_update_fields lay a ps h2 = (Inr (), h3)" "field_run a h2 ft2 h3 ft3 0"
        "update_fields lay ps (abs_field h2 ft2) = abs_field h3 ft3" by blast
    have "(push h ?v)\<lparr>h_tabs := (h_tabs h)(a \<mapsto> ft)\<rparr> = push h ?v"
      using Cons.prems(3) by (simp add: push_def fun_upd_idem)
    then have upd: "field_Update a ?k (h_next h) (push h ?v) = (Inr None, push h ?v)"
      using field_Update_eq [of "push h ?v" a ft] get Cons.prems(3) by (simp add: pt_Update_def)
    have "ht_Get ?k (abs_field h ft) = None"
      using ht_ops_vals(1) [of ?k "\<lambda>p. the (h_strs h (snd p))" ft] get by (simp add: abs_field_def)
    then have "ht_Update ?k ?v (abs_field h ft) = (None, abs_field h ft)"
      by (simp add: ht_Get_def ht_Update_def split: list.splits)
    then have "update_fields lay (p # ps) (abs_field h ft) = abs_field h3 ft3" using ins(3) rest(3) by simp
    moreover have "p_update_fields lay a (p # ps) h = (Inr (), h3)"
      using upd ins(1) rest(1) by (simp add: new_string_eq op_simps)
    moreover have "field_run a h ft h3 ft3 0" using field_run_trans [OF ins(2) rest(2)] by simp
    ultimately show ?thesis by blast
  next
    case (Some x)
    then obtain ka old where "ht_map ft ?k = Some (ka, old)" by (cases x) simp
    from update_field_run [OF Cons.prems this, of ?v] obtain h2 ft2 where
      upd: "field_Update a ?k (h_next h) (push h ?v) = (Inr (Some old), h2)" "field_run a h ft h2 ft2 1"
        "old \<in> set (field_blocks ft)" "old \<notin> set (field_blocks ft2)" "h_strs h2 old \<noteq> None"
        "\<exists>u. ht_Update ?k ?v (abs_field h ft) = (Some u, abs_field h2 ft2)" by blast
    from field_run_free [OF upd(2) _ upd(4,5)] upd(3) obtain h3 where
      free: "delete_string old h2 = (Inr (), h3)" "field_run a h ft h3 ft2 0" "abs_field h3 ft2 = abs_field h2 ft2"
      by auto
    from Cons.IH field_run_ok [OF free(2)] obtain h4 ft4 where
      rest: "p_update_fields lay a ps h3 = (Inr (), h4)" "field_run a h3 ft2 h4 ft4 0"
        "update_fields lay ps (abs_field h3 ft2) = abs_field h4 ft4" by blast
    have "update_fields lay (p # ps) (abs_field h ft) = abs_field h4 ft4" using upd(6) rest(3) free(3) by auto
    moreover have "p_update_fields lay a (p # ps) h = (Inr (), h4)"
      using upd(1) free(1) rest(1) by (simp add: new_string_eq op_simps)
    moreover have "field_run a h ft h4 ft4 0" using field_run_trans [OF free(2) rest(2)] by simp
    ultimately show ?thesis by blast
  qed
qed

section \<open>The whole heap\<close>

text \<open>
  The blocks of a record are the key's and those of its field table. Every block belongs to one place at
  most, every field table is in the key table once, and \<open>lost\<close> counts the blocks that belong nowhere.
\<close>

definition table_of :: "heap \<Rightarrow> vmp_string \<times> addr \<times> addr \<Rightarrow> addr ptable" where
  "table_of h e = the (h_tabs h (snd (snd e)))"

definition record_blocks :: "heap \<Rightarrow> vmp_string \<times> addr \<times> addr \<Rightarrow> addr list" where
  "record_blocks h e = fst (snd e) # field_blocks (table_of h e)"

definition owned :: "heap \<Rightarrow> addr list" where
  "owned h = concat (map (record_blocks h) (h_keys h))"

definition heap_ok :: "heap \<Rightarrow> bool" where
  "heap_ok h \<longleftrightarrow> bounded h \<and> ht_inv (h_keys h) \<and> distinct (map (snd \<circ> snd) (h_keys h)) \<and>
     set (map (snd \<circ> snd) (h_keys h)) = dom (h_tabs h) \<and> distinct (owned h) \<and>
     (\<forall>e \<in> set (h_keys h). key_live h e \<and> field_ok h (table_of h e))"

definition abs_db :: "heap \<Rightarrow> key_table" where
  "abs_db h = map_vals (\<lambda>p. abs_field h (the (h_tabs h (snd p)))) (h_keys h)"

definition lost :: "heap \<Rightarrow> int" where
  "lost h = live h - int (length (owned h))"

text \<open>A record whose blocks and table are left alone.\<close>

lemma record_frame:
  assumes "h_tabs h' (snd (snd e)) = h_tabs h (snd (snd e))"
    and "\<forall>b \<in> set (record_blocks h e). h_strs h' b = h_strs h b"
  shows "record_blocks h' e = record_blocks h e" and "table_of h' e = table_of h e"
    and "key_live h e \<Longrightarrow> key_live h' e" and "field_ok h (table_of h e) \<Longrightarrow> field_ok h' (table_of h' e)"
    and "field_ok h (table_of h e) \<Longrightarrow> abs_field h' (table_of h' e) = abs_field h (table_of h e)"
proof -
  show t: "table_of h' e = table_of h e" using assms(1) by (simp add: table_of_def)
  then show "record_blocks h' e = record_blocks h e" by (simp add: record_blocks_def)
  show "key_live h e \<Longrightarrow> key_live h' e" using assms(2) by (simp add: key_live_def record_blocks_def)
  have "\<forall>b \<in> set (field_blocks (table_of h e)). h_strs h' b = h_strs h b"
    using assms(2) by (simp add: record_blocks_def)
  from field_ok_frame [OF _ this]
  show "field_ok h (table_of h e) \<Longrightarrow> field_ok h' (table_of h' e)"
    and "field_ok h (table_of h e) \<Longrightarrow> abs_field h' (table_of h' e) = abs_field h (table_of h e)"
    by (simp_all only: t)
qed

lemma record_live: "key_live h e \<Longrightarrow> field_ok h (table_of h e) \<Longrightarrow> b \<in> set (record_blocks h e) \<Longrightarrow> h_strs h b \<noteq> None"
  using field_ok_live by (auto simp: record_blocks_def key_live_def)

lemma bounded_less: "bounded h \<Longrightarrow> h_strs h b \<noteq> None \<Longrightarrow> b < h_next h"
  unfolding bounded_def by (meson not_le)

lemma record_bounded:
  "bounded h \<Longrightarrow> key_live h e \<Longrightarrow> field_ok h (table_of h e) \<Longrightarrow> \<forall>b \<in> set (record_blocks h e). b < h_next h"
  using record_live bounded_less by blast

text \<open>Records that a change elsewhere leaves alone.\<close>

lemma records_frame:
  assumes "\<And>e. e \<in> set es \<Longrightarrow> h_tabs h' (snd (snd e)) = h_tabs h (snd (snd e)) \<and>
      (\<forall>b \<in> set (record_blocks h e). h_strs h' b = h_strs h b)"
    and "\<And>e. e \<in> set es \<Longrightarrow> key_live h e \<and> field_ok h (table_of h e)"
  shows "map (record_blocks h') es = map (record_blocks h) es"
    and "\<forall>e \<in> set es. key_live h' e \<and> field_ok h' (table_of h' e)"
    and "map_vals (\<lambda>p. abs_field h' (the (h_tabs h' (snd p)))) es = map_vals (\<lambda>p. abs_field h (the (h_tabs h (snd p)))) es"
proof -
  have f: "record_blocks h' e = record_blocks h e \<and> key_live h' e \<and> field_ok h' (table_of h' e) \<and>
      abs_field h' (table_of h' e) = abs_field h (table_of h e)" if "e \<in> set es" for e
    using record_frame [of h' e h] assms [OF that] by blast
  then show "map (record_blocks h') es = map (record_blocks h) es"
    and "\<forall>e \<in> set es. key_live h' e \<and> field_ok h' (table_of h' e)" by simp_all
  show "map_vals (\<lambda>p. abs_field h' (the (h_tabs h' (snd p)))) es = map_vals (\<lambda>p. abs_field h (the (h_tabs h (snd p)))) es"
    unfolding map_vals_def
  proof (rule map_cong [OF refl])
    fix e assume "e \<in> set es"
    from f [OF this] show "(fst e, abs_field h' (the (h_tabs h' (snd (snd e))))) = (fst e, abs_field h (the (h_tabs h (snd (snd e)))))"
      by (simp add: table_of_def)
  qed
qed

lemma abs_db_split:
  "h_keys h = pre @ (w, (ka, a)) # post \<Longrightarrow> abs_db h =
     map_vals (\<lambda>p. abs_field h (the (h_tabs h (snd p)))) pre @
     (w, abs_field h (the (h_tabs h a))) # map_vals (\<lambda>p. abs_field h (the (h_tabs h (snd p)))) post"
  by (simp add: abs_db_def)

lemma ht_Update_at:
  assumes "ht_inv (pre @ (w, x) # post)"
  shows "ht_Update (str_value w) y (pre @ (w, x) # post) = (Some x, pre @ (w, y) # post)"
proof -
  have "\<not> str_equal (fst e) (Wrap (str_value w))" if "e \<in> set pre" for e
  proof -
    have "str_value (fst e) \<in> set (ht_keys pre)" using that by (simp add: ht_keys_def)
    then have "str_value (fst e) \<noteq> str_value w" using assms by (auto simp: ht_inv_simps)
    moreover have "str_wf (fst e)" using assms that by (simp add: ht_inv_def list_all_iff)
    ultimately show ?thesis by (simp add: str_equal_value)
  qed
  moreover have "str_equal w (Wrap (str_value w))"
    using assms by (simp add: ht_inv_simps str_equal_value)
  ultimately show ?thesis
    by (simp add: ht_Update_def ht_find_def ht_before_def dropWhile_append2 takeWhile_append2)
qed

text \<open>Replacing some blocks by others, of which the new ones are beyond all that exist.\<close>

lemma distinct_replace:
  fixes n :: nat
  assumes "distinct (xs @ fs @ ys)" and "distinct fs'" and "\<And>b. b \<in> set fs' \<Longrightarrow> b \<in> set fs \<or> n \<le> b"
    and "\<forall>b \<in> set (xs @ fs @ ys). b < n"
  shows "distinct (xs @ fs' @ ys)"
proof -
  have "b \<notin> set xs \<and> b \<notin> set ys" if "b \<in> set fs'" for b
    using assms(3) [OF that] assms(1,4) by (auto dest: leD)
  with assms(1,2) show ?thesis by auto
qed

text \<open>A change of one field table is an update of its record.\<close>

lemma record_run:
  assumes ok: "heap_ok h" and keys: "h_keys h = pre @ (w, (ka, a)) # post"
    and run: "field_run a h (the (h_tabs h a)) h' ft' n"
  shows "heap_ok h'" and "lost h' = lost h + n"
    and "abs_db h' = snd (ht_Update (str_value w) (abs_field h' ft') (abs_db h))"
proof -
  let ?ft = "the (h_tabs h a)" and ?e = "(w, (ka, a))"
  have b: "bounded h" and dist: "distinct (owned h)" "distinct (map (snd \<circ> snd) (h_keys h))"
    and live: "\<And>e. e \<in> set (h_keys h) \<Longrightarrow> key_live h e \<and> field_ok h (table_of h e)"
    using ok by (auto simp: heap_ok_def)
  have e: "table_of h ?e = ?ft" "table_of h' ?e = ft'" "record_blocks h ?e = ka # field_blocks ?ft"
      "record_blocks h' ?e = ka # field_blocks ft'"
    using run by (simp_all add: table_of_def record_blocks_def field_run_def)
  have same: "h_tabs h' (snd (snd e)) = h_tabs h (snd (snd e)) \<and> (\<forall>b \<in> set (record_blocks h e). h_strs h' b = h_strs h b)"
    if "e \<in> set (pre @ post)" for e
  proof -
    have "snd (snd e) \<noteq> a" using dist(2) that keys by force
    moreover have "set (record_blocks h e) \<inter> set (field_blocks ?ft) = {}"
      using dist(1) that e(3) by (fastforce simp: owned_def keys)
    moreover have "e \<in> set (h_keys h)" using that keys by auto
    then have "\<forall>b \<in> set (record_blocks h e). b < h_next h" using record_bounded [OF b] live by blast
    ultimately show ?thesis using run by (auto simp: field_run_def)
  qed
  have old: "\<forall>b \<in> set (owned h). b < h_next h"
    using record_bounded [OF b] live unfolding owned_def by (simp only: set_concat set_map) blast
  note frame = records_frame [of "pre @ post" h' h, OF same live]
  have frame': "map (record_blocks h') pre = map (record_blocks h) pre" "map (record_blocks h') post = map (record_blocks h) post"
    and ok': "\<forall>e \<in> set (pre @ post). key_live h' e \<and> field_ok h' (table_of h' e)"
    and vals: "map_vals (\<lambda>p. abs_field h' (the (h_tabs h' (snd p)))) pre = map_vals (\<lambda>p. abs_field h (the (h_tabs h (snd p)))) pre"
      "map_vals (\<lambda>p. abs_field h' (the (h_tabs h' (snd p)))) post = map_vals (\<lambda>p. abs_field h (the (h_tabs h (snd p)))) post"
    using frame keys by auto
  have keys': "h_keys h' = pre @ ?e # post" using run keys by (simp add: field_run_def)
  have own: "owned h = concat (map (record_blocks h) pre) @ ka # field_blocks ?ft @ concat (map (record_blocks h) post)"
    and own': "owned h' = concat (map (record_blocks h) pre) @ ka # field_blocks ft' @ concat (map (record_blocks h) post)"
    by (simp_all add: owned_def keys keys' frame' e)
  have ka: "ka \<notin> set (field_blocks ?ft)" "ka < h_next h" using dist(1) old own by auto
  then have "h_strs h' ka = h_strs h ka" using run by (simp add: field_run_def)
  moreover have "key_live h ?e" using live [of ?e] keys by simp
  ultimately have "key_live h' ?e" by (simp add: key_live_def)
  moreover have "field_ok h' (table_of h' ?e)" using run e(2) by (simp add: field_run_def)
  moreover have "distinct (owned h')"
  proof -
    let ?pre = "concat (map (record_blocks h) pre) @ [ka]" and ?post = "concat (map (record_blocks h) post)"
    have "distinct (?pre @ field_blocks ft' @ ?post)"
    proof (rule distinct_replace)
      show "distinct (?pre @ field_blocks ?ft @ ?post)" "\<forall>b \<in> set (?pre @ field_blocks ?ft @ ?post). b < h_next h"
        using dist(1) old unfolding own by simp_all
      show "distinct (field_blocks ft')" using run by (simp add: field_run_def field_ok_def)
      show "b \<in> set (field_blocks ?ft) \<or> h_next h \<le> b" if "b \<in> set (field_blocks ft')" for b
        using run that by (simp add: field_run_def)
    qed
    then show ?thesis unfolding own' by simp
  qed
  moreover have "a \<in> dom (h_tabs h)" using ok keys unfolding heap_ok_def by (metis (no_types) comp_apply in_set_conv_decomp list.set_map image_eqI snd_conv)
  then have "dom (h_tabs h') = dom (h_tabs h)" using run by (auto simp: field_run_def)
  ultimately show "heap_ok h'" using ok ok' run keys keys' by (auto simp: heap_ok_def field_run_def)
  show "lost h' = lost h + n" using run by (simp add: lost_def own own' field_run_def)
  have inv: "ht_inv (abs_db h)" using ok by (simp add: abs_db_def heap_ok_def)
  show "abs_db h' = snd (ht_Update (str_value w) (abs_field h' ft') (abs_db h))"
    using ht_Update_at [OF inv [unfolded abs_db_split [OF keys]], of "abs_field h' ft'"] vals run
    by (simp add: abs_db_split [OF keys] abs_db_split [OF keys'] field_run_def)
qed

section \<open>Records come and go\<close>

lemma heap_okD:
  assumes "heap_ok h"
  shows "bounded h" and "ht_inv (h_keys h)" and "distinct (owned h)" and "distinct (map (snd \<circ> snd) (h_keys h))"
    and "\<And>e. e \<in> set (h_keys h) \<Longrightarrow> key_live h e \<and> field_ok h (table_of h e) \<and> h_tabs h (snd (snd e)) = Some (table_of h e)"
proof -
  show "bounded h" and "ht_inv (h_keys h)" and "distinct (owned h)" and "distinct (map (snd \<circ> snd) (h_keys h))"
    using assms by (simp_all add: heap_ok_def)
  fix e assume e: "e \<in> set (h_keys h)"
  then have "snd (snd e) \<in> dom (h_tabs h)" using assms by (auto simp: heap_ok_def)
  then show "key_live h e \<and> field_ok h (table_of h e) \<and> h_tabs h (snd (snd e)) = Some (table_of h e)"
    using assms e by (auto simp: heap_ok_def table_of_def)
qed

lemma heap_ok_focus:
  assumes "heap_ok h" and "ht_map (h_keys h) k = Some (ka, a)"
  obtains pre w post where "h_keys h = pre @ (w, (ka, a)) # post" "str_value w = k"
    "h_tabs h a = Some (the (h_tabs h a))" "field_ok h (the (h_tabs h a))" "key_live h (w, (ka, a))"
    "ht_Remove k (h_keys h) = (Some (ka, a), pre @ post)"
proof -
  from ht_split [OF heap_okD(2) [OF assms(1)] assms(2)] obtain pre w post where
    k: "h_keys h = pre @ (w, (ka, a)) # post" "str_value w = k" "ht_Remove k (h_keys h) = (Some (ka, a), pre @ post)" by metis
  from heap_okD(5) [OF assms(1), of "(w, (ka, a))"] k(1) have
    "key_live h (w, (ka, a)) \<and> field_ok h (table_of h (w, (ka, a))) \<and> h_tabs h a = Some (table_of h (w, (ka, a)))" by simp
  with k show ?thesis by (intro that [OF k(1,2) _ _ _ k(3)]) (simp_all add: table_of_def)
qed

lemma abs_db_Get: "ht_Get k (abs_db h) = map_option (\<lambda>p. abs_field h (the (h_tabs h (snd p)))) (ht_Get k (h_keys h))"
  by (simp add: abs_db_def ht_ops_vals(1))

lemma abs_db_keys: "heap_ok h \<Longrightarrow> ht_Get k (h_keys h) = ht_map (h_keys h) k"
  by (simp add: heap_okD(2) ht_Get_map)

lemma new_record_run:
  assumes ok: "heap_ok h" and k: "ht_map (h_keys h) k = None"
  obtains a ka h' where "new_record lay k h = (Inr a, h')" "heap_ok h'" "lost h' = lost h"
    "ht_map (h_keys h') k = Some (ka, a)" "the (h_tabs h' a) = []"
    "abs_db h' = snd (ht_Insert lay (Some k) [] (abs_db h))"
proof -
  let ?a = "h_next h" and ?kt = "h_keys h"
  let ?h1 = "h\<lparr>h_next := Suc ?a, h_tabs := (h_tabs h)(?a \<mapsto> [])\<rparr>"
  let ?e = "(Copy k, (Suc ?a, ?a))"
  let ?kt' = "ht_place lay ?e ?kt"
  let ?h = "(push ?h1 k)\<lparr>h_keys := ?kt'\<rparr>"
  have b: "bounded h" "bounded ?h1" using heap_okD(1) [OF ok] by (auto simp: bounded_def)
  have fresh: "h_tabs h ?a = None" using b(1) by (simp add: bounded_def)
  have "ht_find (Copy k) ?kt = []"
    using ht_find_cases [OF heap_okD(2) [OF ok] str_wf_set_value(3) [of k]] k by (metis not_None_eq str_value_simps(3))
  then have ins: "ht_Insert lay (Some k) (Suc ?a, ?a) ?kt = (True, ?kt')" by (simp add: ht_Insert_def)
  have run: "new_record lay k h = (Inr ?a, ?h)"
    by (simp add: new_record_def NewFieldHashtable_def pt_Insert_def new_string_eq ins bindM_def thenM_def op_run)
  have ms: "mset ?kt' = mset (?e # ?kt)" by (simp add: ht_place_def)
  have inv: "ht_inv (?e # ?kt)" using heap_okD(2) [OF ok] k by (simp add: ht_inv_simps ht_map_None)
  note place = ht_map_mset [OF ms inv]
  have old: "\<forall>b \<in> set (record_blocks h e). b < ?a" if "e \<in> set ?kt" for e
    using record_bounded [OF b(1)] heap_okD(5) [OF ok that] by blast
  have same: "h_tabs ?h (snd (snd e)) = h_tabs h (snd (snd e)) \<and> (\<forall>b \<in> set (record_blocks h e). h_strs ?h b = h_strs h b)"
    if "e \<in> set ?kt" for e
    using old [OF that] heap_okD(5) [OF ok that] fresh by auto
  have live: "key_live h e \<and> field_ok h (table_of h e)" if "e \<in> set ?kt" for e using heap_okD(5) [OF ok that] by blast
  note frame = records_frame [of ?kt ?h h, OF same live]
  have e: "table_of ?h ?e = []" "record_blocks ?h ?e = [Suc ?a]" "key_live ?h ?e" "field_ok ?h []"
    by (simp_all add: table_of_def record_blocks_def key_live_def field_ok_def)
  have own: "mset (owned ?h) = mset (Suc ?a # owned h)"
  proof -
    have "mset (owned ?h) = mset (concat (map (record_blocks ?h) (?e # ?kt)))"
      unfolding owned_def mset_blocks using ms by simp
    also have "\<dots> = mset (Suc ?a # owned h)"
      using arg_cong [OF frame(1), of "\<lambda>xs. mset (concat xs)"] e(2) by (simp add: owned_def del: map_eq_conv)
    finally show ?thesis .
  qed
  have old': "\<forall>b \<in> set (owned h). b < ?a" using old by (auto simp: owned_def)
  have "distinct (Suc ?a # owned h)" using heap_okD(3) [OF ok] old' by auto
  then have "distinct (owned ?h)" using mset_eq_imp_distinct_iff [OF own] by simp
  moreover have ptrs: "mset (map (snd \<circ> snd) ?kt') = mset (?a # map (snd \<circ> snd) ?kt)" using ms by simp
  have "?a \<notin> set (map (snd \<circ> snd) ?kt)" using ok fresh by (auto simp: heap_ok_def)
  then have "distinct (map (snd \<circ> snd) ?kt')"
    using mset_eq_imp_distinct_iff [OF ptrs] heap_okD(4) [OF ok] by simp
  moreover have "set (map (snd \<circ> snd) ?kt') = insert ?a (dom (h_tabs h))"
    using mset_eq_setD [OF ptrs] ok by (simp add: heap_ok_def)
  moreover have "\<forall>x \<in> set ?kt'. key_live ?h x \<and> field_ok ?h (table_of ?h x)"
    using mset_eq_setD [OF ms] frame(2) e by auto
  moreover have "bounded ?h" using b by (auto simp: bounded_def)
  ultimately have ok': "heap_ok ?h" using place(1) by (simp add: heap_ok_def)
  have "live ?h1 = live h" by (simp add: live_def)
  then have lost: "lost ?h = lost h"
    using live_push [OF b(2), of k] mset_eq_length [OF own] by (simp add: lost_def)
  have mp: "ht_map (h_keys ?h) k = Some (Suc ?a, ?a)" using place(2) by (simp add: ht_map_simps)
  have "snd (ht_Insert lay (Some k) [] (abs_db h)) = abs_db ?h"
    using ht_ops_vals(2) [of lay k "\<lambda>p. abs_field ?h (the (h_tabs ?h (snd p)))" "(Suc ?a, ?a)" ?kt] ins frame(3)
    by (simp add: abs_db_def abs_field_def)
  then show ?thesis using that [OF run ok' lost mp] by simp
qed

section \<open>The operations compute what the value model computes\<close>

lemma p_Insert_run:
  assumes ok: "heap_ok h"
  shows "\<exists>rc h'. p_Insert lay t k vs h = (Inr rc, h') \<and> heap_ok h' \<and>
    hdb_Insert lay t k vs (abs_db h) = (rc, abs_db h') \<and>
    lost h' = lost h + (if rc = kErrorConflict then 1 else 0)"
proof -
  let ?k = "c_str (key_index t k)"
  have main: "\<exists>rc h'. p_insert_fields lay a vs h1 = (Inr rc, h') \<and> heap_ok h' \<and>
      (case insert_fields lay vs (abs_field h1 (the (h_tabs h1 a))) of (rc', ft') \<Rightarrow>
        (rc', snd (ht_Update ?k ft' (abs_db h1)))) = (rc, abs_db h') \<and>
      lost h' = lost h1 + (if rc = kErrorConflict then 1 else 0)"
    if "heap_ok h1" "ht_map (h_keys h1) ?k = Some (ka, a)" for h1 ka a
  proof -
    from heap_ok_focus [OF that] obtain pre w post where f: "h_keys h1 = pre @ (w, (ka, a)) # post" "str_value w = ?k"
      "h_tabs h1 a = Some (the (h_tabs h1 a))" "field_ok h1 (the (h_tabs h1 a))" by metis
    from insert_fields_run [OF heap_okD(1) [OF that(1)] f(4,3), of lay vs] obtain rc h' ft' where
      r: "p_insert_fields lay a vs h1 = (Inr rc, h')"
        "field_run a h1 (the (h_tabs h1 a)) h' ft' (if rc = kErrorConflict then 1 else 0)"
        "insert_fields lay vs (abs_field h1 (the (h_tabs h1 a))) = (rc, abs_field h' ft')" by blast
    from record_run [OF that(1) f(1) r(2)] r(1,3) f(2) show ?thesis by auto
  qed
  show ?thesis
  proof (cases "ht_map (h_keys h) ?k")
    case None
    from new_record_run [OF ok None, of lay] obtain a ka h1 where n: "new_record lay ?k h = (Inr a, h1)" "heap_ok h1"
      "lost h1 = lost h" "ht_map (h_keys h1) ?k = Some (ka, a)" "the (h_tabs h1 a) = []"
      "abs_db h1 = snd (ht_Insert lay (Some ?k) [] (abs_db h))" by metis
    have "ht_Get ?k (abs_db h) = None" using None ok by (simp add: abs_db_Get abs_db_keys)
    with main [OF n(2,4)] n None ok show ?thesis
      by (auto simp: p_Insert_def hdb_Insert_def Let_def pt_Get_def abs_db_keys op_simps abs_field_def split: prod.splits)
  next
    case (Some x)
    then obtain ka a where x: "ht_map (h_keys h) ?k = Some (ka, a)" by (cases x) simp
    have "ht_Get ?k (abs_db h) = Some (abs_field h (the (h_tabs h a)))" using x ok by (simp add: abs_db_Get abs_db_keys)
    with main [OF ok x] x ok show ?thesis
      by (auto simp: p_Insert_def hdb_Insert_def Let_def pt_Get_def abs_db_keys op_simps split: prod.splits)
  qed
qed

lemma p_Update_run:
  assumes ok: "heap_ok h"
  shows "\<exists>rc h' n. p_Update lay t k vs h = (Inr rc, h') \<and> heap_ok h' \<and>
    hdb_Update lay t k vs (abs_db h) = (rc, abs_db h') \<and> lost h' = lost h + n \<and>
    (distinct (map (c_str \<circ> fst) vs) \<or> hdb_view (abs_db h) (hdb_idx t k) \<noteq> None \<longrightarrow> n = 0)"
proof (cases "ht_map (h_keys h) (hdb_idx t k)")
  case None
  from new_record_run [OF ok None, of lay] obtain a ka h1 where n: "new_record lay (hdb_idx t k) h = (Inr a, h1)" "heap_ok h1"
    "lost h1 = lost h" "ht_map (h_keys h1) (hdb_idx t k) = Some (ka, a)" "the (h_tabs h1 a) = []"
    "abs_db h1 = snd (ht_Insert lay (Some (hdb_idx t k)) [] (abs_db h))" by metis
  from heap_ok_focus [OF n(2,4)] obtain pre w post where f: "h_keys h1 = pre @ (w, (ka, a)) # post" "str_value w = hdb_idx t k"
    "h_tabs h1 a = Some []" "field_ok h1 []" using n(5) by metis
  from fill_fields_run [OF heap_okD(1) [OF n(2)] f(4,3), of lay vs] obtain h' ft' m where
    r: "p_fill_fields lay a vs h1 = (Inr (), h')" "field_run a h1 (the (h_tabs h1 a)) h' ft' m"
      "fill_fields lay vs (abs_field h1 []) = abs_field h' ft'" "distinct (map (c_str \<circ> fst) vs) \<longrightarrow> m = 0"
    using n(5) by auto
  have get: "ht_Get (hdb_idx t k) (abs_db h) = None" using None ok by (simp add: abs_db_Get abs_db_keys)
  have "ht_map (abs_db h) (hdb_idx t k) = None" using None by (simp add: ht_map_None abs_db_def)
  then have view: "hdb_view (abs_db h) (hdb_idx t k) = None" by (simp add: hdb_view_def)
  have run: "p_Update lay t k vs h = (Inr kOK, h')"
    using None ok n(1) r(1) by (simp add: p_Update_def pt_Get_def abs_db_keys op_simps flip: hdb_idx_def)
  have "hdb_Update lay t k vs (abs_db h) = (kOK, snd (ht_Update (hdb_idx t k) (fill_fields lay vs []) (abs_db h1)))"
    using get n(6) by (simp add: hdb_Update_def Let_def flip: hdb_idx_def)
  moreover have "abs_field h1 [] = []" by (simp add: abs_field_def)
  ultimately show ?thesis using run record_run [OF n(2) f(1) r(2)] r(3,4) n(3) view f(2)
    by (intro exI [of _ kOK] exI [of _ h'] exI [of _ m]) simp
next
  case (Some x)
  then obtain ka a where x: "ht_map (h_keys h) (hdb_idx t k) = Some (ka, a)" by (cases x) simp
  from heap_ok_focus [OF ok x] obtain pre w post where f: "h_keys h = pre @ (w, (ka, a)) # post" "str_value w = hdb_idx t k"
    "h_tabs h a = Some (the (h_tabs h a))" "field_ok h (the (h_tabs h a))" by metis
  from update_fields_run [OF heap_okD(1) [OF ok] f(4,3), of lay vs] obtain h' ft' where
    r: "p_update_fields lay a vs h = (Inr (), h')" "field_run a h (the (h_tabs h a)) h' ft' 0"
      "update_fields lay vs (abs_field h (the (h_tabs h a))) = abs_field h' ft'" by blast
  have get: "ht_Get (hdb_idx t k) (abs_db h) = Some (abs_field h (the (h_tabs h a)))"
    using x ok by (simp add: abs_db_Get abs_db_keys)
  have run: "p_Update lay t k vs h = (Inr kOK, h')"
    using x ok r(1) by (simp add: p_Update_def pt_Get_def abs_db_keys op_simps flip: hdb_idx_def)
  have "hdb_Update lay t k vs (abs_db h) =
      (kOK, snd (ht_Update (hdb_idx t k) (update_fields lay vs (abs_field h (the (h_tabs h a)))) (abs_db h)))"
    using get by (simp add: hdb_Update_def Let_def flip: hdb_idx_def)
  then show ?thesis using run record_run [OF ok f(1) r(2)] r(3) f(2)
    by (intro exI [of _ kOK] exI [of _ h'] exI [of _ 0]) simp
qed

end
