(* ===== verification/HeapLife.thy ===== *)
theory HeapLife
  imports HeapDB ClientSim
begin

text \<open>
  The rest of the life of the heap of \<open>lock_stl\<close>: the reads, which leave it alone, the releases in
  \<open>Delete\<close> and in the destructor, and the properties of all operations together: no bad access, the
  results of the value model \<open>HashtableDB\<close>, and how many blocks each operation loses.
\<close>

section \<open>Reading\<close>

lemma collectM_run:
  "(\<And>e. e \<in> set es \<Longrightarrow> f (pr e) h = (Inr (g e), h)) \<Longrightarrow> collectM f (map pr es) h = (Inr (map g es), h)"
  by (induction es) (simp_all add: op_simps)

lemma ht_Entries_elem:
  assumes "(k, ka, va) \<in> set (ht_Entries key n t)"
  obtains w where "k = str_value w" "(w, ka, va) \<in> set t"
  using assms
  by (auto simp: ht_Entries_def ht_find_def Let_def split: option.splits dest!: in_set_takeD set_dropWhileD)

definition val_fields :: "string list option \<Rightarrow> field_table \<Rightarrow> fieldvals" where
  "val_fields flds ft = (case flds of None \<Rightarrow> all_fields ft | Some fs \<Rightarrow> some_fields fs ft)"

lemma p_all_fields_run:
  assumes "field_ok h ft"
  shows "p_all_fields ft h = (Inr (all_fields (abs_field h ft)), h)"
proof -
  have "(\<lambda>(skey, a). bindM (read_string skey) (\<lambda>k. bindM (read_string a) (\<lambda>v. retM (k, v)))) (snd e) h =
      (Inr (apsnd (\<lambda>p. the (h_strs h (snd p))) e), h)" if "e \<in> set (ht_Entries None size_t_max ft)" for e
  proof -
    obtain k ka va where e: "e = (k, ka, va)" by (cases e) auto
    from that [unfolded e] obtain w where "k = str_value w" "(w, ka, va) \<in> set ft" by (rule ht_Entries_elem)
    then have "h_strs h ka = Some k" "h_strs h va \<noteq> None"
      using assms by (force simp: field_ok_def key_live_def)+
    with e show ?thesis by (auto simp: read_string_def op_simps)
  qed
  then have "p_all_fields ft h =
      (Inr (map (apsnd (\<lambda>p. the (h_strs h (snd p)))) (ht_Entries None size_t_max ft)), h)"
    unfolding p_all_fields_def pt_Entries_def by (rule collectM_run)
  then show ?thesis
    using ht_ops_vals(5) [of None size_t_max "\<lambda>p. the (h_strs h (snd p))" ft]
    by (simp add: all_fields_def abs_field_def)
qed

lemma p_some_fields_run:
  assumes "field_ok h ft"
  shows "p_some_fields fs ft h = (Inr (some_fields fs (abs_field h ft)), h)"
proof (induction fs)
  case (Cons f fs)
  have inv: "ht_inv ft" using assms by (simp add: field_ok_def)
  have get: "ht_Get (c_str f) (abs_field h ft) = map_option (\<lambda>p. the (h_strs h (snd p))) (ht_Get (c_str f) ft)"
    by (simp add: abs_field_def ht_ops_vals(1))
  show ?case
  proof (cases "ht_Get (c_str f) ft")
    case None
    with Cons get show ?thesis by (simp add: pt_Get_def some_fields_def map_filter_simps)
  next
    case (Some x)
    then obtain ka va where x: "ht_map ft (c_str f) = Some (ka, va)" using ht_Get_map [OF inv] by (cases x) simp
    then obtain w where "(w, ka, va) \<in> set ft" using ht_split [OF inv x] by (metis in_set_conv_decomp)
    then have "h_strs h va \<noteq> None" using assms by (force simp: field_ok_def)
    with Cons get x show ?thesis
      by (auto simp: pt_Get_def some_fields_def map_filter_simps ht_Get_map inv read_string_def op_simps)
  qed
qed (simp add: some_fields_def op_simps map_filter_simps)

lemma p_fields_run: "field_ok h ft \<Longrightarrow> p_fields flds ft h = (Inr (val_fields flds (abs_field h ft)), h)"
  by (simp add: p_fields_def val_fields_def p_all_fields_run p_some_fields_run split: option.split)

lemma p_Read_run:
  assumes ok: "heap_ok h"
  shows "p_Read t k flds result h = (Inr (hdb_Read t k flds result (abs_db h)), h)"
proof (cases "ht_map (h_keys h) (hdb_idx t k)")
  case None
  then show ?thesis
    by (simp add: p_Read_def hdb_Read_def pt_Get_def abs_db_Get abs_db_keys ok op_simps flip: hdb_idx_def)
next
  case (Some x)
  then obtain ka a where x: "ht_map (h_keys h) (hdb_idx t k) = Some (ka, a)" by (cases x) simp
  from heap_ok_focus [OF ok x] obtain ft where ft: "h_tabs h a = Some ft" "field_ok h ft" by metis
  with x p_fields_run [OF ft(2), of flds] show ?thesis
    by (simp add: p_Read_def hdb_Read_def pt_Get_def abs_db_Get abs_db_keys ok op_simps read_table_def val_fields_def
        flip: hdb_idx_def)
qed

lemma p_Scan_run:
  assumes ok: "heap_ok h"
  shows "p_Scan t k len flds h = (Inr (hdb_Scan t k len flds (abs_db h)), h)"
proof -
  let ?es = "ht_Entries (Some (hdb_idx t k)) (word_of_int len) (h_keys h)"
  have "(\<lambda>(_, a). bindM (read_table a) (p_fields flds)) (snd e) h =
      (Inr (val_fields flds (abs_field h (the (h_tabs h (snd (snd e)))))), h)" if "e \<in> set ?es" for e
  proof -
    obtain i ka a where e: "e = (i, ka, a)" by (cases e) auto
    from that [unfolded e] obtain w where "(w, ka, a) \<in> set (h_keys h)" by (rule ht_Entries_elem)
    from heap_okD(5) [OF ok this] obtain ft where ft: "h_tabs h a = Some ft" "field_ok h ft" by auto
    with e p_fields_run [OF ft(2), of flds] show ?thesis by (simp add: read_table_def op_simps)
  qed
  then have "collectM (\<lambda>(_, a). bindM (read_table a) (p_fields flds)) (map snd ?es) h =
      (Inr (map (\<lambda>e. val_fields flds (abs_field h (the (h_tabs h (snd (snd e)))))) ?es), h)"
    by (rule collectM_run)
  then show ?thesis
    using ht_ops_vals(5) [of "Some (hdb_idx t k)" "word_of_int len" "\<lambda>p. abs_field h (the (h_tabs h (snd p)))" "h_keys h"]
    by (simp add: p_Scan_def hdb_Scan_def pt_Entries_def op_simps abs_db_def split_beta val_fields_def o_def
        flip: hdb_idx_def)
qed

section \<open>Releasing\<close>

definition without :: "addr set \<Rightarrow> heap \<Rightarrow> heap" where
  "without A h = h\<lparr>h_strs := (h_strs h) |` (- A)\<rparr>"

lemma without_simps [simp]:
  "h_strs (without A h) = (h_strs h) |` (- A)" "h_tabs (without A h) = h_tabs h" "h_keys (without A h) = h_keys h"
  "h_next (without A h) = h_next h" "without A (without B h) = without (A \<union> B) h"
  by (simp_all add: without_def Compl_Un Int_commute)

lemma without_empty [simp]: "without {} h = h"
  by (simp add: without_def restrict_map_def)

lemma bounded_without [simp]: "bounded h \<Longrightarrow> bounded (without A h)"
  by (auto simp: bounded_def restrict_map_def)

lemma live_without:
  assumes "bounded h" and "A \<subseteq> dom (h_strs h)"
  shows "live (without A h) = live h - int (card A)"
proof -
  have "dom ((h_strs h) |` (- A)) = dom (h_strs h) - A" by (auto simp: restrict_map_def split: if_splits)
  moreover have "finite A" using finite_subset [OF assms(2) bounded_finite [OF assms(1)]] .
  ultimately show ?thesis
    using card_mono [OF bounded_finite [OF assms(1)] assms(2)] assms(2)
    by (simp add: live_def card_Diff_subset of_nat_diff)
qed

lemma delete_strings_run:
  "distinct as \<Longrightarrow> \<forall>a \<in> set as. h_strs h a \<noteq> None \<Longrightarrow> delete_strings as h = (Inr (), without (set as) h)"
proof (induction as arbitrary: h)
  case (Cons a as)
  have "h\<lparr>h_strs := (h_strs h)(a := None)\<rparr> = without {a} h"
    by (simp add: without_def restrict_map_def fun_eq_iff)
  then have "delete_string a h = (Inr (), without {a} h)" using Cons.prems(2) by (simp add: delete_string_def)
  moreover have "delete_strings as (without {a} h) = (Inr (), without (set as) (without {a} h))"
    using Cons.prems by (intro Cons.IH) (auto simp: restrict_map_def)
  ultimately show ?case by (simp add: op_simps Un_commute)
qed (simp add: op_simps)

definition value_blocks :: "addr ptable \<Rightarrow> addr set" where
  "value_blocks ft = set (map (snd \<circ> snd) ft)"

lemma field_values:
  assumes "field_ok h ft"
  shows "distinct (map (snd \<circ> snd) ft)" and "value_blocks ft \<subseteq> dom (h_strs h)" and "card (value_blocks ft) = length ft"
    and "value_blocks ft \<subseteq> set (field_blocks ft)"
proof -
  have "distinct (field_blocks ft)" using assms by (simp add: field_ok_def)
  then show d: "distinct (map (snd \<circ> snd) ft)"
    by (induction ft) (use field_blocks_set in \<open>fastforce+\<close>)
  show "value_blocks ft \<subseteq> dom (h_strs h)" using assms by (auto simp: field_ok_def value_blocks_def)
  show "card (value_blocks ft) = length ft" using distinct_card [OF d] by (simp add: value_blocks_def)
  show "value_blocks ft \<subseteq> set (field_blocks ft)" by (force simp: value_blocks_def field_blocks_set)
qed

text \<open>The blocks that \<open>DeleteFieldHashtable\<close> releases: all values, unless there are more than a listing returns.\<close>

definition listed_blocks :: "addr ptable \<Rightarrow> addr set" where
  "listed_blocks ft = set (map snd (pt_Entries None size_t_max ft))"

lemma pt_Entries_listed: "map snd (pt_Entries None size_t_max t) = take (unat size_t_max) (map (snd \<circ> snd) t)"
  by (simp add: pt_Entries_def ht_Entries_def take_map comp_def)

lemma pt_Entries_all:
  "length t < 2 ^ 64 \<Longrightarrow> map snd (pt_Entries None size_t_max t) = map (snd \<circ> snd) t"
  by (simp add: pt_Entries_def size_t_max_def ht_Entries_all o_def)

lemma listed_values:
  "listed_blocks ft \<subseteq> value_blocks ft" "length ft < 2 ^ 64 \<Longrightarrow> listed_blocks ft = value_blocks ft"
  by (simp_all only: listed_blocks_def value_blocks_def pt_Entries_listed set_take_subset)
    (simp add: pt_Entries_all flip: pt_Entries_listed)

lemma DeleteFieldHashtable_run:
  assumes "h_tabs h a = Some ft" and "field_ok h ft"
  shows "DeleteFieldHashtable a h = (Inr (), (without (listed_blocks ft) h)\<lparr>h_tabs := (h_tabs h)(a := None)\<rparr>)"
proof -
  have "delete_strings (map snd (pt_Entries None size_t_max ft)) h = (Inr (), without (listed_blocks ft) h)"
    unfolding listed_blocks_def
  proof (rule delete_strings_run)
    show "distinct (map snd (pt_Entries None size_t_max ft))"
      using field_values(1) [OF assms(2)] by (simp only: pt_Entries_listed distinct_take)
    show "\<forall>b \<in> set (map snd (pt_Entries None size_t_max ft)). h_strs h b \<noteq> None"
      using listed_values(1) [of ft] field_values(2) [OF assms(2)] unfolding listed_blocks_def by blast
  qed
  then show ?thesis using assms(1)
    by (simp add: DeleteFieldHashtable_def read_table_def delete_table_def bindM_def thenM_def)
qed

text \<open>A machine has no more than \<open>2^64\<close> blocks, so a table has fewer elements than a listing can return.\<close>

lemma field_length:
  assumes "bounded h" and "field_ok h ft" and "live h \<le> 2 ^ 64"
  shows "length ft < 2 ^ 64"
proof -
  have "set (field_blocks ft) \<subseteq> dom (h_strs h)" using field_ok_live [OF assms(2)] by auto
  from card_mono [OF bounded_finite [OF assms(1)] this] have "int (card (set (field_blocks ft))) \<le> live h"
    by (simp add: live_def)
  moreover have "card (set (field_blocks ft)) = length (field_blocks ft)"
    using assms(2) by (simp add: field_ok_def distinct_card)
  ultimately show ?thesis using assms(3) by (simp add: field_blocks_length)
qed

text \<open>A record taken out of the database with its key block and some blocks of its field table released.\<close>

lemma drop_record:
  assumes ok: "heap_ok h" and keys: "h_keys h = pre @ (w, (ka, a)) # post" and tab: "h_tabs h a = Some ft"
    and D: "D \<subseteq> set (field_blocks ft)"
    and h': "h' = (without (insert ka D) h)\<lparr>h_keys := pre @ post, h_tabs := (h_tabs h)(a := None)\<rparr>"
  shows "ka \<notin> set (field_blocks ft)" and "heap_ok h'"
    and "abs_db h' = map_vals (\<lambda>p. abs_field h (the (h_tabs h (snd p)))) (pre @ post)"
    and "lost h' = lost h + int (2 * length ft) - int (card D)"
proof -
  have own: "distinct (concat (map (record_blocks h) pre) @ (ka # field_blocks ft) @ concat (map (record_blocks h) post))"
    using heap_okD(3) [OF ok] by (simp add: owned_def keys record_blocks_def table_of_def tab)
  then show ka: "ka \<notin> set (field_blocks ft)" by auto
  have "h_tabs h' (snd (snd e)) = h_tabs h (snd (snd e)) \<and> (\<forall>b \<in> set (record_blocks h e). h_strs h' b = h_strs h b)"
    if "e \<in> set (pre @ post)" for e
  proof -
    have "snd (snd e) \<noteq> a" using heap_okD(4) [OF ok] that keys by force
    moreover have "set (record_blocks h e) \<inter> insert ka (set (field_blocks ft)) = {}" using own that by fastforce
    ultimately show ?thesis using D by (auto simp: h' restrict_map_def)
  qed
  moreover have "key_live h e \<and> field_ok h (table_of h e)" if "e \<in> set (pre @ post)" for e
    using heap_okD(5) [OF ok] that keys by auto
  ultimately have frame: "map (record_blocks h') (pre @ post) = map (record_blocks h) (pre @ post)"
      "\<forall>e \<in> set (pre @ post). key_live h' e \<and> field_ok h' (table_of h' e)"
      "map_vals (\<lambda>p. abs_field h' (the (h_tabs h' (snd p)))) (pre @ post) =
        map_vals (\<lambda>p. abs_field h (the (h_tabs h (snd p)))) (pre @ post)"
    using records_frame [of "pre @ post" h' h] by blast+
  then show "abs_db h' = map_vals (\<lambda>p. abs_field h (the (h_tabs h (snd p)))) (pre @ post)"
    unfolding abs_db_def by (simp add: h')
  have own': "owned h' = concat (map (record_blocks h) pre) @ concat (map (record_blocks h) post)"
    using arg_cong [OF frame(1), of concat] by (simp add: owned_def h' del: map_eq_conv)
  have "ht_inv (pre @ post)" "distinct (map (snd \<circ> snd) (pre @ post))"
    using heap_okD(2,4) [OF ok] keys by (auto simp: ht_inv_simps)
  moreover have "set (map (snd \<circ> snd) (pre @ post)) = dom (h_tabs h) - {a}"
    using ok keys heap_okD(4) [OF ok] unfolding heap_ok_def by auto
  then have "set (map (snd \<circ> snd) (h_keys h')) = dom (h_tabs h')" by (auto simp: h')
  moreover have "bounded h'" using heap_okD(1) [OF ok] by (auto simp: bounded_def restrict_map_def h')
  moreover have "distinct (owned h')" using own own' by auto
  ultimately show "heap_ok h'" using frame(2) by (simp add: heap_ok_def h')
  have e: "key_live h (w, (ka, a)) \<and> field_ok h ft" using heap_okD(5) [OF ok, of "(w, (ka, a))"] keys tab by simp
  then have "insert ka D \<subseteq> dom (h_strs h)" using field_ok_live [of h ft] D by (auto simp: key_live_def)
  then have "live h' = live h - int (card (insert ka D))"
    using live_without [OF heap_okD(1) [OF ok]] by (simp add: h' live_def)
  moreover have "card (insert ka D) = Suc (card D)"
    using ka D by (meson card_insert_disjoint finite_set finite_subset subsetD)
  ultimately show "lost h' = lost h + int (2 * length ft) - int (card D)"
    unfolding lost_def own' by (simp add: owned_def keys record_blocks_def table_of_def tab field_blocks_length)
qed

lemma p_Delete_absent:
  assumes ok: "heap_ok h" and "ht_map (h_keys h) (hdb_idx t k) = None"
  shows "p_Delete t k h = (Inr kErrorNoData, h)" and "hdb_Delete t k (abs_db h) = (kErrorNoData, abs_db h)"
    and "hdb_view (abs_db h) (hdb_idx t k) = None"
proof -
  have "ht_map (abs_db h) (hdb_idx t k) = None" using assms(2) by (simp add: ht_map_None abs_db_def)
  then show "hdb_view (abs_db h) (hdb_idx t k) = None" by (simp add: hdb_view_def)
  have rem: "ht_Remove (hdb_idx t k) (h_keys h) = (None, h_keys h)"
    using ht_find_cases [OF heap_okD(2) [OF ok] str_wf_set_value(2) [of "hdb_idx t k"]] assms(2)
    by (metis (no_types) ht_Remove_def list.case(1) not_None_eq str_value_simps(2))
  moreover have "ht_Remove (hdb_idx t k) (abs_db h) = (None, abs_db h)"
    using ht_ops_vals(4) [of "hdb_idx t k" "\<lambda>p. abs_field h (the (h_tabs h (snd p)))" "h_keys h"] rem
    by (simp add: abs_db_def)
  ultimately show "p_Delete t k h = (Inr kErrorNoData, h)" and "hdb_Delete t k (abs_db h) = (kErrorNoData, abs_db h)"
    by (simp_all add: p_Delete_def hdb_Delete_def pt_Remove_def op_simps flip: hdb_idx_def)
qed

text \<open>How many fields the record of an index has.\<close>

definition fields_at :: "string \<Rightarrow> key_table \<Rightarrow> nat" where
  "fields_at k db = (case ht_Get k db of None \<Rightarrow> 0 | Some ft \<Rightarrow> length ft)"

lemma p_Delete_run:
  assumes ok: "heap_ok h"
  shows "\<exists>rc h'. p_Delete t k h = (Inr rc, h') \<and> heap_ok h' \<and> hdb_Delete t k (abs_db h) = (rc, abs_db h') \<and>
    (live h \<le> 2 ^ 64 \<longrightarrow> lost h' = lost h + int (fields_at (hdb_idx t k) (abs_db h)))"
proof (cases "ht_map (h_keys h) (hdb_idx t k)")
  case None
  then have "fields_at (hdb_idx t k) (abs_db h) = 0" using ok by (simp add: fields_at_def abs_db_Get abs_db_keys)
  with ok p_Delete_absent [OF ok None] show ?thesis by simp
next
  case (Some x)
  then obtain ka a where x: "ht_map (h_keys h) (hdb_idx t k) = Some (ka, a)" by (cases x) simp
  from heap_ok_focus [OF ok x] obtain pre w post ft where f: "h_keys h = pre @ (w, (ka, a)) # post"
    "h_tabs h a = Some ft" "field_ok h ft" "key_live h (w, (ka, a))"
    "ht_Remove (hdb_idx t k) (h_keys h) = (Some (ka, a), pre @ post)" by metis
  have D: "listed_blocks ft \<subseteq> set (field_blocks ft)" using listed_values(1) field_values(4) [OF f(3)] by blast
  let ?h1 = "(without {ka} h)\<lparr>h_keys := pre @ post\<rparr>"
  let ?h = "(without (insert ka (listed_blocks ft)) h)\<lparr>h_keys := pre @ post, h_tabs := (h_tabs h)(a := None)\<rparr>"
  note r = drop_record [OF ok f(1,2) D refl]
  have "field_ok ?h1 ft" using field_ok_frame(1) [OF f(3), of ?h1] r(1) by (auto simp: restrict_map_def)
  moreover have "- insert ka (listed_blocks ft) = - {ka} \<inter> - listed_blocks ft" by auto
  ultimately have "DeleteFieldHashtable a ?h1 = (Inr (), ?h)"
    using DeleteFieldHashtable_run [of ?h1 a ft] f(2) by (simp add: without_def Int_commute)
  moreover have "delete_string ka h = (Inr (), without {ka} h)" using delete_strings_run [of "[ka]" h] f(4)
    by (auto simp: key_live_def thenM_def bindM_def retM_def split: prod.splits sum.splits)
  ultimately have run: "p_Delete t k h = (Inr kOK, ?h)"
    using f(5) by (simp add: p_Delete_def pt_Remove_def op_simps flip: hdb_idx_def)
  have rem: "hdb_Delete t k (abs_db h) = (kOK, abs_db ?h)"
    using ht_ops_vals(4) [of "hdb_idx t k" "\<lambda>p. abs_field h (the (h_tabs h (snd p)))" "h_keys h"] f(5) r(3)
    by (simp add: hdb_Delete_def abs_db_def flip: hdb_idx_def)
  have "fields_at (hdb_idx t k) (abs_db h) = length ft"
    using x ok f(2) by (simp add: fields_at_def abs_db_Get abs_db_keys abs_field_def)
  moreover have "card (listed_blocks ft) = length ft" if "live h \<le> 2 ^ 64"
    using listed_values(2) [OF field_length [OF heap_okD(1) [OF ok] f(3) that]] field_values(3) [OF f(3)] by simp
  ultimately show ?thesis using run rem r(2,4) by (intro exI [of _ kOK] exI [of _ ?h]) simp
qed

lemma delete_tables_run:
  assumes "distinct (map (snd \<circ> snd) es)" and "distinct (concat (map (record_blocks h) es))"
    and "\<forall>e \<in> set es. h_tabs h (snd (snd e)) = Some (table_of h e) \<and> field_ok h (table_of h e) \<and>
      length (table_of h e) < 2 ^ 64"
  shows "delete_tables (map (snd \<circ> snd) es) h =
    (Inr (), (without (\<Union>e \<in> set es. value_blocks (table_of h e)) h)
       \<lparr>h_tabs := (h_tabs h) |` (- set (map (snd \<circ> snd) es))\<rparr>)"
  using assms
proof (induction es arbitrary: h)
  case (Cons e es)
  let ?V = "value_blocks (table_of h e)" and ?a = "snd (snd e)"
  let ?h = "(without ?V h)\<lparr>h_tabs := (h_tabs h)(?a := None)\<rparr>"
  have first: "DeleteFieldHashtable ?a h = (Inr (), ?h)"
    using DeleteFieldHashtable_run [of h ?a "table_of h e"] listed_values(2) [of "table_of h e"] Cons.prems(3) by simp
  have V: "?V \<subseteq> set (record_blocks h e)"
    using field_values(4) [of h "table_of h e"] Cons.prems(3) by (auto simp: record_blocks_def)
  have same: "h_tabs ?h (snd (snd d)) = h_tabs h (snd (snd d)) \<and> (\<forall>b \<in> set (record_blocks h d). h_strs ?h b = h_strs h b)"
    if "d \<in> set es" for d
  proof -
    have "set (record_blocks h d) \<inter> ?V = {}" using Cons.prems(2) V that by fastforce
    moreover have "snd (snd d) \<noteq> ?a" using Cons.prems(1) that by (auto simp: image_iff)
    ultimately show ?thesis by (auto simp: restrict_map_def)
  qed
  have tab: "table_of ?h d = table_of h d \<and> record_blocks ?h d = record_blocks h d \<and>
      (field_ok h (table_of h d) \<longrightarrow> field_ok ?h (table_of ?h d))" if "d \<in> set es" for d
    using record_frame(1,2,4) [of ?h d h] same [OF that] by blast
  then have blocks: "map (record_blocks ?h) es = map (record_blocks h) es" by simp
  let ?U = "\<Union>d \<in> set es. value_blocks (table_of h d)" and ?T = "set (map (snd \<circ> snd) es)"
  have "delete_tables (map (snd \<circ> snd) es) ?h =
    (Inr (), (without (\<Union>d \<in> set es. value_blocks (table_of ?h d)) ?h)\<lparr>h_tabs := (h_tabs ?h) |` (- ?T)\<rparr>)"
  proof (rule Cons.IH)
    show "distinct (concat (map (record_blocks ?h) es))" using Cons.prems(2) by (simp add: blocks)
    show "\<forall>d \<in> set es. h_tabs ?h (snd (snd d)) = Some (table_of ?h d) \<and> field_ok ?h (table_of ?h d) \<and>
        length (table_of ?h d) < 2 ^ 64"
      using Cons.prems(3) same tab by (metis list.set_intros(2))
  qed (use Cons.prems(1) in simp)
  moreover have "(\<Union>d \<in> set es. value_blocks (table_of ?h d)) = ?U"
    using tab by (intro SUP_cong) simp_all
  moreover have "((h_tabs h)(?a := None)) |` (- ?T) = (h_tabs h) |` (- insert ?a ?T)"
    by (auto simp: restrict_map_def fun_eq_iff)
  then have "(without ?U ?h)\<lparr>h_tabs := (h_tabs ?h) |` (- ?T)\<rparr> =
      (without (?V \<union> ?U) h)\<lparr>h_tabs := (h_tabs h) |` (- insert ?a ?T)\<rparr>"
    by (simp add: without_def Int_commute)
  ultimately show ?case using thenM_Inr [where m = "DeleteFieldHashtable ?a" and n = "delete_tables (map (snd \<circ> snd) es)", OF first]
    by (simp add: comp_def del: without_simps)
qed (simp add: op_simps restrict_map_def)

text \<open>All values of the database, and how many fields it has.\<close>

definition all_values :: "heap \<Rightarrow> addr list" where
  "all_values h = concat (map (\<lambda>e. map (snd \<circ> snd) (table_of h e)) (h_keys h))"

definition field_count :: "key_table \<Rightarrow> nat" where
  "field_count db = sum_list (map (\<lambda>e. length (snd e)) db)"

lemma all_values:
  assumes ok: "heap_ok h"
  shows "distinct (all_values h)" and "set (all_values h) \<subseteq> dom (h_strs h)"
    and "length (all_values h) = field_count (abs_db h)"
    and "length (owned h) = length (h_keys h) + 2 * field_count (abs_db h)"
    and "set (all_values h) = (\<Union>e \<in> set (h_keys h). value_blocks (table_of h e))"
proof -
  have "distinct (concat (map (\<lambda>e. map (snd \<circ> snd) (table_of h e)) es))"
    if "distinct (concat (map (record_blocks h) es))" "\<forall>e \<in> set es. field_ok h (table_of h e)" for es
    using that
  proof (induction es)
    case (Cons e es)
    have sub: "value_blocks (table_of h d) \<subseteq> set (record_blocks h d)" if "d \<in> set (e # es)" for d
      using field_values(4) [of h "table_of h d"] Cons.prems(2) that by (auto simp: record_blocks_def)
    have "value_blocks (table_of h e) \<inter> value_blocks (table_of h d) = {}" if "d \<in> set es" for d
      using sub [of d] sub [of e] Cons.prems(1) that by fastforce
    then have "set (map (snd \<circ> snd) (table_of h e)) \<inter> set (concat (map (\<lambda>e. map (snd \<circ> snd) (table_of h e)) es)) = {}"
      by (simp add: value_blocks_def disjoint_iff)
    moreover have "distinct (concat (map (\<lambda>e. map (snd \<circ> snd) (table_of h e)) es))"
      using Cons.prems by (intro Cons.IH) simp_all
    moreover have "distinct (map (snd \<circ> snd) (table_of h e))" using Cons.prems(2) by (intro field_values(1) [of h]) simp
    ultimately show ?case by (simp only: list.map concat.simps distinct_append)
  qed simp
  then show "distinct (all_values h)" using heap_okD(3,5) [OF ok] by (simp add: all_values_def owned_def)
  show union: "set (all_values h) = (\<Union>e \<in> set (h_keys h). value_blocks (table_of h e))"
    by (simp add: all_values_def value_blocks_def)
  show "set (all_values h) \<subseteq> dom (h_strs h)"
    unfolding union using field_values(2) heap_okD(5) [OF ok] by blast
  show "length (all_values h) = field_count (abs_db h)"
    by (simp add: all_values_def field_count_def abs_db_def abs_field_def length_concat comp_def table_of_def map_vals_def)
  have "length (owned h) = sum_list (map (\<lambda>e. 1 + 2 * length (table_of h e)) (h_keys h))"
    by (simp add: owned_def length_concat comp_def record_blocks_def field_blocks_length)
  also have "sum_list (map (\<lambda>e. 1 + 2 * length (table_of h e)) es) = length es + 2 * sum_list (map (\<lambda>e. length (table_of h e)) es)"
    for es by (induction es) simp_all
  also have "sum_list (map (\<lambda>e. length (table_of h e)) (h_keys h)) = field_count (abs_db h)"
    by (simp add: field_count_def abs_db_def abs_field_def comp_def table_of_def map_vals_def)
  finally show "length (owned h) = length (h_keys h) + 2 * field_count (abs_db h)" .
qed

lemma key_count: "heap_ok h \<Longrightarrow> int (length (h_keys h)) \<le> live h"
proof -
  assume ok: "heap_ok h"
  have "set (owned h) \<subseteq> dom (h_strs h)"
    using record_live heap_okD(5) [OF ok] unfolding owned_def by fastforce
  from card_mono [OF bounded_finite [OF heap_okD(1) [OF ok]] this] show ?thesis
    using all_values(4) [OF ok] heap_okD(3) [OF ok] by (simp add: live_def distinct_card)
qed

lemma p_destroy_run:
  assumes ok: "heap_ok h" and space: "live h < 2 ^ 64"
  shows "\<exists>h'. p_destroy h = (Inr (), h') \<and> heap_ok h' \<and> h_tabs h' = Map.empty \<and> abs_db h' = [] \<and>
    live h' = lost h + int (length (abs_db h) + field_count (abs_db h))"
proof -
  let ?h = "(without (set (all_values h)) h)\<lparr>h_tabs := (h_tabs h) |` (- set (map (snd \<circ> snd) (h_keys h))), h_keys := []\<rparr>"
  note D = heap_okD [OF ok]
  have "length (table_of h e) < 2 ^ 64" if "e \<in> set (h_keys h)" for e
    using field_length [OF D(1) _ less_imp_le [OF space]] D(5) [OF that] by blast
  then have "delete_tables (map (snd \<circ> snd) (h_keys h)) h =
      (Inr (), (without (set (all_values h)) h)\<lparr>h_tabs := (h_tabs h) |` (- set (map (snd \<circ> snd) (h_keys h)))\<rparr>)"
    unfolding all_values(5) [OF ok] using D by (intro delete_tables_run) (simp_all add: owned_def)
  moreover have "int (length (h_keys h)) < 2 ^ 64" using key_count [OF ok] space by simp
  then have "length (h_keys h) < 2 ^ 64" by simp
  ultimately have run: "p_destroy h = (Inr (), ?h)"
    using pt_Entries_all [of "h_keys h"] by (simp add: p_destroy_def op_simps del: set_map without_simps)
  have tabs: "h_tabs ?h = Map.empty"
    using ok unfolding heap_ok_def by (auto simp: restrict_map_def fun_eq_iff)
  have "bounded ?h" using D(1) by (auto simp: bounded_def restrict_map_def)
  with tabs have "heap_ok ?h" by (simp add: heap_ok_def owned_def)
  moreover have "live ?h = live (without (set (all_values h)) h)" by (simp add: live_def)
  then have "live ?h = lost h + int (length (abs_db h) + field_count (abs_db h))"
    using live_without [OF D(1) all_values(2) [OF ok]] all_values(1,3,4) [OF ok]
    by (simp add: distinct_card lost_def abs_db_def)
  ultimately show ?thesis using run tabs by (intro exI [of _ ?h]) (simp add: abs_db_def)
qed

section \<open>The backend on the heap\<close>

text \<open>The constructor of \<open>LockStlDB\<close>: an empty key table and no blocks.\<close>

definition new_heap :: heap where
  "new_heap = \<lparr>h_next = 0, h_strs = Map.empty, h_tabs = Map.empty, h_keys = []\<rparr>"

definition heap_db_ops :: "layout \<Rightarrow> heap db_ops" where
  "heap_db_ops lay = \<lparr>
     op_Read = p_Read,
     op_Scan = (\<lambda>table key len flds result. p_Scan table key len flds),
     op_Update = p_Update lay,
     op_Insert = p_Insert lay,
     op_Delete = p_Delete\<rparr>"

lemma new_heap_ok [simp]: "heap_ok new_heap" "abs_db new_heap = []" "lost new_heap = 0"
  by (simp_all add: new_heap_def heap_ok_def abs_db_def lost_def live_def owned_def bounded_def ht_inv_simps)

text \<open>A heap stands for a database when it is well formed and the value model holds what it stores.\<close>

definition stands_for :: "heap \<Rightarrow> key_table \<Rightarrow> bool" where
  "stands_for h db \<longleftrightarrow> heap_ok h \<and> abs_db h = db"

lemma heap_ops_same:
  assumes "stands_for h db"
  shows "same_outcome stands_for (op_Read (heap_db_ops lay) t k flds result h) (op_Read (stl_db_ops lay) t k flds result db)"
    and "same_outcome stands_for (op_Scan (heap_db_ops lay) t k len flds rows h) (op_Scan (stl_db_ops lay) t k len flds rows db)"
    and "same_outcome stands_for (op_Update (heap_db_ops lay) t k vs h) (op_Update (stl_db_ops lay) t k vs db)"
    and "same_outcome stands_for (op_Insert (heap_db_ops lay) t k vs h) (op_Insert (stl_db_ops lay) t k vs db)"
    and "same_outcome stands_for (op_Delete (heap_db_ops lay) t k h) (op_Delete (stl_db_ops lay) t k db)"
proof -
  have ok: "heap_ok h" "abs_db h = db" using assms by (simp_all add: stands_for_def)
  show "same_outcome stands_for (op_Read (heap_db_ops lay) t k flds result h) (op_Read (stl_db_ops lay) t k flds result db)"
    and "same_outcome stands_for (op_Scan (heap_db_ops lay) t k len flds rows h) (op_Scan (stl_db_ops lay) t k len flds rows db)"
    using ok by (simp_all add: heap_db_ops_def stl_db_ops_def same_outcome_def p_Read_run p_Scan_run stands_for_def)
  show "same_outcome stands_for (op_Update (heap_db_ops lay) t k vs h) (op_Update (stl_db_ops lay) t k vs db)"
    using p_Update_run [OF ok(1), of lay t k vs] ok(2)
    by (auto simp: heap_db_ops_def stl_db_ops_def same_outcome_def stands_for_def)
  show "same_outcome stands_for (op_Insert (heap_db_ops lay) t k vs h) (op_Insert (stl_db_ops lay) t k vs db)"
    using p_Insert_run [OF ok(1), of lay t k vs] ok(2)
    by (auto simp: heap_db_ops_def stl_db_ops_def same_outcome_def stands_for_def)
  show "same_outcome stands_for (op_Delete (heap_db_ops lay) t k h) (op_Delete (stl_db_ops lay) t k db)"
    using p_Delete_run [OF ok(1), of t k] ok(2)
    by (auto simp: heap_db_ops_def stl_db_ops_def same_outcome_def stands_for_def)
qed

interpretation heap_pair: backend_pair stands_for "heap_db_ops lay" "stl_db_ops lay" for lay
  by unfold_locales (rule heap_ops_same, assumption)+

text \<open>The heap after a first insert, on which the witnesses evaluate: three blocks, none of them lost.\<close>

definition one_record :: heap where
  "one_record = snd (p_Insert (\<lambda>_ _. 0) ''t'' ''k'' [(''a'', ''1'')] new_heap)"

lemma one_record:
  "heap_ok one_record" "abs_db one_record = [(Copy ''tk'', [(Copy ''a'', ''1'')])]" "lost one_record = 0"
  "live one_record = 3"
proof -
  have "hdb_Insert (\<lambda>_ _. 0) ''t'' ''k'' [(''a'', ''1'')] [] = (kOK, [(Copy ''tk'', [(Copy ''a'', ''1'')])])"
    by code_simp
  with p_Insert_run [OF new_heap_ok(1), of "\<lambda>_ _. 0" "''t''" "''k''" "[(''a'', ''1'')]"]
  show o: "heap_ok one_record" "abs_db one_record = [(Copy ''tk'', [(Copy ''a'', ''1'')])]" "lost one_record = 0"
    by (auto simp: one_record_def)
  have "length (h_keys one_record) = length (abs_db one_record)" by (simp add: abs_db_def)
  then have "length (owned one_record) = 3"
    unfolding all_values(4) [OF o(1)] by (simp add: o(2) field_count_def)
  with o(3) show "live one_record = 3" by (simp add: lost_def)
qed

text \<open>
  C11: The in-memory backend manages its memory safely. Whatever turns a client takes on it, no turn ever
  reads, writes or releases a block that is not allocated: its results are those of the tables as values,
  which know no addresses, and afterwards every element still has its own allocated key, value and table.
\<close>

theorem heap_client_safe:
  assumes "wl_typed fp p (c_wl c)" and "string_ok (wl_table (c_wl c))" and "heap_ok (c_db c)"
  shows "\<exists>r d. client_loop (turn fp fuel (heap_db_ops lay) is_loading) k oks c = (r, d) \<and> heap_ok (c_db d) \<and>
    client_loop (turn fp fuel (stl_db_ops lay) is_loading) k oks
      \<lparr>c_wl = c_wl c, c_env = c_env c, c_db = abs_db (c_db c)\<rparr> =
    (r, \<lparr>c_wl = c_wl d, c_env = c_env d, c_db = abs_db (c_db d)\<rparr>)"
proof -
  let ?c' = "\<lparr>c_wl = c_wl c, c_env = c_env c, c_db = abs_db (c_db c)\<rparr>"
  have R: "stands_for (c_db c) (c_db ?c')" using assms(3) by (simp add: stands_for_def)
  obtain r d d' where "client_loop (turn fp fuel (heap_db_ops lay) is_loading) k oks c = (r, d)"
    "client_loop (turn fp fuel (stl_db_ops lay) is_loading) k oks ?c' = (r, d')"
    "c_wl d' = c_wl d" "c_env d' = c_env d" "stands_for (c_db d) (c_db d')"
    by (rule heap_pair.client_run [OF wl_typed_small [OF assms(1,2)] _ _ R]) auto
  then show ?thesis by (intro exI [of _ r] exI [of _ d]) (simp add: stands_for_def)
qed

theorem heap_client_safe_witness:
  "\<exists>w r d. Init toy_fp (sconst 7) toy_props toy_env = (Inr w, toy_env) \<and>
     client_loop (turn toy_fp 1 (heap_db_ops (\<lambda>_ _. 0)) False) 2 0
       \<lparr>c_wl = w, c_env = toy_env, c_db = one_record\<rparr> = (r, d) \<and> heap_ok (c_db d)"
proof -
  obtain w where w: "Init toy_fp (sconst 7) toy_props toy_env = (Inr w, toy_env)" "wl_typed toy_fp toy_props w"
    using toy_typed by blast
  then have "string_ok (wl_table w)"
    by (simp add: wl_typed_def toy_props_def GetProperty_def string_ok_def)
  with w show ?thesis
    using heap_client_safe [of toy_fp toy_props "\<lparr>c_wl = w, c_env = toy_env, c_db = one_record\<rparr>" 1 "\<lambda>_ _. 0" False 2 0]
      one_record(1) by auto
qed

text \<open>
  C34: How many blocks each operation loses. An insert loses one exactly when it reports a conflict (the copy
  of the refused key), an update loses none when the record exists or the field names differ, and a
  delete loses one for every field of the record, because nothing releases the keys of a field table.
\<close>

theorem heap_blocks_lost:
  assumes "heap_ok h"
  shows "lost (snd (p_Insert lay t k vs h)) =
      lost h + (if fst (p_Insert lay t k vs h) = Inr kErrorConflict then 1 else 0) \<and>
    (distinct (map (c_str \<circ> fst) vs) \<or> hdb_view (abs_db h) (hdb_idx t k) \<noteq> None \<longrightarrow>
      lost (snd (p_Update lay t k vs h)) = lost h) \<and>
    (live h \<le> 2 ^ 64 \<longrightarrow> lost (snd (p_Delete t k h)) = lost h + int (fields_at (hdb_idx t k) (abs_db h)))"
  using p_Insert_run [OF assms, of lay t k vs] p_Update_run [OF assms, of lay t k vs] p_Delete_run [OF assms, of t k]
  by fastforce

theorem heap_blocks_lost_witness:
  "lost (snd (p_Insert (\<lambda>_ _. 0) ''t'' ''k'' [(''a'', ''9'')] one_record)) = 1 \<and>
   lost (snd (p_Delete ''t'' ''k'' one_record)) = 1"
proof -
  have "hdb_Insert (\<lambda>_ _. 0) ''t'' ''k'' [(''a'', ''9'')] (abs_db one_record) = (kErrorConflict, abs_db one_record)"
    unfolding one_record(2) by code_simp
  then have "fst (p_Insert (\<lambda>_ _. 0) ''t'' ''k'' [(''a'', ''9'')] one_record) = Inr kErrorConflict"
    using p_Insert_run [OF one_record(1), of "\<lambda>_ _. 0" "''t''" "''k''" "[(''a'', ''9'')]"] by auto
  moreover have "fields_at (hdb_idx ''t'' ''k'') (abs_db one_record) = 1"
    unfolding one_record(2) by code_simp
  ultimately show ?thesis
    using heap_blocks_lost [OF one_record(1), of "\<lambda>_ _. 0" "''t''" "''k''" "[(''a'', ''9'')]"] one_record(3,4) by simp
qed



end
