(* ===== verification/SqlScan.thy ===== *)
theory SqlScan
  imports SqlLife
begin

text \<open>
  Scans of the SQLite backend on a library that keeps its promises: the range query is stepped until it ends,
  and its rows are those of a set of keys from the start key on. The query has no \<open>ORDER BY\<close>, so the promises
  leave open which keys a limit keeps and in which order they come.
\<close>

section \<open>The rows of a scan\<close>

text \<open>
  What \<open>Scan\<close> makes of one row: the pairs that the vector is constructed with, and the wanted columns behind
  them. A row can be read when no wanted column is NULL.
\<close>

definition scan_row :: "string list option \<Rightarrow> shown_row \<Rightarrow> fieldvals" where
  "scan_row flds row =
     replicate (case flds of None \<Rightarrow> length row | Some fs \<Rightarrow> length fs) ([], []) @
     column_pairs (wanted_columns flds row)"

definition readable :: "string list option \<Rightarrow> shown_row \<Rightarrow> bool" where
  "readable flds row \<longleftrightarrow> (\<forall>c \<in> set row. c_str (fst c) = fst c \<and> (wanted flds (fst c) \<longrightarrow> snd c \<noteq> None))"

lemma readable_wanted: "readable flds row \<Longrightarrow> \<not> (\<exists>c \<in> set (wanted_columns flds row). snd c = None)"
  by (auto simp: readable_def wanted_columns_def)

lemma readable_result_row:
  assumes "clean_table (cols, rows)" and "rows k = Some r" and "\<forall>c \<in> set cols. wanted flds c \<longrightarrow> r c \<noteq> None"
  shows "readable flds (result_row cols k r)"
proof -
  have "c_str key_column = key_column" by (simp add: key_column_def c_str_def)
  then show ?thesis using assms by (auto simp: readable_def result_row_def clean_table_def)
qed

text \<open>The next step of the statement is about to show the rows \<open>rs\<close>.\<close>

definition steps_to ::
  "'w sqlite \<Rightarrow> ('w \<Rightarrow> sql_view) \<Rightarrow> nat \<Rightarrow> prepared \<Rightarrow> shown_row list \<Rightarrow> 'w sql_ctx \<Rightarrow> bool" where
  "steps_to api view p st rs s \<longleftrightarrow> (\<exists>rc w. sq_step api p (lib s) = (rc, w) \<and> step_code (run_of rs) rc \<and>
     view w = put_stmt p (st\<lparr>ps_run := run_of rs\<rparr>) (view (lib s)))"

context sqlite_contract
begin

lemma limit_run:
  assumes "in_use view bad sql p st T s" and "ps_run st = Ready" and "ps_stmt st = SelectRange t"
  obtains s' where "bind_int api p 2 n s = (Inr (), s')" "in_use view bad sql p (st\<lparr>ps_limit := Some n\<rparr>) T s'"
proof -
  have "sv_stmts (view (lib s)) p = Some st" using assms(1) by (simp add: in_use_def)
  from limits [OF this assms(2,3)] obtain w where w: "sq_bind_int api p 2 n (lib s) = (SQLITE_OK, w)"
    "view w = put_stmt p (st\<lparr>ps_limit := Some n\<rparr>) (view (lib s))" by blast
  have "view (lib s)\<lparr>sv_tables := T\<rparr> = view (lib s)" using assms(1) by (simp add: in_use_def flip: sql_view.surjective)
  with w in_use_step [OF assms(1), of w _ T] in_use_clean [OF assms(1)] show ?thesis
    by (intro that [of "s\<lparr>lib := w\<rparr>"]) (simp_all add: bind_int_def bindM_def call_lib_def op_run)
qed

lemma step_shown:
  assumes "steps_to api view p st rs s" and "in_use view bad sql p st T s"
  obtains rc w where "sq_step api p (lib s) = (rc, w)" "step_code (run_of rs) rc"
    "in_use view bad sql p (st\<lparr>ps_run := run_of rs\<rparr>) T (s\<lparr>lib := w\<rparr>)"
proof -
  obtain rc w where w: "sq_step api p (lib s) = (rc, w)" "step_code (run_of rs) rc"
    "view w = put_stmt p (st\<lparr>ps_run := run_of rs\<rparr>) (view (lib s))" using assms(1) by (auto simp: steps_to_def)
  have "view (lib s)\<lparr>sv_tables := T\<rparr> = view (lib s)" using assms(2) by (simp add: in_use_def flip: sql_view.surjective)
  with w in_use_step [OF assms(2), of w _ T] in_use_clean [OF assms(2)] show ?thesis by (intro that [of rc w]) simp_all
qed

lemma scan_loop_run:
  assumes "steps_to api view p st rs s" and "in_use view bad sql p st T s" and "\<forall>row \<in> set rs. readable flds row"
    and "length rs < fuel"
  shows "\<exists>s'. scan_rows fuel api p flds rv result s =
      (Inr (if rs = [] then rv else kOK, result @ map (scan_row flds) rs), s') \<and>
    in_use view bad sql p (st\<lparr>ps_run := Ended\<rparr>) T s'"
  using assms
proof (induction rs arbitrary: st s fuel rv result)
  case Nil
  then obtain n where n: "fuel = Suc n" by (cases fuel) auto
  obtain rc w where w: "sq_step api p (lib s) = (rc, w)" "step_code Ended rc"
    "in_use view bad sql p (st\<lparr>ps_run := Ended\<rparr>) T (s\<lparr>lib := w\<rparr>)"
    using step_shown [OF Nil(1,2)] by auto
  then show ?case by (simp add: n bindM_def call_lib_def op_run)
next
  case (Cons row rs)
  then obtain n where n: "fuel = Suc n" "length rs < n" by (cases fuel) auto
  let ?st = "st\<lparr>ps_run := AtRow row rs\<rparr>"
  obtain rc w where w: "sq_step api p (lib s) = (rc, w)" "step_code (AtRow row rs) rc"
    "in_use view bad sql p ?st T (s\<lparr>lib := w\<rparr>)"
    using step_shown [OF Cons.prems(1,2)] by auto
  let ?s = "s\<lparr>lib := w\<rparr>"
  have at: "sv_stmts (view (lib ?s)) p = Some ?st" using w(3) by (simp add: in_use_def)
  have row: "readable flds row" using Cons.prems(3) by simp
  have shown: "row_columns api p 0 (sq_data_count api p w) w = row"
    using row_shown [OF w(3)] row by (simp add: readable_def)
  have count: "sq_data_count api p w = length row" using shows_row [OF at, of row rs] by simp
  have next_step: "steps_to api view p ?st rs ?s" using advances [OF at, of row rs] by (simp add: steps_to_def)
  have rest: "\<forall>row \<in> set rs. readable flds row" using Cons.prems(3) by simp
  obtain s' where s':
    "scan_rows n api p flds kOK (result @ [scan_row flds row]) ?s = (Inr (kOK, (result @ [scan_row flds row]) @ map (scan_row flds) rs), s')"
    "in_use view bad sql p (?st\<lparr>ps_run := Ended\<rparr>) T s'"
    using Cons.IH [OF next_step w(3) rest n(2), of kOK "result @ [scan_row flds row]"] by (simp split: if_splits) blast+
  have "read_columns api p flds 0 (length row) (replicate (case flds of None \<Rightarrow> length row | Some fs \<Rightarrow> length fs) ([], [])) ?s =
      (Inr (scan_row flds row), ?s)"
    using readable_wanted [OF row] shown count by (simp add: read_columns_run scan_row_def Let_def del: bex_simps)
  then have "scan_rows fuel api p flds rv result s = scan_rows n api p flds kOK (result @ [scan_row flds row]) ?s"
    using w(1,2) script_codes(1) count by (simp add: n(1) bindM_def call_lib_def ask_lib_def op_run cong: option.case_cong)
  with s' show ?case by simp
qed

lemma scan_run:
  assumes ok: "ctx_ok view bad s" and sql: "scan_sql api t \<notin> bad" "sql_string (scan_sql api t)"
    and table: "tables_of view s (c_str t) = Some (cols, rows)" and k: "sql_string k"
    and filled: "\<forall>k' r. rows k' = Some r \<and> k \<le> k' \<longrightarrow> (\<forall>c \<in> set cols. wanted flds c \<longrightarrow> r c \<noteq> None)"
    and fuel: "card (keys_from k rows) < fuel"
  shows "\<exists>ks s'. range_keys rows k len ks \<and> sql_Scan fuel api t k len flds result s =
      (Inr (if ks = [] then kErrorNoData else kOK, result @ map (scan_row flds) (range_rows cols rows ks)), s') \<and>
    ctx_ok view bad s' \<and> tables_of view s' = tables_of view s"
proof -
  let ?T = "tables_of view s" and ?sql = "scan_sql api t" and ?c = "SelectRange (c_str t)"
  have tb: "clean_table (cols, rows)" using ok table by (auto simp: ctx_ok_def clean_def)
  have stmt: "stmt_ok ?T ?c" using table by (simp add: columns_of_def)
  obtain p st s1 where get: "get_stmt api ?sql ''Failed to prepare scan statement'' s = (Inr p, s1)"
    "in_use view bad ?sql p st ?T s1" "ps_stmt st = ?c" "ps_run st = Ready"
    by (rule get_stmt_run [OF ok sql(1) parse_scan [OF quoting] sql(2) _ stmt]) simp_all
  let ?st = "st\<lparr>ps_binds := (ps_binds st)(1 \<mapsto> k)\<rparr>"
  obtain s2 where key: "bind_string api p 1 k s1 = (Inr (), s2)" "in_use view bad ?sql p ?st ?T s2"
    by (rule bind_run [OF get(2,4) k, of 1]) (simp_all add: get(3))
  let ?st' = "?st\<lparr>ps_limit := Some len\<rparr>"
  obtain s3 where lim: "bind_int api p 2 len s2 = (Inr (), s3)" "in_use view bad ?sql p ?st' ?T s3"
    by (rule limit_run [OF key(2), of "c_str t" len]) (simp_all add: get(3,4))
  have at: "sv_stmts (view (lib s3)) p = Some ?st'" "tables_of view s3 (c_str t) = Some (cols, rows)"
    using lim(2) table by (simp_all add: in_use_def)
  have "finite (dom rows)" using tb by (simp add: clean_table_def)
  from ranges [OF at(1) _ _ _ _ at(2) this, of k len] obtain ks rc w where ks: "range_keys rows k len ks"
    "sq_step api p (lib s3) = (rc, w)" "step_code (run_of (range_rows cols rows ks)) rc"
    "view w = put_stmt p (?st'\<lparr>ps_run := run_of (range_rows cols rows ks)\<rparr>) (view (lib s3))"
    using get(3,4) by (auto simp: bound_def)
  have go: "steps_to api view p ?st' (range_rows cols rows ks) s3" using ks(2-4) by (simp add: steps_to_def)
  have "length (range_rows cols rows ks) < fuel"
    using ks(1) fuel by (auto simp: range_keys_def range_rows_def split: if_splits)
  moreover have "\<forall>row \<in> set (range_rows cols rows ks). readable flds row"
    using ks(1) filled readable_result_row [OF tb] by (fastforce simp: range_rows_def range_keys_def keys_from_def)
  ultimately obtain s4 where s4: "scan_rows fuel api p flds kErrorNoData result s3 =
      (Inr (if range_rows cols rows ks = [] then kErrorNoData else kOK, result @ map (scan_row flds) (range_rows cols rows ks)), s4)"
    "in_use view bad ?sql p (?st'\<lparr>ps_run := Ended\<rparr>) ?T s4"
    using scan_loop_run [OF go lim(2)] by blast
  obtain s5 where "finish_stmt api p s4 = (Inr (), s5)" "ctx_ok view bad s5" "tables_of view s5 = ?T"
    by (rule finish_run [OF s4(2)]) simp_all
  with ks(1) get(1) key(1) lim(1) s4(1) show ?thesis
    by (intro exI [of _ ks] exI [of _ s5]) (simp add: sql_Scan_def op_simps range_rows_def)
qed

end



end
