(* ===== verification/Spec2Isabelle.thy ===== *)
theory Spec2Isabelle
  imports Program IpcClient Servers ShmMany HeapLife SqlScan
begin

text \<open>
  YCSB-C-L4 is a port of the YCSB key-value benchmark to the L4Re system. A driver starts client
  threads; each client draws operations, keys and values from a workload and calls a database
  backend through one interface (\<open>DB\<close>). Five backends exist: one that prints, a hash table under a
  lock, SQLite linked in, and SQLite in another task, reached either by IPC calls or by polling two
  shared pages. All paths below are under \<open>src/server\<close>.

  \<^bold>\<open>Conventions.\<close> Code that can fail or changes state is an \<open>op\<close>: a function from a state to a result
  and the next state, the result being \<open>Inl\<close> of a \<open>fault\<close> (an exception, a failed assertion, the end
  of the process) or \<open>Inr\<close> of a value (\<open>Prelude\<close>). \<open>uint64_t\<close>, \<open>size_t\<close> and addresses are 64-bit
  words; an \<open>int\<close> is an \<open>int\<close> whose range is written out where it matters; a \<open>std::string\<close> is a list
  of characters, and \<open>c_str\<close> cuts it where C code would. What the code calls and this repository does
  not contain is an argument: floating-point arithmetic (record \<open>fp\<close>, of which nothing is assumed),
  the random engines (streams), the SQLite API (record \<open>sqlite\<close>), the kernel's return codes.

  \<^bold>\<open>Theories.\<close>
  \<^item> \<open>CoreUtils\<close>: \<open>ycsbc-l4/core/utils.h\<close>, the FNV hash, \<open>StrToBool\<close>, \<open>Trim\<close>. Every round of the hash is
    a bijection of the running value.
  \<^item> \<open>Properties\<close>: \<open>core/properties.h\<close>. The file parser against its specification as the assignments of
    the lines (C38), and printing followed by parsing.
  \<^item> \<open>Memory\<close>, \<open>Serializer\<close>: byte memory with wrapping addresses, and \<open>include/serializer.h\<close> with
    \<open>lib/serializer/serializer.cc\<close>. The locale \<open>codec\<close> states what a pair of a writer and a reader promises;
    vectors and pairs of codecs are codecs, and it is interpreted on every type the messages use. Round
    trips (C6) and buffer bounds (C27) follow.
  \<^item> \<open>DbApi\<close>: \<open>include/db.h\<close>, the interface as a record of operations over a state.
  \<^item> \<open>StlHashtable\<close>, \<open>HashtableDB\<close>: \<open>lib/string.h\<close>, \<open>lib/stl_hashtable.h\<close>, \<open>db/hashtable_db.cc\<close>,
    \<open>db/lock_stl_db.h\<close>. The table is a sequence of entries; where an insertion puts the new entry is
    a parameter (\<open>layout\<close>), so the theorems hold for every iteration order. Locale \<open>string_table\<close> is the
    map contract (C19), locale \<open>record_store\<close> the contract of a record store on top of it (C4, C21, C22).
  \<^item> \<open>HeapDB\<close>, \<open>HeapLife\<close>: the same backend with its memory. Keys, values and field tables are blocks of a
    record \<open>heap\<close>; a bad access is the fault \<open>BadMemory\<close>. \<open>heap_ok\<close> says that every element owns its blocks, and
    \<open>lost\<close> counts the blocks that nothing refers to. Every operation keeps \<open>heap_ok\<close> and computes what the
    value model computes (C11); what operations and the destructor leak is C34 and C30.
  \<^item> \<open>Generators\<close>: the generators of \<open>core/*_generator.h\<close>; \<open>Generator\<close> is a datatype with the virtual
    calls \<open>gen_Next\<close> and \<open>gen_Last\<close>. Locales \<open>generator\<close> and \<open>bounded_generator\<close>; weighted choice (C28),
    the incremental zeta (C29) and the range of scrambled keys.
  \<^item> \<open>Workload\<close>, \<open>Client\<close>: \<open>core/core_workload.cc\<close>, \<open>core/core_workload.h\<close>, \<open>core/client.h\<close> and the thread
    body of \<open>ycsbc-l4.cc\<close>: set-up from properties, choice of operations, keys, fields and values, the
    transactions (C35, C37). \<open>wl_typed\<close> says what \<open>Init\<close> builds from the properties and what every
    later operation keeps (C35).
  \<^item> \<open>Requests\<close>: the messages both remote backends exchange, in the order client and server handle them.
  \<^item> \<open>Session\<close>: what both remote backends share, the state of a client and its server thread with the
    resources each side holds (record \<open>session\<close>), the calls of a server, and the steps of set-up with the kernel's
    return codes as a record (\<open>kernel\<close>).
  \<^item> \<open>Ipc\<close>: \<open>sqlite-ipc-srv/ipc.cc\<close> with \<open>db/sqlite_ipc_db.cc\<close>. An IPC call is one step. The operations
    refine the operations of the backend behind the server: \<open>remote_query\<close> and \<open>remote_command\<close> say what a
    call means without pages and bytes, \<open>refines\<close> relates the two (C2, C13, C14); a session releases
    what it acquired (C16).
  \<^item> \<open>ClientSim\<close>, \<open>IpcClient\<close>: locale \<open>backend_pair\<close> states when two backends answer alike, and then a client
    behaves in the same way over both; its requests are shown to be of representable size. It is interpreted
    on the heap and the value model, and on the IPC backend: a whole thread over the real messages is the
    thread over the abstract calls (C7).
  \<^item> \<open>Shm\<close>: \<open>sqlite-shm-srv/shm.cc\<close> with \<open>db/sqlite_shm_db.cc\<close>. Client and server threads are
    interleaved by \<open>shm_step\<close>; \<open>shm_phase\<close> is the inductive invariant, one rule per stage of a call. The log
    of returned calls replays sequentially on the backend (C1); return, the failure case and
    exclusion are C8 to C10; every call also makes progress.
  \<^item> \<open>ShmMany\<close>: any number of clients, each with pages and a server thread of its own, on the one database of the
    server. The operations in the order in which the servers did them are a sequential run, and every call takes effect
    once between its start and its return (C31).
  \<^item> \<open>ShmSession\<close>: set-up and tear-down of a shared-memory session. Set-up leads to the initial state of
    the protocol (C17); tear-down is an interleaving of the two threads' steps, and every interleaving
    releases the same resources (C18).
  \<^item> \<open>SqliteLib\<close>: \<open>lib/sqlite-lib-db/sqlite_lib_db.cc\<close>: SQL texts, statement cache, bindings, the loops over
    rows and locks (C5, C24).
  \<^item> \<open>SqlText\<close>, \<open>SqlStore\<close>, \<open>SqlLife\<close>, \<open>SqlScan\<close>: the same backend on a library that keeps its word. \<open>parse_sql\<close> reads the
    texts of the backend back as statements, whatever the names in them contain (C25). The locale
    \<open>sqlite_contract\<close> states the documented behaviour of the SQLite calls over tables, connections and prepared
    statements, within limits: texts without NUL of at most a million ASCII characters, at most 999 parameters,
    column names distinct without regard to case, and no other connection that writes or locks meanwhile; the
    order of a range query, and which rows its limit keeps, are left open. It gives what schema, insert and read do
    to the tables (C23), what a scan returns (C26), that the backend and \<open>lock_stl\<close> hold the same data (C33), and
    what a refused insert leaves behind (C39). It is interpreted on \<open>mini_sqlite\<close>, a small library with tables.
  \<^item> \<open>Servers\<close>: the main functions of both server programs, which register a \<open>DbServer\<close> and handle its calls, and
    the SQLite backend behind its pointer. Locale \<open>session_starter\<close> is what both ways to start a session promise:
    no session without a schema (C36). A record goes from the benchmark's task through the pages of the IPC
    backend into the tables of the library and back (C15).
  \<^item> \<open>BasicDB\<close>, \<open>Driver\<close>: \<open>db/basic_db.h\<close>, \<open>db/db_factory.cc\<close>, and \<open>ycsbc-l4.cc\<close> with the CPU query of
    \<open>include/utils.h\<close>: the command line, the CPUs of every thread, the plan of both phases (C40).
  \<^item> \<open>LoadPhase\<close>: the threads of the loading phase on the \<open>lock_stl\<close> backend, interleaved by \<open>load_step\<close> over the
    atomic counter and the locked table. What is loaded and counted does not depend on the schedule (C3).
  \<^item> \<open>RunPhase\<close>, \<open>RunEnd\<close>: the threads of the transaction phase that follows, interleaved by \<open>run_step\<close>, one step for
    each call of the workload or the database; \<open>DoTransaction\<close> alone is one of the schedules (\<open>run_turn\<close>). The
    records loaded suffice for every request, so all transactions succeed (C20), and the phase ends (C32).
  \<^item> \<open>Program\<close>: \<open>main\<close> as a whole with the text it prints and \<open>core/timer.h\<close>. \<open>main_begin\<close> is everything before the
    first thread (its result is the plan of \<open>Driver\<close>, \<open>main_begin_plan\<close>); \<open>main_step\<close> goes on through both phases
    to the end of the program. With \<open>lock_stl\<close> and uniformly chosen keys \<open>main\<close> ends under every
    schedule, and its report counts the records that were loaded (C12).

  \<^bold>\<open>Fuel.\<close> Three loops of the code may run forever and take a number of rounds: the retry loop of
  \<open>NextTransactionKey\<close>, the row loop of a scan and the lock loop of a write in \<open>SqliteLib\<close>. Running out
  is the fault \<open>OutOfFuel\<close>, which is never a result of the code. One round is enough for uniformly
  chosen keys and more rounds never change a result (\<open>NextTransactionKey_inserted\<close>, C32); \<open>k + 1\<close> rounds are enough when the lock is
  free after \<open>k\<close> steps (C24); a scan takes one round per row and one more. Reading a property file and
  the CPU query are total functions with a measure.

  \<^bold>\<open>Not modelled.\<close> The accesses to key blocks in comparisons (a live element holds an allocated
  key), and ownership outside \<open>lock_stl\<close>; how an exception that leaves
  \<open>main\<close> is printed; the stubs that the L4Re framework generates from the interface declarations
  (\<open>include/sqlite_ipc_server.h\<close>, \<open>include/sqlite_shm_server.h\<close>); exhaustion of capability slots (\<open>chkcap\<close> always succeeds);
  interleavings of the phases on the other backends (the remote
  servers give every client thread a server thread of its own). The acquire and release accesses of the
  shared-memory protocol are taken to order the plain accesses around them.
\<close>

end
